(* ===== verification/Prelude.thy ===== *)
theory Prelude
  imports Main "HOL-Library.Word"
begin

text \<open>
  Shared vocabulary of the development: the machine types the C++ sources use, the
  two's-complement reading of 64-bit signed arithmetic, open-addressing probe
  sequences, and the two generic interfaces (state machines that keep an invariant,
  bounded first-in first-out queues) that several components implement.
\<close>

unbundle bit_operations_syntax

section \<open>Machine types\<close>

type_synonym u8 = "8 word"
type_synonym u16 = "16 word"
type_synonym u32 = "32 word"
type_synonym u64 = "64 word"

text \<open>
  \<open>int64_t\<close> values are integers in the range of \<open>i64\<close>.  Signed arithmetic that the
  sources leave unchecked goes through \<open>s64\<close>, the two's-complement value the compiled
  code produces; \<open>s64_id\<close> is the lemma that nothing wraps inside the range.
\<close>

definition INT64_MIN :: int where
  "INT64_MIN = - (2 ^ 63)"

definition INT64_MAX :: int where
  "INT64_MAX = 2 ^ 63 - 1"

definition i64 :: "int \<Rightarrow> bool" where
  "i64 x \<longleftrightarrow> INT64_MIN \<le> x \<and> x \<le> INT64_MAX"

definition s64 :: "int \<Rightarrow> int" where
  "s64 x = (x + 2 ^ 63) mod 2 ^ 64 - 2 ^ 63"

text \<open>Conversion of an \<open>int64_t\<close> to \<open>uint64_t\<close>, kept as an integer.\<close>

definition u64_of :: "int \<Rightarrow> int" where
  "u64_of x = x mod 2 ^ 64"

lemmas i64_bounds = i64_def INT64_MIN_def INT64_MAX_def

lemma s64_id: "i64 x \<Longrightarrow> s64 x = x"
  by (simp add: s64_def i64_bounds)

lemma s64_i64: "i64 (s64 x)"
proof -
  have "0 \<le> (x + 2 ^ 63) mod 2 ^ 64" "(x + 2 ^ 63) mod 2 ^ 64 < (2::int) ^ 64"
    by simp_all
  then show ?thesis by (simp add: s64_def i64_bounds)
qed

lemma s64_add_sub_cancel: "s64 (s64 (x + d) - d) = s64 x"
proof -
  have "(s64 (x + d) - d + 2 ^ 63) mod 2 ^ 64 = ((x + d + 2 ^ 63) mod 2 ^ 64 - d) mod (2::int) ^ 64"
    unfolding s64_def by (simp only: diff_add_cancel diff_right_commute)
  also have "\<dots> = (x + d + 2 ^ 63 - d) mod 2 ^ 64"
    by (rule mod_diff_left_eq)
  also have "x + d + 2 ^ 63 - d = x + 2 ^ 63" by simp
  finally show ?thesis unfolding s64_def [of "s64 (x + d) - d"] s64_def [of x] by (rule arg_cong)
qed

lemma u64_of_nonneg: "i64 x \<Longrightarrow> 0 \<le> x \<Longrightarrow> u64_of x = x"
  by (simp add: u64_of_def i64_bounds)

lemma u64_of_neg: "i64 x \<Longrightarrow> x < 0 \<Longrightarrow> u64_of x = x + 2 ^ 64"
proof -
  assume "i64 x" "x < 0"
  then have "(x + 2 ^ 64) mod 2 ^ 64 = x + 2 ^ 64"
    by (intro mod_pos_pos_trivial) (simp_all add: i64_bounds)
  then show ?thesis unfolding u64_of_def by (simp only: mod_add_self2)
qed

section \<open>Unsigned counters\<close>

lemma unat_inc: "w < v \<Longrightarrow> unat (w + 1) = Suc (unat w)"
  for w v :: "'a::len word"
proof -
  assume "w < v"
  then have "unat w + 1 < 2 ^ LENGTH('a)"
    using unsigned_less [of v, where ?'a = nat] unfolding word_less_nat_alt by linarith
  then show ?thesis by (simp add: unat_word_ariths)
qed

lemma unat_dec: "w \<noteq> 0 \<Longrightarrow> unat (w - 1) = unat w - 1"
  for w :: "'a::len word"
  by (rule unat_minus_one)

section \<open>Index masks and probe sequences\<close>

text \<open>
  Ring and hash-table indices are reduced with \<open>& (Capacity - 1)\<close>; for a power of two
  this is the remainder.
\<close>

lemma and_mask_pow2: "x AND (2 ^ k - 1) = x mod 2 ^ k"
  for x :: nat
  unfolding take_bit_eq_mod [symmetric] take_bit_eq_mask mask_eq_exp_minus_1 by (rule refl)

lemma and_mask_Suc: "x AND (2 ^ k - Suc 0) = x mod 2 ^ k"
  for x :: nat
  using and_mask_pow2 [of x k] by simp

lemma unat_pow2: "k < LENGTH('a) \<Longrightarrow> unat ((2 :: 'a::len word) ^ k) = 2 ^ k"
proof -
  assume "k < LENGTH('a)"
  then have "(2::nat) ^ k < 2 ^ LENGTH('a)" by simp
  moreover have "(2 :: 'a word) ^ k = of_nat (2 ^ k)" by simp
  ultimately show ?thesis by (simp only: unat_of_nat mod_less)
qed

text \<open>
  \<open>probe cap h n\<close> is the slot a linear probe visits after \<open>n\<close> steps from the home
  slot \<open>h\<close>.
\<close>

definition probe :: "nat \<Rightarrow> nat \<Rightarrow> nat \<Rightarrow> nat" where
  "probe cap h n = (h + n) mod cap"

lemma probe_less: "0 < cap \<Longrightarrow> probe cap h n < cap"
  by (simp add: probe_def)

lemma probe_0: "h < cap \<Longrightarrow> probe cap h 0 = h"
  by (simp add: probe_def)

lemma probe_Suc: "(probe cap h n + 1) mod cap = probe cap h (Suc n)"
  by (simp add: probe_def mod_simps)

lemma probe_inj_le:
  assumes "probe cap h a = probe cap h b" "a \<le> b" "b < cap"
  shows "a = b"
proof -
  have "(h + b) mod cap = (h + a) mod cap"
    using assms(1) by (simp only: probe_def)
  then have "cap dvd (h + b) - (h + a)"
    using assms(2) by (subst mod_eq_dvd_iff_nat [symmetric]) simp_all
  then have "cap dvd b - a" by (simp only: diff_cancel)
  moreover have "\<not> cap dvd b - a" if "0 < b - a"
    using that assms(3) by (intro nat_dvd_not_less) simp_all
  ultimately show ?thesis using assms(2) by (cases "a = b") auto
qed

lemma probe_inj:
  assumes "probe cap h m = probe cap h n" "m < cap" "n < cap"
  shows "m = n"
  using probe_inj_le [of cap h m n] probe_inj_le [of cap h n m] assms
  by (cases "m \<le> n") auto

lemma probe_surj:
  assumes "i < cap"
  shows "\<exists>n<cap. probe cap h n = i"
proof -
  have "inj_on (probe cap h) {..<cap}"
    by (auto intro: inj_onI dest: probe_inj)
  moreover have "probe cap h ` {..<cap} \<subseteq> {..<cap}"
    using assms by (auto simp: probe_def)
  ultimately have "probe cap h ` {..<cap} = {..<cap}"
    by (simp add: endo_inj_surj)
  moreover have "i \<in> {..<cap}" using assms by simp
  ultimately obtain n where "n \<in> {..<cap}" "i = probe cap h n" by blast
  then show ?thesis by auto
qed

section \<open>Counting loops that stop at the first hit\<close>

text \<open>
  \<open>for (i = 0; i < n; ++i) if (P(i)) return i;\<close> is \<open>find P [0..<n]\<close>; these are its two outcomes.
\<close>

lemma find_upt_Some:
  "find P [0..<n] = Some q \<longleftrightarrow> q < n \<and> P q \<and> (\<forall>r<q. \<not> P r)"
  by (auto simp: find_Some_iff)

lemma find_upt_None: "find P [0..<n] = None \<longleftrightarrow> (\<forall>r<n. \<not> P r)"
  by (auto simp: find_None_iff)

lemma find_upt_step:
  "find P [s..<s + Suc n] = (if P s then Some s else find P [Suc s..<Suc s + n])"
  by (subst upt_conv_Cons) simp_all

lemma restrict_map_UNIV [simp]: "m |` UNIV = m"
  by (simp add: restrict_map_def)

lemma map_eqI:
  assumes eq: "\<And>k v. f k = Some v \<longleftrightarrow> g k = Some v"
  shows "f = g"
proof
  fix k
  show "f k = g k"
  proof (cases "f k")
    case None
    have "g k = None"
    proof (rule ccontr)
      assume "g k \<noteq> None"
      then obtain v where "g k = Some v" by blast
      with eq [of k v] None show False by simp
    qed
    with None show ?thesis by simp
  next
    case (Some v)
    then have "g k = Some v" using eq [of k v] by simp
    with Some show ?thesis by simp
  qed
qed

lemma sum_fun_upd:
  assumes "t < (n :: nat)"
  shows "(\<Sum>u<n. (f(t := x)) u) + f t = (\<Sum>u<n. f u) + (x :: nat)"
proof -
  have "(\<Sum>u<n. g u) = g t + (\<Sum>u\<in>{..<n} - {t}. g u)" for g :: "nat \<Rightarrow> nat"
    using assms by (intro sum.remove) simp_all
  moreover have "(\<Sum>u\<in>{..<n} - {t}. (f(t := x)) u) = (\<Sum>u\<in>{..<n} - {t}. f u)"
    by (rule sum.cong) simp_all
  ultimately show ?thesis by simp
qed

section \<open>State machines that keep an invariant\<close>

text \<open>
  A component is a step function over its events; the interface promises that a step
  keeps the component's invariant, and the client facts are about whole runs.
\<close>

locale invariant_machine =
  fixes step :: "'s \<Rightarrow> 'e \<Rightarrow> 's"
    and inv :: "'s \<Rightarrow> bool"
  assumes inv_step: "inv s \<Longrightarrow> inv (step s e)"
begin

lemma inv_run: "inv s \<Longrightarrow> inv (foldl step s es)"
  by (induction es arbitrary: s) (auto intro: inv_step)

lemma inv_prefix: "inv s \<Longrightarrow> foldl step s (es @ fs) = t \<Longrightarrow> inv (foldl step s es) \<and> inv t"
  using inv_run by blast

end

section \<open>Bounded queues\<close>

text \<open>
  The contract of a bounded first-in first-out queue: \<open>contents\<close> is the abstract list,
  pushing appends unless the queue is full, popping takes the oldest element.
\<close>

locale bounded_queue =
  fixes contents :: "'q \<Rightarrow> 'a list"
    and push :: "'q \<Rightarrow> 'a \<Rightarrow> 'q option"
    and pop :: "'q \<Rightarrow> ('a \<times> 'q) option"
    and inv :: "'q \<Rightarrow> bool"
    and cap :: nat
  assumes push_full: "inv q \<Longrightarrow> push q x = None \<longleftrightarrow> length (contents q) = cap"
    and push_some: "inv q \<Longrightarrow> push q x = Some q' \<Longrightarrow> inv q' \<and> contents q' = contents q @ [x]"
    and pop_empty: "inv q \<Longrightarrow> pop q = None \<longleftrightarrow> contents q = []"
    and pop_some: "inv q \<Longrightarrow> pop q = Some (x, q') \<Longrightarrow> inv q' \<and> contents q = x # contents q'"
    and bounded: "inv q \<Longrightarrow> length (contents q) \<le> cap"
begin

lemma push_room:
  "inv q \<Longrightarrow> length (contents q) < cap \<Longrightarrow>
   \<exists>q'. push q x = Some q' \<and> inv q' \<and> contents q' = contents q @ [x]"
  using push_full [of q x] push_some [of q x] by (cases "push q x") auto

lemma pop_nonempty:
  "inv q \<Longrightarrow> contents q = x # xs \<Longrightarrow> \<exists>q'. pop q = Some (x, q') \<and> inv q' \<and> contents q' = xs"
proof -
  assume q: "inv q" "contents q = x # xs"
  then have "pop q \<noteq> None" using pop_empty by simp
  then obtain y q' where "pop q = Some (y, q')" by auto
  moreover from q this have "inv q' \<and> x # xs = y # contents q'"
    using pop_some [of q y q'] by simp
  ultimately show ?thesis by simp
qed

text \<open>What was pushed first is popped first, whatever was already queued behind it.\<close>

lemma push_pop_order:
  "inv q \<Longrightarrow> push q x = Some q1 \<Longrightarrow> pop q1 = Some (y, q2) \<Longrightarrow>
   contents q @ [x] = y # contents q2 \<and> inv q2"
  using push_some [of q x q1] pop_some [of q1 y q2] by simp

end

section \<open>Finite maps with a fallible insertion\<close>

text \<open>
  The contract of the hash tables: \<open>lookup\<close> reads a finite map, a successful insertion
  updates it at one key, a refused one changes nothing; where there is a removal, it forgets
  one key.
\<close>

datatype ('k, 'v) map_op = Insert 'k 'v | Remove 'k

primrec map_exec ::
    "('m \<Rightarrow> 'k \<Rightarrow> 'v \<Rightarrow> bool \<times> 'm) \<Rightarrow> ('m \<Rightarrow> 'k \<Rightarrow> 'm) \<Rightarrow> 'm \<Rightarrow> ('k, 'v) map_op \<Rightarrow> 'm" where
  "map_exec ins rem m (Insert k v) = snd (ins m k v)"
| "map_exec ins rem m (Remove k) = rem m k"

primrec map_accepts ::
    "('m \<Rightarrow> 'k \<Rightarrow> 'v \<Rightarrow> bool \<times> 'm) \<Rightarrow> 'm \<Rightarrow> ('k, 'v) map_op \<Rightarrow> bool" where
  "map_accepts ins m (Insert k v) = fst (ins m k v)"
| "map_accepts ins m (Remove k) = True"

text \<open>The operations of a run that took effect.\<close>

primrec map_effective ::
    "('m \<Rightarrow> 'k \<Rightarrow> 'v \<Rightarrow> bool \<times> 'm) \<Rightarrow> ('m \<Rightarrow> 'k \<Rightarrow> 'm) \<Rightarrow> 'm \<Rightarrow> ('k, 'v) map_op list \<Rightarrow> ('k, 'v) map_op list"
where
  "map_effective ins rem m [] = []"
| "map_effective ins rem m (x # xs) =
     (if map_accepts ins m x then [x] else []) @ map_effective ins rem (map_exec ins rem m x) xs"

primrec map_spec :: "('k \<rightharpoonup> 'v) \<Rightarrow> ('k, 'v) map_op \<Rightarrow> ('k \<rightharpoonup> 'v)" where
  "map_spec f (Insert k v) = f(k \<mapsto> v)"
| "map_spec f (Remove k) = f(k := None)"

text \<open>The insertions of a run that were accepted.\<close>

primrec accepted_inserts :: "('m \<Rightarrow> 'k \<Rightarrow> 'v \<Rightarrow> bool \<times> 'm) \<Rightarrow> 'm \<Rightarrow> ('k \<times> 'v) list \<Rightarrow> ('k \<times> 'v) list" where
  "accepted_inserts ins m [] = []"
| "accepted_inserts ins m (x # xs) =
     (if fst (ins m (fst x) (snd x)) then [x] else []) @ accepted_inserts ins (snd (ins m (fst x) (snd x))) xs"

locale insert_map =
  fixes lookup :: "'m \<Rightarrow> 'k \<Rightarrow> 'v option"
    and ins :: "'m \<Rightarrow> 'k \<Rightarrow> 'v \<Rightarrow> bool \<times> 'm"
    and inv :: "'m \<Rightarrow> bool"
  assumes ins_ok: "inv m \<Longrightarrow> ins m k v = (True, m') \<Longrightarrow> inv m' \<and> lookup m' = (lookup m)(k \<mapsto> v)"
    and ins_refused: "inv m \<Longrightarrow> ins m k v = (False, m') \<Longrightarrow> m' = m"
begin

lemma insert_step:
  "inv m \<Longrightarrow> inv (snd (ins m k v)) \<and>
   lookup (snd (ins m k v)) = (if fst (ins m k v) then (lookup m)(k \<mapsto> v) else lookup m)"
  using ins_ok [of m k v "snd (ins m k v)"] ins_refused [of m k v "snd (ins m k v)"]
  by (cases "fst (ins m k v)") (simp_all add: prod_eq_iff)

lemma insert_run:
  "inv m \<Longrightarrow> inv (foldl (\<lambda>m x. snd (ins m (fst x) (snd x))) m xs) \<and>
   lookup (foldl (\<lambda>m x. snd (ins m (fst x) (snd x))) m xs) =
     foldl (\<lambda>f x. f(fst x \<mapsto> snd x)) (lookup m) (accepted_inserts ins m xs)"
proof (induction xs arbitrary: m)
  case (Cons x xs)
  then show ?case using insert_step [of m "fst x" "snd x"] by (simp add: fun_upd_def)
qed simp

end

locale finite_map = insert_map lookup ins inv
  for lookup :: "'m \<Rightarrow> 'k \<Rightarrow> 'v option" and ins :: "'m \<Rightarrow> 'k \<Rightarrow> 'v \<Rightarrow> bool \<times> 'm" and inv :: "'m \<Rightarrow> bool" +
  fixes rem :: "'m \<Rightarrow> 'k \<Rightarrow> 'm"
  assumes rem_ok: "inv m \<Longrightarrow> inv (rem m k) \<and> lookup (rem m k) = (lookup m)(k := None)"
begin

lemma exec_inv: "inv m \<Longrightarrow> inv (map_exec ins rem m x)"
proof (cases x)
  case (Insert k v)
  then show "inv m \<Longrightarrow> ?thesis"
    using ins_ok [of m k v] ins_refused [of m k v] by (cases "ins m k v"; cases "fst (ins m k v)") auto
next
  case (Remove k)
  then show "inv m \<Longrightarrow> ?thesis" using rem_ok [of m k] by simp
qed

lemma exec_refused: "inv m \<Longrightarrow> \<not> map_accepts ins m x \<Longrightarrow> map_exec ins rem m x = m"
  using ins_refused by (cases x) (auto simp: prod_eq_iff)

lemma exec_accepted:
  "inv m \<Longrightarrow> map_accepts ins m x \<Longrightarrow> lookup (map_exec ins rem m x) = map_spec (lookup m) x"
proof (cases x)
  case (Insert k v)
  then show "inv m \<Longrightarrow> map_accepts ins m x \<Longrightarrow> ?thesis"
    using ins_ok [of m k v "snd (ins m k v)"] by (simp add: prod_eq_iff)
next
  case (Remove k)
  then show "inv m \<Longrightarrow> ?thesis" using rem_ok [of m k] by simp
qed

lemma run_spec:
  "inv m \<Longrightarrow> inv (foldl (map_exec ins rem) m xs) \<and>
   lookup (foldl (map_exec ins rem) m xs) = foldl map_spec (lookup m) (map_effective ins rem m xs)"
proof (induction xs arbitrary: m)
  case Nil
  then show ?case by simp
next
  case (Cons x xs)
  show ?case
  proof (cases "map_accepts ins m x")
    case True
    with Cons.IH [OF exec_inv [OF Cons.prems, of x]] show ?thesis
      by (simp add: exec_accepted [OF Cons.prems])
  next
    case False
    with Cons.IH [OF Cons.prems] show ?thesis by (simp add: exec_refused [OF Cons.prems])
  qed
qed

end

end
