(* ===== verification/Numeric.thy ===== *)
theory Numeric
  imports Prelude "HOL-Library.Signed_Division"
begin

text \<open>
  The limits and the checked 64-bit arithmetic of \<open>luv_numeric_limits.hpp\<close>.  A
  \<open>bool\<close> result with an out-parameter is an \<open>option\<close>.
\<close>

definition kMinPrice :: int where
  "kMinPrice = 1"

definition kMaxPrice :: int where
  "kMaxPrice = 0xFFFFFFFF"

definition kMinQuantity :: int where
  "kMinQuantity = 1"

definition kMaxQuantity :: int where
  "kMaxQuantity = 1000000000"

definition is_valid_price :: "int \<Rightarrow> bool" where
  "is_valid_price v \<longleftrightarrow> v \<ge> kMinPrice \<and> v \<le> kMaxPrice"

definition is_valid_quantity :: "int \<Rightarrow> bool" where
  "is_valid_quantity v \<longleftrightarrow> v \<ge> kMinQuantity \<and> v \<le> kMaxQuantity"

definition checked_add :: "int \<Rightarrow> int \<Rightarrow> int option" where
  "checked_add lhs rhs =
     (if (rhs > 0 \<and> lhs > INT64_MAX - rhs) \<or> (rhs < 0 \<and> lhs < INT64_MIN - rhs)
      then None else Some (lhs + rhs))"

definition checked_sub :: "int \<Rightarrow> int \<Rightarrow> int option" where
  "checked_sub lhs rhs =
     (if (rhs < 0 \<and> lhs > INT64_MAX + rhs) \<or> (rhs > 0 \<and> lhs < INT64_MIN + rhs)
      then None else Some (lhs - rhs))"

text \<open>
  \<open>__builtin_mul_overflow\<close> computes the product in infinite precision and reports
  whether it fits; \<open>__builtin_add_overflow\<close> likewise.
\<close>

definition mul_overflow :: "int \<Rightarrow> int \<Rightarrow> bool" where
  "mul_overflow lhs rhs \<longleftrightarrow> \<not> i64 (lhs * rhs)"

definition add_overflow :: "int \<Rightarrow> int \<Rightarrow> bool" where
  "add_overflow lhs rhs \<longleftrightarrow> \<not> i64 (lhs + rhs)"

definition checked_mul :: "int \<Rightarrow> int \<Rightarrow> int option" where
  "checked_mul lhs rhs = (if mul_overflow lhs rhs then None else Some (lhs * rhs))"

text \<open>The branch compiled where the builtins are missing; C++ division truncates.\<close>

definition checked_mul_portable :: "int \<Rightarrow> int \<Rightarrow> int option" where
  "checked_mul_portable lhs rhs =
     (if lhs = 0 \<or> rhs = 0 then Some 0
      else if lhs > 0 then
        (if rhs > 0 then
           (if lhs > INT64_MAX sdiv rhs then None else Some (lhs * rhs))
         else
           (if rhs < INT64_MIN sdiv lhs then None else Some (lhs * rhs)))
      else
        (if rhs > 0 then
           (if lhs < INT64_MIN sdiv rhs then None else Some (lhs * rhs))
         else
           (if lhs \<noteq> 0 \<and> rhs < INT64_MAX sdiv lhs then None else Some (lhs * rhs))))"

lemmas numeric_limits = kMinPrice_def kMaxPrice_def kMinQuantity_def kMaxQuantity_def
lemmas numeric_valid = is_valid_price_def is_valid_quantity_def numeric_limits

lemma checked_add_eq:
  "i64 a \<Longrightarrow> i64 b \<Longrightarrow> checked_add a b = (if i64 (a + b) then Some (a + b) else None)"
  unfolding checked_add_def i64_bounds by auto

lemma checked_sub_eq:
  "i64 a \<Longrightarrow> i64 b \<Longrightarrow> checked_sub a b = (if i64 (a - b) then Some (a - b) else None)"
  unfolding checked_sub_def i64_bounds by auto

lemma checked_mul_eq: "checked_mul a b = (if i64 (a * b) then Some (a * b) else None)"
  by (simp add: checked_mul_def mul_overflow_def)

lemma checked_add_small:
  "0 \<le> a \<Longrightarrow> a \<le> 2 ^ 62 \<Longrightarrow> 0 \<le> b \<Longrightarrow> b \<le> 2 ^ 61 \<Longrightarrow> checked_add a b = Some (a + b)"
  by (auto simp: checked_add_def i64_bounds)

lemma div_less_iff_mult:
  assumes "0 < (b::int)"
  shows "m div b < a \<longleftrightarrow> m < a * b"
proof
  assume "m div b < a"
  then have "m div b + 1 \<le> a" by simp
  then have "(m div b + 1) * b \<le> a * b" using assms by (intro mult_right_mono) simp_all
  moreover have "(m div b + 1) * b = m div b * b + b" by (simp add: distrib_right)
  moreover have "m < m div b * b + b"
    using pos_mod_bound [OF assms, of m] div_mult_mod_eq [of m b] by linarith
  ultimately show "m < a * b" by simp
next
  assume less: "m < a * b"
  show "m div b < a"
  proof (rule ccontr)
    assume "\<not> m div b < a"
    then have "a * b \<le> m div b * b" using assms by (intro mult_right_mono) simp_all
    moreover have "m div b * b \<le> m"
      using pos_mod_sign [OF assms, of m] div_mult_mod_eq [of m b] by linarith
    ultimately show False using less by linarith
  qed
qed

text \<open>
  The four sign combinations of the portable branch, each as one comparison of the exact
  product.
\<close>

lemma sdiv_pos_pos: "0 < b \<Longrightarrow> 0 \<le> m \<Longrightarrow> m sdiv b = m div b"
  for m b :: int
  by (cases "m = 0") (simp_all add: signed_divide_int_def)

lemma sdiv_neg_pos: "0 < b \<Longrightarrow> 0 < m \<Longrightarrow> (- m) sdiv b = - (m div b)"
  for m b :: int
  by (simp add: signed_divide_int_def)

lemma sdiv_pos_neg: "0 < b \<Longrightarrow> 0 < m \<Longrightarrow> m sdiv (- b) = - (m div b)"
  for m b :: int
  by (simp add: signed_divide_int_def)

lemma overflow_pos_pos: "0 < b \<Longrightarrow> INT64_MAX sdiv b < a \<longleftrightarrow> INT64_MAX < a * b"
  by (simp add: INT64_MAX_def sdiv_pos_pos div_less_iff_mult)

lemma overflow_neg_pos: "0 < b \<Longrightarrow> a < INT64_MIN sdiv b \<longleftrightarrow> a * b < INT64_MIN"
proof -
  assume b: "0 < b"
  have "INT64_MIN sdiv b = - (2 ^ 63 div b)"
    unfolding INT64_MIN_def using b by (rule sdiv_neg_pos) simp
  moreover have "2 ^ 63 div b < - a \<longleftrightarrow> 2 ^ 63 < - (a * b)"
    using div_less_iff_mult [OF b, of "2 ^ 63" "- a"] by (simp only: mult_minus_left)
  ultimately show ?thesis
    unfolding INT64_MIN_def by (simp only: less_minus_iff)
qed

lemma overflow_neg_neg: "b < 0 \<Longrightarrow> a < INT64_MAX sdiv b \<longleftrightarrow> INT64_MAX < a * b"
proof -
  assume "b < 0"
  then have b: "0 < - b" by simp
  have "INT64_MAX sdiv b = - (INT64_MAX div - b)"
    using sdiv_pos_neg [OF b, of INT64_MAX] by (simp add: INT64_MAX_def)
  moreover have "INT64_MAX div - b < - a \<longleftrightarrow> INT64_MAX < a * b"
    using div_less_iff_mult [OF b, of INT64_MAX "- a"] by (simp only: minus_mult_minus)
  ultimately show ?thesis by (simp only: less_minus_iff)
qed

lemma i64_mult_pos: "0 < a * b \<Longrightarrow> i64 (a * b) \<longleftrightarrow> \<not> INT64_MAX < a * b"
  by (auto simp: i64_bounds)

lemma i64_mult_neg: "a * b < 0 \<Longrightarrow> i64 (a * b) \<longleftrightarrow> \<not> a * b < INT64_MIN"
  by (auto simp: i64_bounds)

text \<open>
  C33: the portable overflow test of \<open>checked_mul\<close>, with its truncating divisions, accepts
  exactly the products the compiler builtin accepts and returns the same value.
\<close>

theorem checked_mul_portable_eq: "checked_mul_portable a b = checked_mul a b"
proof -
  consider "a = 0 \<or> b = 0" | "0 < a" "0 < b" | "0 < a" "b < 0" | "a < 0" "0 < b" | "a < 0" "b < 0"
    by linarith
  then show ?thesis
  proof cases
    case 1
    then show ?thesis by (auto simp: checked_mul_portable_def checked_mul_eq i64_bounds)
  next
    case 2
    then have "0 < a * b" by simp
    with 2 show ?thesis
      by (simp add: checked_mul_portable_def checked_mul_eq overflow_pos_pos i64_mult_pos)
  next
    case 3
    then have "a * b < 0" by (simp add: mult_pos_neg)
    with 3 show ?thesis
      by (simp add: checked_mul_portable_def checked_mul_eq overflow_neg_pos i64_mult_neg
          mult.commute [of b a])
  next
    case 4
    then have "a * b < 0" by (simp add: mult_neg_pos)
    with 4 show ?thesis
      by (simp add: checked_mul_portable_def checked_mul_eq overflow_neg_pos i64_mult_neg)
  next
    case 5
    then have "0 < a * b" by (simp add: mult_neg_neg)
    with 5 show ?thesis
      by (simp add: checked_mul_portable_def checked_mul_eq overflow_neg_neg i64_mult_pos
          mult.commute [of b a])
  qed
qed

end
