(* ===== verification/Arena.thy ===== *)
theory Arena
  imports Numeric
begin

text \<open>
  The memory arena of \<open>luv_arena.hpp\<close>: its fixed dimensions, the structures laid out in
  it, the flat addressing of price levels, the slab layout, and the lock-free
  single-producer single-consumer rings.  Arrays of the arena are functions from the
  array index; pointers into them are indices.
\<close>

section \<open>Configuration\<close>

abbreviation (input) kSymbols :: nat where "kSymbols \<equiv> 512"
abbreviation (input) kLevelsPerSide :: nat where "kLevelsPerSide \<equiv> 1024"
abbreviation (input) kMaxOrdersPerLevel :: nat where "kMaxOrdersPerLevel \<equiv> 16"
abbreviation (input) kMaxActiveOrders :: nat where "kMaxActiveOrders \<equiv> 64"

definition kTickCapacity :: nat where "kTickCapacity = 2 ^ 22"
definition kTelemCapacity :: nat where "kTelemCapacity = 2 ^ 16"

definition kCacheLine :: u64 where "kCacheLine = 64"
definition kHugePage :: u64 where "kHugePage = 2 * 1024 * 1024"

definition align_up :: "u64 \<Rightarrow> u64 \<Rightarrow> u64" where
  "align_up n a = (n + a - 1) AND NOT (a - 1)"

definition can_align_up :: "u64 \<Rightarrow> u64 \<Rightarrow> bool" where
  "can_align_up n a \<longleftrightarrow> a \<noteq> 0 \<and> a AND (a - 1) = 0 \<and> n \<le> (- 1) - (a - 1)"

section \<open>Order slots and price levels\<close>

record OrderSlot =
  slot_order_id :: u64
  slot_qty :: int
  slot_flags :: u32
  slot_next :: int
  slot_prev :: int

definition kFlagBid :: u32 where "kFlagBid = 1"
definition kFlagActive :: u32 where "kFlagActive = 2"

definition is_active :: "OrderSlot \<Rightarrow> bool" where
  "is_active s \<longleftrightarrow> slot_flags s AND kFlagActive \<noteq> 0"

definition is_bid :: "OrderSlot \<Rightarrow> bool" where
  "is_bid s \<longleftrightarrow> slot_flags s AND kFlagBid \<noteq> 0"

text \<open>\<open>OrderSlot{}\<close>: the default member initialisers.\<close>

definition empty_slot :: OrderSlot where
  "empty_slot = \<lparr>slot_order_id = 0, slot_qty = 0, slot_flags = 0, slot_next = -1, slot_prev = -1\<rparr>"

record PriceLevel =
  lvl_orders :: "OrderSlot list"
  lvl_price :: int
  lvl_total_qty :: int
  lvl_order_count :: int
  lvl_head :: int

definition reset_level :: "PriceLevel \<Rightarrow> PriceLevel" where
  "reset_level l = l\<lparr>lvl_price := 0, lvl_total_qty := 0, lvl_order_count := 0, lvl_head := -1,
     lvl_orders := map (\<lambda>_. empty_slot) (lvl_orders l)\<rparr>"

definition alloc_slot :: "PriceLevel \<Rightarrow> nat option" where
  "alloc_slot l = find (\<lambda>i. \<not> is_active (lvl_orders l ! i)) [0..<kMaxOrdersPerLevel]"

text \<open>A level as \<open>memset\<close> leaves it: every field zero, list links included.\<close>

definition zero_level :: PriceLevel where
  "zero_level = \<lparr>lvl_orders = replicate kMaxOrdersPerLevel
       \<lparr>slot_order_id = 0, slot_qty = 0, slot_flags = 0, slot_next = 0, slot_prev = 0\<rparr>,
     lvl_price = 0, lvl_total_qty = 0, lvl_order_count = 0, lvl_head = 0\<rparr>"

section \<open>Ticks, orders and risk state\<close>

record TickMsg =
  tk_msg_type :: u8
  tk_flags :: u8
  tk_symbol_idx :: nat
  tk_timestamp :: u64
  tk_price :: int
  tk_qty :: int
  tk_order_ref :: u64
  tk_match_num :: u64

definition empty_tick :: TickMsg where
  "empty_tick = \<lparr>tk_msg_type = 0, tk_flags = 0, tk_symbol_idx = 0, tk_timestamp = 0,
     tk_price = 0, tk_qty = 0, tk_order_ref = 0, tk_match_num = 0\<rparr>"

record ActiveOrder =
  ao_order_id :: u64
  ao_price :: int
  ao_qty :: int
  ao_filled_qty :: int
  ao_symbol_idx :: nat
  ao_side :: u8
  ao_state :: u8
  ao_time_in_force :: u8

definition empty_order :: ActiveOrder where
  "empty_order = \<lparr>ao_order_id = 0, ao_price = 0, ao_qty = 0, ao_filled_qty = 0,
     ao_symbol_idx = 0, ao_side = 0, ao_state = 0, ao_time_in_force = 0\<rparr>"

record RiskState =
  rs_net_position :: int
  rs_gross_exposure :: int
  rs_daily_pnl :: int
  rs_max_drawdown :: int
  rs_current_drawdown :: int
  rs_order_count :: u32
  rs_reject_count :: u32
  rs_halted :: u8

record SymbolExecState =
  se_orders :: "ActiveOrder list"
  se_risk :: RiskState

definition zero_exec_state :: SymbolExecState where
  "zero_exec_state = \<lparr>se_orders = replicate kMaxActiveOrders empty_order,
     se_risk = \<lparr>rs_net_position = 0, rs_gross_exposure = 0, rs_daily_pnl = 0, rs_max_drawdown = 0,
       rs_current_drawdown = 0, rs_order_count = 0, rs_reject_count = 0, rs_halted = 0\<rparr>\<rparr>"

section \<open>Single-producer single-consumer rings\<close>

text \<open>
  \<open>head\<close> and \<open>tail\<close> are free-running 64-bit counters; \<open>slots\<close> is a null pointer until
  the arena wires it.  A claimed or peeked slot is returned as its index.
\<close>

record 'a SPSCRing =
  rg_head :: u64
  rg_tail :: u64
  rg_slots :: "(nat \<Rightarrow> 'a) option"

definition try_claim :: "nat \<Rightarrow> 'a SPSCRing \<Rightarrow> nat option" where
  "try_claim cap r =
     (if rg_slots r = None then None
      else if unat (rg_head r - rg_tail r) \<ge> cap then None
      else Some (unat (rg_head r) AND (cap - 1)))"

definition commit :: "'a SPSCRing \<Rightarrow> 'a SPSCRing" where
  "commit r = r\<lparr>rg_head := rg_head r + 1\<rparr>"

definition try_peek :: "nat \<Rightarrow> 'a SPSCRing \<Rightarrow> nat option" where
  "try_peek cap r =
     (if rg_slots r = None then None
      else if rg_head r = rg_tail r then None
      else Some (unat (rg_tail r) AND (cap - 1)))"

definition consume :: "'a SPSCRing \<Rightarrow> 'a SPSCRing" where
  "consume r = r\<lparr>rg_tail := rg_tail r + 1\<rparr>"

definition ring_size :: "'a SPSCRing \<Rightarrow> u64" where
  "ring_size r = rg_head r - rg_tail r"

definition write_slot :: "nat \<Rightarrow> 'a \<Rightarrow> 'a SPSCRing \<Rightarrow> 'a SPSCRing" where
  "write_slot i x r = r\<lparr>rg_slots := map_option (\<lambda>f. f(i := x)) (rg_slots r)\<rparr>"

definition read_slot :: "nat \<Rightarrow> 'a SPSCRing \<Rightarrow> 'a" where
  "read_slot i r = the (rg_slots r) i"

text \<open>The producer's and the consumer's use of the ring: claim, fill, commit; peek, read, consume.\<close>

definition ring_push :: "nat \<Rightarrow> 'a SPSCRing \<Rightarrow> 'a \<Rightarrow> 'a SPSCRing option" where
  "ring_push cap r x = map_option (\<lambda>i. commit (write_slot i x r)) (try_claim cap r)"

definition ring_pop :: "nat \<Rightarrow> 'a SPSCRing \<Rightarrow> ('a \<times> 'a SPSCRing) option" where
  "ring_pop cap r = map_option (\<lambda>i. (read_slot i r, consume r)) (try_peek cap r)"

datatype MemoryPressureTier = kNormal | kWarning | kShedLoad | kEmergencyHalt

text \<open>
  \<open>occupancy_ratio\<close> divides by a power of two, which is exact in a \<open>double\<close>, and no
  threshold times the capacity is an integer at or next to a tie, so the comparisons with
  0.95, 0.85, 0.70 and 0.80 are the integer comparisons below.
\<close>

definition is_near_capacity :: "nat \<Rightarrow> 'a SPSCRing \<Rightarrow> bool" where
  "is_near_capacity cap r \<longleftrightarrow> 100 * unat (ring_size r) \<ge> 80 * cap"

definition pressure_tier :: "nat \<Rightarrow> 'a SPSCRing \<Rightarrow> MemoryPressureTier" where
  "pressure_tier cap r =
     (let n = 100 * unat (ring_size r) in
      if n \<ge> 95 * cap then kEmergencyHalt
      else if n \<ge> 85 * cap then kShedLoad
      else if n \<ge> 70 * cap then kWarning
      else kNormal)"

definition allow_ingress :: "nat \<Rightarrow> 'a SPSCRing \<Rightarrow> bool \<Rightarrow> bool" where
  "allow_ingress cap r is_cancellation =
     (case pressure_tier cap r of
        kNormal \<Rightarrow> True
      | kWarning \<Rightarrow> True
      | kShedLoad \<Rightarrow> is_cancellation
      | kEmergencyHalt \<Rightarrow> False)"

section \<open>Sharded tick ring\<close>

abbreviation (input) NumShards :: nat where "NumShards \<equiv> 4"
definition ShardCapacity :: nat where "ShardCapacity = 2 ^ 20"

record ShardedTickRing =
  sh_rings :: "nat \<Rightarrow> TickMsg SPSCRing"
  sh_initialised :: bool

text \<open>Shard \<open>i\<close> uses the part of the storage that starts at \<open>i * ShardCapacity\<close>.\<close>

definition sharded_init :: "(nat \<Rightarrow> TickMsg) option \<Rightarrow> ShardedTickRing \<Rightarrow> bool \<times> ShardedTickRing" where
  "sharded_init storage s =
     (case storage of
        None \<Rightarrow> (False, s)
      | Some base \<Rightarrow>
          (True, s\<lparr>sh_rings := (\<lambda>i. if i < NumShards
                     then \<lparr>rg_head = 0, rg_tail = 0,
                           rg_slots = Some (\<lambda>j. base (i * ShardCapacity + j))\<rparr>
                     else sh_rings s i),
                   sh_initialised := True\<rparr>))"

definition shard_of_symbol :: "nat \<Rightarrow> nat" where
  "shard_of_symbol symbol_idx = symbol_idx AND (NumShards - 1)"

definition shard_for_symbol :: "ShardedTickRing \<Rightarrow> nat \<Rightarrow> TickMsg SPSCRing" where
  "shard_for_symbol s symbol_idx = sh_rings s (shard_of_symbol symbol_idx)"

section \<open>Slab layout and the arena\<close>

definition kLOB :: nat where "kLOB = kSymbols * 2 * kLevelsPerSide * 576"
definition kTickRing :: nat where "kTickRing = kTickCapacity * 64"
definition kFeatures :: nat where "kFeatures = kSymbols * 5120"
definition kSignals :: nat where "kSignals = kSymbols * 16"
definition kExecState :: nat where "kExecState = kSymbols * (4096 + 128 + 128)"
definition kTelemetry :: nat where "kTelemetry = kTelemCapacity * 128"
definition kWebSocketControlPlane :: nat where "kWebSocketControlPlane = 1000 * (10 * 1024)"

definition kInfraRaw :: nat where
  "kInfraRaw = kLOB + kTickRing + kFeatures + kSignals + kExecState + kTelemetry
     + kWebSocketControlPlane"

definition kInfraTotal :: nat where
  "kInfraTotal = unat (align_up (of_nat kInfraRaw) kHugePage)"

definition kAIRegion :: nat where "kAIRegion = 64 * 1024 * 1024"
definition kGrandTotal :: nat where "kGrandTotal = kInfraTotal + kAIRegion"

text \<open>The cursor of \<open>Arena::init\<close>: (offset, size) of every slab, in the order they are carved.\<close>

definition slab_layout :: "(nat \<times> nat) list" where
  "slab_layout =
     (let c0 = 0; c1 = c0 + kLOB; c2 = c1 + kTickRing; c3 = c2 + kFeatures;
          c4 = c3 + kSignals; c5 = c4 + kExecState; c6 = c5 + kTelemetry
      in [(c0, kLOB), (c1, kTickRing), (c2, kFeatures), (c3, kSignals), (c4, kExecState),
          (c5, kTelemetry), (c6, kWebSocketControlPlane), (kInfraTotal, kAIRegion)])"

datatype CapacityMode = kFull | kInfrastructureOnly

record Arena =
  ar_base :: "nat option"
  ar_total_size :: nat
  ar_capacity_mode :: CapacityMode
  ar_initialised :: bool
  ar_mlocked :: bool
  ar_ai_region :: "nat option"
  ar_ai_region_size :: nat
  lob_flat :: "nat \<Rightarrow> PriceLevel"
  exec_states :: "nat \<Rightarrow> SymbolExecState"
  tick_ring :: "TickMsg SPSCRing"

text \<open>
  \<open>Arena::init\<close> over the answers of the operating system: \<open>mmap sz\<close> is the mapped
  address or the failure of a request of \<open>sz\<close> bytes, \<open>mlock\<close> whether the pages could be
  locked (builds without \<open>LUV_REQUIRE_MLOCK\<close>).  The zeroed infrastructure region gives the
  zero levels and execution states.
\<close>

definition arena_init :: "(nat \<Rightarrow> nat option) \<Rightarrow> bool \<Rightarrow> Arena \<Rightarrow> bool \<times> Arena" where
  "arena_init mmap mlock a =
     (if ar_base a \<noteq> None then (False, a)
      else if \<not> can_align_up (of_nat kInfraRaw) kHugePage \<or> kGrandTotal = 0 then (False, a)
      else
        (case (case mmap kGrandTotal of
                 Some m \<Rightarrow> Some (m, kGrandTotal, kFull)
               | None \<Rightarrow> (case mmap kInfraTotal of
                           Some m \<Rightarrow> Some (m, kInfraTotal, kInfrastructureOnly)
                         | None \<Rightarrow> None)) of
           None \<Rightarrow> (False, a\<lparr>ar_capacity_mode := kFull\<rparr>)
         | Some (m, sz, mode) \<Rightarrow>
             (True, a\<lparr>ar_base := Some m, ar_total_size := sz, ar_capacity_mode := mode,
                ar_initialised := True, ar_mlocked := mlock,
                ar_ai_region := (if mode = kFull then Some (m + kInfraTotal) else None),
                ar_ai_region_size := (if mode = kFull then kAIRegion else 0),
                lob_flat := (\<lambda>_. zero_level), exec_states := (\<lambda>_. zero_exec_state),
                tick_ring := (tick_ring a)\<lparr>rg_slots := Some (\<lambda>_. empty_tick)\<rparr>\<rparr>)))"

definition arena_teardown :: "Arena \<Rightarrow> Arena" where
  "arena_teardown a =
     (if ar_base a = None then a
      else a\<lparr>ar_base := None, ar_ai_region := None, ar_ai_region_size := 0,
             ar_capacity_mode := kFull, ar_initialised := False\<rparr>)"

text \<open>\<open>Arena::level\<close>: the flat index of (symbol, side, depth).\<close>

definition level_index :: "nat \<Rightarrow> nat \<Rightarrow> nat \<Rightarrow> nat" where
  "level_index symbol side depth = (symbol * 2 + side) * kLevelsPerSide + depth"

definition level :: "Arena \<Rightarrow> nat \<Rightarrow> nat \<Rightarrow> nat \<Rightarrow> PriceLevel" where
  "level a symbol side depth = lob_flat a (level_index symbol side depth)"

definition set_level :: "nat \<Rightarrow> nat \<Rightarrow> nat \<Rightarrow> PriceLevel \<Rightarrow> Arena \<Rightarrow> Arena" where
  "set_level symbol side depth l a =
     a\<lparr>lob_flat := (lob_flat a)(level_index symbol side depth := l)\<rparr>"

section \<open>Interleavings of the two ring users\<close>

text \<open>
  The producer and the consumer run on different threads; each atomic counter access is one
  step, and between \<open>try_claim\<close> and \<open>commit\<close> (\<open>try_peek\<close> and \<open>consume\<close>) the other thread
  may run.  \<open>Holding i\<close>: the thread works on slot \<open>i\<close>.
\<close>

datatype ring_user = Idle | Holding nat

record 'a spsc_state =
  sp_ring :: "'a SPSCRing"
  sp_producer :: ring_user
  sp_consumer :: ring_user

inductive spsc_step :: "nat \<Rightarrow> 'a spsc_state \<Rightarrow> 'a spsc_state \<Rightarrow> bool" for cap where
  claim: "sp_producer s = Idle \<Longrightarrow> try_claim cap (sp_ring s) = Some i \<Longrightarrow>
     spsc_step cap s (s\<lparr>sp_producer := Holding i\<rparr>)"
| fill: "sp_producer s = Holding i \<Longrightarrow>
     spsc_step cap s (s\<lparr>sp_ring := write_slot i x (sp_ring s)\<rparr>)"
| publish: "sp_producer s = Holding i \<Longrightarrow>
     spsc_step cap s (s\<lparr>sp_ring := commit (sp_ring s), sp_producer := Idle\<rparr>)"
| peek: "sp_consumer s = Idle \<Longrightarrow> try_peek cap (sp_ring s) = Some i \<Longrightarrow>
     spsc_step cap s (s\<lparr>sp_consumer := Holding i\<rparr>)"
| release: "sp_consumer s = Holding i \<Longrightarrow>
     spsc_step cap s (s\<lparr>sp_ring := consume (sp_ring s), sp_consumer := Idle\<rparr>)"

inductive spsc_reachable :: "nat \<Rightarrow> 'a spsc_state \<Rightarrow> bool" for cap where
  start: "rg_head r = rg_tail r \<Longrightarrow>
     spsc_reachable cap \<lparr>sp_ring = r, sp_producer = Idle, sp_consumer = Idle\<rparr>"
| step: "spsc_reachable cap s \<Longrightarrow> spsc_step cap s t \<Longrightarrow> spsc_reachable cap t"

section \<open>Alignment\<close>

lemma and_not_mask: "x AND NOT (mask k) = push_bit k (drop_bit k x)"
  for x :: "'a::len word"
  by (rule bit_word_eqI) (auto simp: bit_simps)

lemma unat_push_drop:
  assumes "k < LENGTH('a)"
  shows "unat (push_bit k (drop_bit k (x :: 'a::len word))) = unat x div 2 ^ k * 2 ^ k"
proof -
  have lt: "unat x < 2 ^ LENGTH('a)" by (rule unsigned_less)
  have "unat x div 2 ^ k * 2 ^ k \<le> unat x" by simp
  then have "unat x div 2 ^ k * 2 ^ k < 2 ^ LENGTH('a)" using lt by linarith
  moreover have "unat (push_bit k (drop_bit k x)) =
      take_bit LENGTH('a) (push_bit k (drop_bit k (take_bit LENGTH('a) (unat x))))"
    by (simp only: unsigned_push_bit_eq unsigned_drop_bit_eq)
  ultimately show ?thesis
    using lt by (simp only: take_bit_nat_eq_self push_bit_eq_mult drop_bit_eq_div)
qed

lemma unat_add_pow2_minus_1:
  assumes k: "k < 64" and n: "unat (n::u64) + 2 ^ k \<le> 2 ^ 64"
  shows "unat (n + 2 ^ k - 1) = unat n + (2 ^ k - 1)"
proof -
  have pos: "(0::nat) < 2 ^ k" by simp
  have u: "unat ((2::u64) ^ k) = 2 ^ k" using k by (intro unat_pow2) simp
  then have "(2::u64) ^ k \<noteq> 0" using pos unat_0 by fastforce
  then have "unat ((2::u64) ^ k - 1) = unat ((2::u64) ^ k) - 1" by (rule unat_minus_one)
  then have um: "unat ((2::u64) ^ k - 1) = 2 ^ k - 1" by (simp only: u)
  have "unat n + (2 ^ k - 1) < 2 ^ 64" using n pos by linarith
  then have "unat (n + (2 ^ k - 1)) = unat n + (2 ^ k - 1)"
    by (simp only: unat_word_ariths um) simp
  then show ?thesis by (simp only: add_diff_eq)
qed

lemma align_up_pow2:
  assumes k: "k < 64" and n: "unat (n::u64) + 2 ^ k \<le> 2 ^ 64"
  shows "unat (align_up n (2 ^ k)) = (unat n + (2 ^ k - 1)) div 2 ^ k * 2 ^ k"
proof -
  have "align_up n (2 ^ k) = push_bit k (drop_bit k (n + 2 ^ k - 1))"
    unfolding align_up_def and_not_mask [symmetric] mask_eq_exp_minus_1 by (rule refl)
  moreover have "k < LENGTH(64)" using k by simp
  ultimately show ?thesis
    by (simp only: unat_push_drop unat_add_pow2_minus_1 [OF assms])
qed

section \<open>Level addressing\<close>

lemma level_index_less:
  "symbol < kSymbols \<Longrightarrow> side < 2 \<Longrightarrow> depth < kLevelsPerSide \<Longrightarrow>
   level_index symbol side depth < kLOB div 576"
  by (simp add: level_index_def kLOB_def)

lemma level_index_eq_iff:
  assumes "side < 2" "side' < 2" "depth < kLevelsPerSide" "depth' < kLevelsPerSide"
  shows "level_index symbol side depth = level_index symbol' side' depth' \<longleftrightarrow>
    symbol = symbol' \<and> side = side' \<and> depth = depth'"
proof
  assume eq: "level_index symbol side depth = level_index symbol' side' depth'"
  have "(r * kLevelsPerSide + e) div kLevelsPerSide = r \<and> (r * kLevelsPerSide + e) mod kLevelsPerSide = e"
    if "e < kLevelsPerSide" for r e :: nat
    using that by simp
  then have row: "level_index s d e div kLevelsPerSide = s * 2 + d \<and>
      level_index s d e mod kLevelsPerSide = e" if "e < kLevelsPerSide" for s d e
    unfolding level_index_def using that by blast
  from eq row [of depth symbol side] row [of depth' symbol' side'] assms
  have d: "depth = depth'" and r: "symbol * 2 + side = symbol' * 2 + side'" by auto
  from r assms have "symbol = symbol'" "side = side'" by presburger+
  with d show "symbol = symbol' \<and> side = side' \<and> depth = depth'" by simp
qed simp

lemma level_set_level:
  assumes "side < 2" "side' < 2" "depth < kLevelsPerSide" "depth' < kLevelsPerSide"
  shows "level (set_level symbol side depth l a) symbol' side' depth' =
    (if symbol' = symbol \<and> side' = side \<and> depth' = depth then l else level a symbol' side' depth')"
  using assms by (auto simp: level_def set_level_def level_index_eq_iff)

section \<open>Ring buffers\<close>

definition ring_inv :: "nat \<Rightarrow> 'a SPSCRing \<Rightarrow> bool" where
  "ring_inv cap r \<longleftrightarrow> rg_slots r \<noteq> None \<and> unat (rg_head r - rg_tail r) \<le> cap"

definition ring_contents :: "nat \<Rightarrow> 'a SPSCRing \<Rightarrow> 'a list" where
  "ring_contents cap r =
     map (\<lambda>i. read_slot (unat (rg_tail r + of_nat i) AND (cap - 1)) r)
       [0..<unat (rg_head r - rg_tail r)]"

lemma ring_index:
  assumes "k \<le> 64"
  shows "unat ((t::u64) + of_nat i) AND (2 ^ k - 1) = probe (2 ^ k) (unat t) i"
proof -
  have dvd: "(2::nat) ^ k dvd 2 ^ LENGTH(64)" by (rule le_imp_power_dvd) (use assms in simp)
  have "unat (t + of_nat i) mod 2 ^ k = (unat t + i mod 2 ^ LENGTH(64)) mod 2 ^ LENGTH(64) mod 2 ^ k"
    by (simp only: unat_word_ariths unat_of_nat)
  also have "\<dots> = (unat t + i) mod 2 ^ k"
    by (simp only: mod_mod_cancel [OF dvd] mod_add_right_eq)
  finally show ?thesis by (simp only: and_mask_pow2 probe_def)
qed

lemma word_of_nat_unat_add: "t + of_nat (unat (h - t)) = (h :: 'a::len word)"
  by simp

lemma ring_head_index:
  assumes "k \<le> 64"
  shows "unat (rg_head r) AND (2 ^ k - 1) =
    probe (2 ^ k) (unat (rg_tail r)) (unat (rg_head r - rg_tail r))"
  using ring_index [OF assms, of "rg_tail r" "unat (rg_head r - rg_tail r)"]
  by (simp only: word_of_nat_unat_add)

lemma ring_tail_index:
  assumes "k \<le> 64"
  shows "unat (rg_tail r) AND (2 ^ k - 1) = probe (2 ^ k) (unat (rg_tail r)) 0"
  using ring_index [OF assms, of "rg_tail r" 0] by simp

lemma ring_indices_differ:
  assumes "k \<le> 64" "i < unat (rg_head r - rg_tail r)" "unat (rg_head r - rg_tail r) < 2 ^ k"
  shows "unat (rg_tail r + of_nat i) AND (2 ^ k - 1) \<noteq> unat (rg_head r) AND (2 ^ k - 1)"
proof
  assume "unat (rg_tail r + of_nat i) AND (2 ^ k - 1) = unat (rg_head r) AND (2 ^ k - 1)"
  then have "probe (2 ^ k) (unat (rg_tail r)) i =
      probe (2 ^ k) (unat (rg_tail r)) (unat (rg_head r - rg_tail r))"
    by (simp only: ring_index [OF assms(1)] ring_head_index [OF assms(1)])
  then have "i = unat (rg_head r - rg_tail r)"
    by (rule probe_inj) (use assms in simp_all)
  with assms show False by simp
qed

lemma ring_size_commit:
  "unat (rg_head r - rg_tail r) < 2 ^ k \<Longrightarrow> k < 64 \<Longrightarrow>
   unat (rg_head r + 1 - rg_tail r) = Suc (unat (rg_head r - rg_tail r))"
proof -
  assume "unat (rg_head r - rg_tail r) < 2 ^ k" "k < 64"
  moreover from this have "(2::nat) ^ k \<le> 2 ^ 63" by (intro power_increasing) simp_all
  ultimately have "unat (rg_head r - rg_tail r) < unat (2 ^ 63 :: u64)" by simp
  then have "rg_head r - rg_tail r < 2 ^ 63" by (simp only: word_less_nat_alt)
  then have "unat (rg_head r - rg_tail r + 1) = Suc (unat (rg_head r - rg_tail r))"
    by (rule unat_inc)
  then show ?thesis by (simp add: algebra_simps)
qed

lemma ring_push_contents:
  assumes k: "k < 64" and inv: "ring_inv (2 ^ k) r" and push: "ring_push (2 ^ k) r x = Some r'"
  shows "ring_inv (2 ^ k) r' \<and> ring_contents (2 ^ k) r' = ring_contents (2 ^ k) r @ [x]"
proof -
  let ?n = "unat (rg_head r - rg_tail r)"
  let ?h = "unat (rg_head r) AND (2 ^ k - 1)"
  from push inv have n: "?n < 2 ^ k" and r': "r' = commit (write_slot ?h x r)"
    by (auto simp: ring_push_def try_claim_def ring_inv_def split: if_splits)
  have n': "unat (rg_head r' - rg_tail r') = Suc ?n"
    using ring_size_commit [OF n k] by (simp add: r' commit_def write_slot_def)
  have same: "read_slot (unat (rg_tail r' + of_nat i) AND (2 ^ k - 1)) r' =
      read_slot (unat (rg_tail r + of_nat i) AND (2 ^ k - 1)) r" if "i < ?n" for i
    using ring_indices_differ [of k i r] that n k inv
    by (auto simp: r' commit_def write_slot_def read_slot_def ring_inv_def)
  have "unat (rg_tail r + of_nat ?n) AND (2 ^ k - 1) = ?h" by simp
  then have new: "read_slot (unat (rg_tail r' + of_nat ?n) AND (2 ^ k - 1)) r' = x"
    using inv by (auto simp: r' commit_def write_slot_def read_slot_def ring_inv_def)
  have "ring_contents (2 ^ k) r' = ring_contents (2 ^ k) r @ [x]"
    unfolding ring_contents_def n' using same new by simp
  moreover have "ring_inv (2 ^ k) r'"
    using n n' inv by (auto simp: ring_inv_def r' commit_def write_slot_def)
  ultimately show ?thesis by simp
qed

lemma ring_pop_contents:
  assumes k: "k < 64" and inv: "ring_inv (2 ^ k) r" and pop: "ring_pop (2 ^ k) r = Some (x, r')"
  shows "ring_inv (2 ^ k) r' \<and> ring_contents (2 ^ k) r = x # ring_contents (2 ^ k) r'"
proof -
  let ?n = "unat (rg_head r - rg_tail r)"
  from pop have ne: "rg_head r \<noteq> rg_tail r" and r': "r' = consume r"
    and x: "x = read_slot (unat (rg_tail r) AND (2 ^ k - 1)) r"
    by (auto simp: ring_pop_def try_peek_def split: if_splits)
  from ne have "rg_head r - rg_tail r \<noteq> 0" by simp
  then have n: "?n \<noteq> 0" "unat (rg_head r - rg_tail r - 1) = ?n - 1"
    by (simp only: unat_eq_zero, simp, rule unat_dec)
  then have n': "unat (rg_head r' - rg_tail r') = ?n - 1"
    by (simp add: r' consume_def algebra_simps)
  have "ring_contents (2 ^ k) r =
      x # map (\<lambda>i. read_slot (unat (rg_tail r + of_nat (Suc i)) AND (2 ^ k - 1)) r) [0..<?n - 1]"
    unfolding ring_contents_def x using n(1)
    by (cases ?n) (auto simp: upt_conv_Cons map_Suc_upt [symmetric] comp_def simp del: upt_Suc)
  also have "\<dots> = x # ring_contents (2 ^ k) r'"
    unfolding ring_contents_def n' by (simp add: r' consume_def read_slot_def algebra_simps)
  finally show ?thesis
    using inv n n' by (auto simp: ring_inv_def r' consume_def)
qed

lemma length_ring_contents [simp]:
  "length (ring_contents cap r) = unat (rg_head r - rg_tail r)"
  by (simp add: ring_contents_def)

lemma ring_queue:
  assumes "k < 64"
  shows "bounded_queue (ring_contents (2 ^ k)) (ring_push (2 ^ k)) (ring_pop (2 ^ k))
    (ring_inv (2 ^ k)) (2 ^ k)"
proof
  fix q :: "'a SPSCRing" and x q'
  assume inv: "ring_inv (2 ^ k) q"
  show "ring_push (2 ^ k) q x = None \<longleftrightarrow> length (ring_contents (2 ^ k) q) = 2 ^ k"
    using inv by (auto simp: ring_push_def try_claim_def ring_inv_def)
  show "ring_pop (2 ^ k) q = None \<longleftrightarrow> ring_contents (2 ^ k) q = []"
    using inv by (auto simp: ring_pop_def try_peek_def ring_inv_def ring_contents_def unat_eq_zero)
  show "length (ring_contents (2 ^ k) q) \<le> 2 ^ k"
    using inv by (simp add: ring_inv_def)
  show "ring_push (2 ^ k) q x = Some q' \<Longrightarrow>
      ring_inv (2 ^ k) q' \<and> ring_contents (2 ^ k) q' = ring_contents (2 ^ k) q @ [x]"
    using ring_push_contents [OF assms inv] .
  show "ring_pop (2 ^ k) q = Some (x, q') \<Longrightarrow>
      ring_inv (2 ^ k) q' \<and> ring_contents (2 ^ k) q = x # ring_contents (2 ^ k) q'"
    using ring_pop_contents [OF assms inv] .
qed

interpretation tick: bounded_queue "ring_contents kTickCapacity" "ring_push kTickCapacity"
    "ring_pop kTickCapacity" "ring_inv kTickCapacity" kTickCapacity
  unfolding kTickCapacity_def by (rule ring_queue) simp

interpretation telem: bounded_queue "ring_contents kTelemCapacity" "ring_push kTelemCapacity"
    "ring_pop kTelemCapacity" "ring_inv kTelemCapacity" kTelemCapacity
  unfolding kTelemCapacity_def by (rule ring_queue) simp

interpretation shard: bounded_queue "ring_contents ShardCapacity" "ring_push ShardCapacity"
    "ring_pop ShardCapacity" "ring_inv ShardCapacity" ShardCapacity
  unfolding ShardCapacity_def by (rule ring_queue) simp

section \<open>Properties\<close>

lemma unat_minus_1_u64: "unat (- 1 :: u64) = 18446744073709551615"
  by (simp add: unsigned_minus_1_eq_mask mask_eq_exp_minus_1)

text \<open>
  for a power-of-two alignment that \<open>can_align_up\<close> accepts, \<open>align_up\<close> does not wrap:
  it returns the least multiple of the alignment that is not below its argument.
\<close>

lemma align_up_least:
  assumes k: "k < 64" and ok: "can_align_up n (2 ^ k)"
  shows "2 ^ k dvd unat (align_up n (2 ^ k)) \<and> unat n \<le> unat (align_up n (2 ^ k)) \<and>
    unat (align_up n (2 ^ k)) < unat n + 2 ^ k"
proof -
  have u: "unat ((2::u64) ^ k) = 2 ^ k" using k by (intro unat_pow2) simp
  have "n \<le> (- 1 :: u64) - (2 ^ k - 1)" using ok by (simp only: can_align_up_def)
  then have "unat n \<le> unat ((- 1 :: u64) - (2 ^ k - 1))" by (simp only: word_le_nat_alt)
  also have "\<dots> = unat (- 1 :: u64) - unat ((2::u64) ^ k - 1)"
    by (rule unat_sub) simp
  also have "unat ((2::u64) ^ k - 1) = 2 ^ k - 1"
    using unat_add_pow2_minus_1 [OF k, of 0] k power_increasing [of k 64 "2::nat"] by simp
  finally have n: "unat n + 2 ^ k \<le> 2 ^ 64"
    using k power_increasing [of k 64 "2::nat"] unat_minus_1_u64 by simp
  define q where "q = (unat n + (2 ^ k - 1)) div 2 ^ k"
  define r where "r = (unat n + (2 ^ k - 1)) mod 2 ^ k"
  have "q * 2 ^ k + r = unat n + (2 ^ k - 1)" unfolding q_def r_def by (rule div_mult_mod_eq)
  moreover have "r < 2 ^ k" by (simp add: r_def)
  ultimately show ?thesis
    unfolding align_up_pow2 [OF k n] q_def [symmetric] by auto
qed

lemma align_up_least_example:
  "can_align_up 895901696 (2 ^ 21) \<and> 2 ^ 21 dvd unat (align_up 895901696 (2 ^ 21)) \<and>
   unat (align_up 895901696 (2 ^ 21)) = 897581056"
proof -
  have "can_align_up 895901696 (2 ^ 21)" by (simp add: can_align_up_def)
  moreover from align_up_least [OF _ this] have "2 ^ 21 dvd unat (align_up 895901696 (2 ^ 21))"
    by simp
  ultimately show ?thesis by (simp add: align_up_def)
qed

text \<open>
  the slabs the arena carves are laid out in order without overlap, every one starts at a
  cache-line boundary, the infrastructure slabs end within the huge-page aligned
  infrastructure size, and the model region ends exactly at the grand total.
\<close>

theorem slab_layout_disjoint:
  "successively (\<lambda>(o1, n1) (o2, n2). o1 + n1 \<le> o2) slab_layout \<and>
   list_all (\<lambda>(off, n). off mod unat kCacheLine = 0) slab_layout \<and>
   kInfraRaw \<le> kInfraTotal \<and> kInfraTotal mod unat kHugePage = 0 \<and>
   fst (last slab_layout) + snd (last slab_layout) = kGrandTotal"
  by (simp add: slab_layout_def kLOB_def kTickRing_def kFeatures_def kSignals_def kExecState_def
      kTelemetry_def kWebSocketControlPlane_def kInfraRaw_def kInfraTotal_def kAIRegion_def
      kGrandTotal_def kTickCapacity_def kTelemCapacity_def kCacheLine_def kHugePage_def
      align_up_def)

text \<open>
  the flat price-level index of valid (symbol, side, depth) coordinates stays inside the
  order-book slab, and different coordinates never address the same level.
\<close>

theorem level_addressing:
  assumes "symbol < kSymbols" "side < 2" "depth < kLevelsPerSide"
    and "symbol' < kSymbols" "side' < 2" "depth' < kLevelsPerSide"
  shows "level_index symbol side depth < kLOB div 576 \<and>
    (level_index symbol side depth = level_index symbol' side' depth' \<longleftrightarrow>
      symbol = symbol' \<and> side = side' \<and> depth = depth')"
  using level_index_less [OF assms(1-3)] level_index_eq_iff [OF assms(2,5,3,6)] by blast

theorem level_addressing_example:
  "level_index 511 1 1023 < kLOB div 576 \<and> level_index 511 1 1023 \<noteq> level_index 511 0 1023"
  using level_addressing [of 511 1 1023 511 0 1023] by simp

text \<open>
  C23: the tick ring is a bounded first-in first-out queue of four million ticks over free-running
  64-bit counters: a push fails exactly when the ring is full and otherwise appends, a pop
  fails exactly when it is empty and otherwise takes the oldest tick, and both keep the
  ring's invariant, also when a counter wraps around.
\<close>

theorem tick_ring_fifo:
  assumes "ring_inv kTickCapacity r"
  shows "(ring_push kTickCapacity r x = None \<longleftrightarrow> length (ring_contents kTickCapacity r) = kTickCapacity) \<and>
    (\<forall>r'. ring_push kTickCapacity r x = Some r' \<longrightarrow> ring_inv kTickCapacity r' \<and>
       ring_contents kTickCapacity r' = ring_contents kTickCapacity r @ [x]) \<and>
    (ring_pop kTickCapacity r = None \<longleftrightarrow> ring_contents kTickCapacity r = []) \<and>
    (\<forall>y r'. ring_pop kTickCapacity r = Some (y, r') \<longrightarrow> ring_inv kTickCapacity r' \<and>
       ring_contents kTickCapacity r = y # ring_contents kTickCapacity r')"
  using tick.push_full [OF assms] tick.push_some [OF assms] tick.pop_empty [OF assms]
    tick.pop_some [OF assms] by blast

theorem tick_ring_fifo_witness:
  "let r = \<lparr>rg_head = 0, rg_tail = - 1, rg_slots = Some (\<lambda>i. i + 7 :: nat)\<rparr> in
   ring_inv kTickCapacity r \<and> ring_contents kTickCapacity r = [4194310] \<and>
   (\<exists>r'. ring_push kTickCapacity r 5 = Some r' \<and> ring_contents kTickCapacity r' = [4194310, 5])"
proof -
  define r where "r = \<lparr>rg_head = 0, rg_tail = - 1 :: u64, rg_slots = Some (\<lambda>i. i + 7 :: nat)\<rparr>"
  have inv: "ring_inv kTickCapacity r" by (simp add: r_def ring_inv_def kTickCapacity_def)
  have c: "ring_contents kTickCapacity r = [4194310]"
    using and_mask_pow2 [of 18446744073709551615 22]
    by (simp add: r_def ring_contents_def kTickCapacity_def read_slot_def unat_minus_1_u64)
  have "ring_push kTickCapacity r 5 \<noteq> None"
    using tick_ring_fifo [OF inv, of 5] arg_cong [OF c, of length]
    by (simp add: kTickCapacity_def)
  then show ?thesis
    using tick_ring_fifo [OF inv, of 5] c inv unfolding r_def [symmetric] Let_def by auto
qed

text \<open>The invariant of the interleaved ring users, for capacity \<open>2 ^ k\<close>.\<close>

definition spsc_inv :: "nat \<Rightarrow> 'a spsc_state \<Rightarrow> bool" where
  "spsc_inv k s \<longleftrightarrow>
     unat (rg_head (sp_ring s) - rg_tail (sp_ring s)) \<le> 2 ^ k \<and>
     (\<forall>i. sp_producer s = Holding i \<longrightarrow>
        i = unat (rg_head (sp_ring s)) AND (2 ^ k - 1) \<and>
        unat (rg_head (sp_ring s) - rg_tail (sp_ring s)) < 2 ^ k) \<and>
     (\<forall>i. sp_consumer s = Holding i \<longrightarrow>
        i = unat (rg_tail (sp_ring s)) AND (2 ^ k - 1) \<and>
        0 < unat (rg_head (sp_ring s) - rg_tail (sp_ring s)))"

lemma ring_size_consume:
  "0 < unat (rg_head r - rg_tail r) \<Longrightarrow>
   unat (rg_head r - (rg_tail r + 1)) = unat (rg_head r - rg_tail r) - 1"
proof -
  assume "0 < unat (rg_head r - rg_tail r)"
  then have "rg_head r - rg_tail r \<noteq> 0" by auto
  then have "unat (rg_head r - rg_tail r - 1) = unat (rg_head r - rg_tail r) - 1" by (rule unat_dec)
  then show ?thesis by (simp add: algebra_simps)
qed

lemma spsc_step_inv:
  assumes "spsc_step (2 ^ k) s t" "k < 64" "spsc_inv k s"
  shows "spsc_inv k t"
  using assms
proof (induction rule: spsc_step.induct)
  case (claim s i)
  then show ?case by (auto simp: spsc_inv_def try_claim_def split: if_splits)
next
  case (fill s i x)
  then show ?case by (auto simp: spsc_inv_def write_slot_def)
next
  case (publish s i)
  then show ?case
    using ring_size_commit [of "sp_ring s" k] by (auto simp: spsc_inv_def commit_def)
next
  case (peek s i)
  then show ?case by (auto simp: spsc_inv_def try_peek_def unat_gt_0 split: if_splits)
next
  case (release s i)
  then show ?case
    using ring_size_consume [of "sp_ring s"] by (auto simp: spsc_inv_def consume_def)
qed

lemma spsc_reachable_inv: "spsc_reachable (2 ^ k) s \<Longrightarrow> k < 64 \<Longrightarrow> spsc_inv k s"
proof (induction rule: spsc_reachable.induct)
  case (start r)
  then show ?case by (simp add: spsc_inv_def)
next
  case (step s t)
  then show ?case by (blast intro: spsc_step_inv)
qed

text \<open>
  C21: however the producer and the consumer of a ring of a power-of-two capacity interleave, the ring
  never holds more than its capacity, the producer only ever holds a claimed slot while the ring is
  not full and the consumer one while it is not empty, and the slot the producer has claimed is never
  the slot the consumer is reading, so the two threads never race on a slot.
\<close>

theorem spsc_no_race:
  assumes "k < 64" "spsc_reachable (2 ^ k) s"
  shows "unat (ring_size (sp_ring s)) \<le> 2 ^ k \<and>
    (\<forall>i. sp_producer s = Holding i \<longrightarrow> i < 2 ^ k \<and> unat (ring_size (sp_ring s)) < 2 ^ k) \<and>
    (\<forall>j. sp_consumer s = Holding j \<longrightarrow> j < 2 ^ k \<and> 0 < unat (ring_size (sp_ring s))) \<and>
    (\<forall>i j. sp_producer s = Holding i \<and> sp_consumer s = Holding j \<longrightarrow> i \<noteq> j)"
proof -
  have inv: "spsc_inv k s" using assms(2,1) by (rule spsc_reachable_inv)
  have lt: "n AND (2 ^ k - 1) < 2 ^ k" for n :: nat unfolding and_mask_pow2 by simp
  have "i \<noteq> j" if "sp_producer s = Holding i" "sp_consumer s = Holding j" for i j
  proof -
    have "i = unat (rg_head (sp_ring s)) AND (2 ^ k - 1)"
      "j = unat (rg_tail (sp_ring s) + of_nat 0) AND (2 ^ k - 1)"
      "unat (rg_head (sp_ring s) - rg_tail (sp_ring s)) < 2 ^ k"
      "0 < unat (rg_head (sp_ring s) - rg_tail (sp_ring s))"
      using inv that by (simp_all add: spsc_inv_def)
    then show ?thesis using ring_indices_differ [of k 0 "sp_ring s"] assms(1) by auto
  qed
  then show ?thesis using inv lt by (auto simp: spsc_inv_def ring_size_def)
qed

theorem spsc_no_race_witness:
  "\<exists>s :: nat spsc_state. spsc_reachable (2 ^ 1) s \<and> sp_producer s = Holding 1 \<and>
     sp_consumer s = Holding 0 \<and> (1::nat) \<noteq> 0"
proof -
  define r where "r = \<lparr>rg_head = 0, rg_tail = 0 :: u64, rg_slots = Some (\<lambda>_. 0 :: nat)\<rparr>"
  define s0 where "s0 = \<lparr>sp_ring = r, sp_producer = Idle, sp_consumer = Idle\<rparr>"
  have "spsc_reachable (2 ^ 1) s0" unfolding s0_def by (rule spsc_reachable.start) (simp add: r_def)
  then have "spsc_reachable (2 ^ 1) (s0\<lparr>sp_producer := Holding 0\<rparr>)"
    by (rule spsc_reachable.step, intro spsc_step.claim) (simp_all add: s0_def r_def try_claim_def)
  then have "spsc_reachable (2 ^ 1) (s0\<lparr>sp_producer := Idle, sp_ring := commit r\<rparr>)"
    by (rule spsc_reachable.step)
      (use spsc_step.publish [of "s0\<lparr>sp_producer := Holding 0\<rparr>" 0 "2 ^ 1"] in
        \<open>simp add: s0_def\<close>)
  then have "spsc_reachable (2 ^ 1) (s0\<lparr>sp_producer := Holding 1, sp_ring := commit r\<rparr>)"
    by (rule spsc_reachable.step)
      (use spsc_step.claim [of "s0\<lparr>sp_producer := Idle, sp_ring := commit r\<rparr>" "2 ^ 1" 1] in
        \<open>simp add: s0_def r_def commit_def try_claim_def\<close>)
  then have "spsc_reachable (2 ^ 1)
      (s0\<lparr>sp_producer := Holding 1, sp_ring := commit r, sp_consumer := Holding 0\<rparr>)"
    by (rule spsc_reachable.step)
      (use spsc_step.peek [of "s0\<lparr>sp_producer := Holding 1, sp_ring := commit r\<rparr>" "2 ^ 1" 0] in
        \<open>simp add: s0_def r_def commit_def try_peek_def\<close>)
  moreover from spsc_no_race [OF _ this] have "(1::nat) \<noteq> 0" by simp
  ultimately show ?thesis by fastforce
qed

end
