(* ===== verification/Order_Ref_Map.thy ===== *)
theory Order_Ref_Map
  imports Arena
begin

text \<open>
  \<open>OrderRefMap\<close> of \<open>luv_lob.hpp\<close>: the open-addressing table from order reference numbers to
  order locations, with linear probing bounded by \<open>kMaxProbeLength\<close> and tombstones for
  deleted entries.  The backing arrays are functions from the slot index; a pointer to an
  entry is its slot.  The theory shows that the table implements a finite map.
\<close>

section \<open>The table\<close>

record OrderLocation =
  loc_symbol_idx :: nat
  loc_side :: nat
  loc_level_idx :: nat
  loc_slot_idx :: int

definition kCapacity :: nat where
  "kCapacity = kSymbols * kLevelsPerSide * kMaxOrdersPerLevel"

definition kMask :: nat where
  "kMask = kCapacity - 1"

definition kMaxProbeLength :: nat where
  "kMaxProbeLength = 256"

definition kMaxEntries :: nat where
  "kMaxEntries = (kCapacity * 80) div 100"

definition kEmptyKey :: u64 where
  "kEmptyKey = 0"

definition kTombstone :: u64 where
  "kTombstone = NOT 0"

text \<open>\<open>kShift = 64 - __builtin_ctz(kCapacity)\<close> and the capacity is the 23rd power of two.\<close>

definition order_hash :: "u64 \<Rightarrow> nat" where
  "order_hash key =
     (let key1 = key XOR drop_bit 30 key;
          key2 = key1 * 0xBF58476D1CE4E5B9;
          key3 = key2 XOR drop_bit 27 key2;
          key4 = key3 * 0x94D049BB133111EB;
          key5 = key4 XOR drop_bit 31 key4
      in unat (drop_bit 41 (key5 * 0x9E3779B97F4A7C15)))"

text \<open>\<open>om_keys\<close> is \<open>None\<close> while the table is not allocated (\<open>_keys == nullptr\<close>).\<close>

record OrderRefMap =
  om_keys :: "(nat \<Rightarrow> u64) option"
  om_values :: "nat \<Rightarrow> OrderLocation"
  om_count :: u32

definition om_key :: "OrderRefMap \<Rightarrow> nat \<Rightarrow> u64" where
  "om_key m i = the (om_keys m) i"

definition om_put :: "nat \<Rightarrow> u64 \<Rightarrow> OrderLocation \<Rightarrow> OrderRefMap \<Rightarrow> OrderRefMap" where
  "om_put i k v m = m\<lparr>om_keys := map_option (\<lambda>f. f(i := k)) (om_keys m),
     om_values := (om_values m)(i := v), om_count := om_count m + 1\<rparr>"

definition om_set_value :: "nat \<Rightarrow> OrderLocation \<Rightarrow> OrderRefMap \<Rightarrow> OrderRefMap" where
  "om_set_value i v m = m\<lparr>om_values := (om_values m)(i := v)\<rparr>"

definition om_clear :: "OrderRefMap \<Rightarrow> OrderRefMap" where
  "om_clear m = m\<lparr>om_keys := map_option (\<lambda>_ _. kEmptyKey) (om_keys m), om_count := 0\<rparr>"

text \<open>\<open>init\<close>, with whether the operating system granted the mapping; fresh pages are zero.\<close>

definition om_init :: "bool \<Rightarrow> OrderRefMap \<Rightarrow> bool \<times> OrderRefMap" where
  "om_init mapped m =
     (if om_keys m \<noteq> None then (False, m)
      else if \<not> mapped then (False, m)
      else (True, om_clear (m\<lparr>om_keys := Some (\<lambda>_. 0)\<rparr>)))"

definition om_teardown :: "OrderRefMap \<Rightarrow> OrderRefMap" where
  "om_teardown m = (if om_keys m = None then m else m\<lparr>om_keys := None, om_count := 0\<rparr>)"

definition valid_entry :: "u64 \<Rightarrow> OrderLocation \<Rightarrow> bool" where
  "valid_entry order_ref loc \<longleftrightarrow>
     \<not> (order_ref = kEmptyKey \<or> order_ref = kTombstone \<or>
        loc_symbol_idx loc \<ge> kSymbols \<or> loc_side loc > 1 \<or>
        loc_level_idx loc \<ge> kLevelsPerSide \<or> loc_slot_idx loc < 0 \<or>
        loc_slot_idx loc \<ge> int kMaxOrdersPerLevel)"

text \<open>
  The probe loop of \<open>insert\<close>; the first argument is the number of probes left, \<open>tomb\<close> the
  first tombstone passed.
\<close>

fun insert_loop ::
    "nat \<Rightarrow> u64 \<Rightarrow> OrderLocation \<Rightarrow> nat \<Rightarrow> nat option \<Rightarrow> OrderRefMap \<Rightarrow> bool \<times> OrderRefMap" where
  "insert_loop 0 order_ref loc slot tomb m =
     (case tomb of
        None \<Rightarrow> (False, m)
      | Some t \<Rightarrow> if unat (om_count m) < kMaxEntries then (True, om_put t order_ref loc m)
                  else (False, m))"
| "insert_loop (Suc n) order_ref loc slot tomb m =
     (if om_key m slot = order_ref then (True, om_set_value slot loc m)
      else if om_key m slot = kTombstone \<and> tomb = None then
        insert_loop n order_ref loc ((slot + 1) AND kMask) (Some slot) m
      else if om_key m slot = kEmptyKey then
        (if unat (om_count m) \<ge> kMaxEntries then (False, m)
         else (True, om_put (case tomb of None \<Rightarrow> slot | Some t \<Rightarrow> t) order_ref loc m))
      else insert_loop n order_ref loc ((slot + 1) AND kMask) tomb m)"

definition om_insert :: "OrderRefMap \<Rightarrow> u64 \<Rightarrow> OrderLocation \<Rightarrow> bool \<times> OrderRefMap" where
  "om_insert m order_ref loc =
     (if om_keys m = None \<or> \<not> valid_entry order_ref loc then (False, m)
      else insert_loop kMaxProbeLength order_ref loc (order_hash order_ref) None m)"

fun can_insert_loop :: "nat \<Rightarrow> u64 \<Rightarrow> nat \<Rightarrow> OrderRefMap \<Rightarrow> bool" where
  "can_insert_loop 0 order_ref slot m = False"
| "can_insert_loop (Suc n) order_ref slot m =
     (if om_key m slot = order_ref then False
      else if om_key m slot = kEmptyKey then True
      else can_insert_loop n order_ref ((slot + 1) AND kMask) m)"

definition om_can_insert :: "OrderRefMap \<Rightarrow> u64 \<Rightarrow> bool" where
  "om_can_insert m order_ref =
     (if om_keys m = None \<or> order_ref = kEmptyKey \<or> order_ref = kTombstone then False
      else if unat (om_count m) \<ge> kMaxEntries then False
      else can_insert_loop kMaxProbeLength order_ref (order_hash order_ref) m)"

text \<open>The probe loop \<open>lookup\<close> and \<open>remove\<close> share: the slot that holds the key, if it is found.\<close>

fun find_loop :: "nat \<Rightarrow> u64 \<Rightarrow> nat \<Rightarrow> OrderRefMap \<Rightarrow> nat option" where
  "find_loop 0 order_ref slot m = None"
| "find_loop (Suc n) order_ref slot m =
     (if om_key m slot = order_ref then Some slot
      else if om_key m slot = kEmptyKey then None
      else find_loop n order_ref ((slot + 1) AND kMask) m)"

definition om_find :: "OrderRefMap \<Rightarrow> u64 \<Rightarrow> nat option" where
  "om_find m order_ref =
     (if om_keys m = None \<or> order_ref = kEmptyKey \<or> order_ref = kTombstone then None
      else find_loop kMaxProbeLength order_ref (order_hash order_ref) m)"

definition om_lookup :: "OrderRefMap \<Rightarrow> u64 \<Rightarrow> OrderLocation option" where
  "om_lookup m order_ref = map_option (om_values m) (om_find m order_ref)"

definition om_remove :: "OrderRefMap \<Rightarrow> u64 \<Rightarrow> OrderRefMap" where
  "om_remove m order_ref =
     (case om_find m order_ref of
        None \<Rightarrow> m
      | Some slot \<Rightarrow> m\<lparr>om_keys := map_option (\<lambda>f. f(slot := kTombstone)) (om_keys m),
                       om_count := om_count m - 1\<rparr>)"

text \<open>\<open>fixup_levels\<close>: one pass over all slots.\<close>

definition fixup_levels :: "nat \<Rightarrow> nat \<Rightarrow> nat \<Rightarrow> int \<Rightarrow> OrderRefMap \<Rightarrow> OrderRefMap" where
  "fixup_levels symbol_idx side from_level direction m =
     m\<lparr>om_values := (\<lambda>i.
        let loc = om_values m i in
        if i < kCapacity \<and> om_key m i \<noteq> kEmptyKey \<and> om_key m i \<noteq> kTombstone \<and>
           loc_symbol_idx loc = symbol_idx \<and> loc_side loc = side \<and> loc_level_idx loc \<ge> from_level
        then loc\<lparr>loc_level_idx := nat ((int (loc_level_idx loc) + direction) mod 2 ^ 16)\<rparr>
        else loc)\<rparr>"

section \<open>Invariant\<close>

definition real_key :: "u64 \<Rightarrow> bool" where
  "real_key k \<longleftrightarrow> k \<noteq> kEmptyKey \<and> k \<noteq> kTombstone"

definition om_used :: "OrderRefMap \<Rightarrow> nat set" where
  "om_used m = {i. i < kCapacity \<and> real_key (om_key m i)}"

definition om_inv :: "OrderRefMap \<Rightarrow> bool" where
  "om_inv m \<longleftrightarrow> om_keys m \<noteq> None \<and>
     (\<forall>i\<in>om_used m. \<exists>p<kMaxProbeLength. i = probe kCapacity (order_hash (om_key m i)) p \<and>
        (\<forall>q<p. om_key m (probe kCapacity (order_hash (om_key m i)) q) \<noteq> kEmptyKey)) \<and>
     inj_on (om_key m) (om_used m) \<and>
     unat (om_count m) = card (om_used m) \<and> card (om_used m) \<le> kMaxEntries"

lemma kCapacity_pow2: "kCapacity = 2 ^ 23"
  by (simp add: kCapacity_def)

lemma kMask_mod: "x AND kMask = x mod kCapacity"
  unfolding kMask_def kCapacity_pow2 by (rule and_mask_pow2)

lemma kCapacity_pos: "0 < kCapacity"
  by (simp add: kCapacity_def)

lemma probe_bound: "kMaxProbeLength < kCapacity"
  by (simp add: kCapacity_def kMaxProbeLength_def)

lemma kEmpty_neq_kTombstone: "kEmptyKey \<noteq> kTombstone"
  by (simp add: kEmptyKey_def kTombstone_def)

lemma order_hash_less: "order_hash k < kCapacity"
proof -
  have "unat (drop_bit 41 (x :: u64)) < 2 ^ 23" for x
  proof -
    have "unat (drop_bit 41 x) = (unat x mod 2 ^ 64) div 2 ^ 41"
      by (simp only: unsigned_drop_bit_eq) (simp add: drop_bit_eq_div take_bit_eq_mod)
    moreover have "unat x mod 2 ^ 64 < 2 ^ 23 * 2 ^ 41" by simp
    ultimately show ?thesis by (simp only: less_mult_imp_div_less)
  qed
  then show ?thesis by (simp add: order_hash_def Let_def kCapacity_pow2)
qed

abbreviation (input) om_probe :: "u64 \<Rightarrow> nat \<Rightarrow> nat" where
  "om_probe k p \<equiv> probe kCapacity (order_hash k) p"

lemma om_probe_less: "om_probe k p < kCapacity"
  by (rule probe_less) (rule kCapacity_pos)

lemma om_probe_0: "om_probe k 0 = order_hash k"
  by (rule probe_0) (rule order_hash_less)

lemma om_probe_Suc: "(om_probe k p + 1) AND kMask = om_probe k (Suc p)"
  by (simp only: kMask_mod probe_Suc)

lemma om_probe_inj: "om_probe k p = om_probe k q \<Longrightarrow> p < kMaxProbeLength \<Longrightarrow> q < kMaxProbeLength \<Longrightarrow> p = q"
  using probe_inj [of kCapacity "order_hash k" p q] probe_bound by simp

lemma finite_om_used [simp]: "finite (om_used m)"
  by (simp add: om_used_def)

section \<open>Lookup\<close>

text \<open>The loop as a search for the first probe that hits the key or an empty slot.\<close>

definition stops_at :: "OrderRefMap \<Rightarrow> u64 \<Rightarrow> nat \<Rightarrow> bool" where
  "stops_at m k p \<longleftrightarrow> om_key m (om_probe k p) = k \<or> om_key m (om_probe k p) = kEmptyKey"

lemma find_loop_eq:
  "find_loop n k (om_probe k s) m =
   (case find (stops_at m k) [s..<s + n] of
      None \<Rightarrow> None
    | Some q \<Rightarrow> if om_key m (om_probe k q) = k then Some (om_probe k q) else None)"
proof (induction n arbitrary: s)
  case 0
  then show ?case by simp
next
  case (Suc n)
  then show ?case
    by (simp only: find_upt_step find_loop.simps om_probe_Suc) (simp add: stops_at_def)
qed

lemma find_loop_Some:
  "find_loop n k (order_hash k) m = Some i \<longleftrightarrow>
   (\<exists>q<n. i = om_probe k q \<and> om_key m i = k \<and> (\<forall>r<q. \<not> stops_at m k r))"
proof (cases "find (stops_at m k) [0..<n]")
  case None
  then have none: "\<not> stops_at m k r" if "r < n" for r using that by (simp add: find_upt_None)
  from None have "find_loop n k (order_hash k) m = None"
    using find_loop_eq [of n k 0 m] by (simp add: om_probe_0)
  moreover have "\<not> (\<exists>q<n. i = om_probe k q \<and> om_key m i = k)"
    using none unfolding stops_at_def by blast
  ultimately have "find_loop n k (order_hash k) m \<noteq> Some i"
    "\<not> (\<exists>q<n. i = om_probe k q \<and> om_key m i = k \<and> (\<forall>r<q. \<not> stops_at m k r))"
    by (simp, blast)
  then show ?thesis by (simp only: simp_thms)
next
  case (Some q)
  then have q: "q < n" "stops_at m k q" "\<And>r. r < q \<Longrightarrow> \<not> stops_at m k r"
    by (simp_all add: find_upt_Some)
  have eq: "find_loop n k (order_hash k) m =
      (if om_key m (om_probe k q) = k then Some (om_probe k q) else None)"
    using find_loop_eq [of n k 0 m] Some by (simp add: om_probe_0)
  have uniq: "q' = q" if "om_key m (om_probe k q') = k" "\<forall>r<q'. \<not> stops_at m k r" for q'
  proof (rule linorder_cases [of q' q])
    assume "q' < q"
    then show ?thesis using q(3) [of q'] that(1) by (simp add: stops_at_def)
  next
    assume "q < q'"
    then show ?thesis using q(2) that(2) by blast
  qed
  show ?thesis
  proof
    assume "find_loop n k (order_hash k) m = Some i"
    then have "om_key m (om_probe k q) = k" "i = om_probe k q" using eq by (auto split: if_splits)
    with q show "\<exists>q<n. i = om_probe k q \<and> om_key m i = k \<and> (\<forall>r<q. \<not> stops_at m k r)" by blast
  next
    assume "\<exists>q<n. i = om_probe k q \<and> om_key m i = k \<and> (\<forall>r<q. \<not> stops_at m k r)"
    then obtain q' where "i = om_probe k q'" "om_key m (om_probe k q') = k" "\<forall>r<q'. \<not> stops_at m k r"
      by blast
    with uniq [of q'] eq show "find_loop n k (order_hash k) m = Some i" by simp
  qed
qed

lemma om_used_D:
  assumes "om_inv m" "i \<in> om_used m"
  obtains p where "p < kMaxProbeLength" "i = om_probe (om_key m i) p"
    "\<And>q. q < p \<Longrightarrow> om_key m (om_probe (om_key m i) q) \<noteq> kEmptyKey"
  using assms unfolding om_inv_def by blast

lemma om_find_iff:
  assumes inv: "om_inv m"
  shows "om_find m k = Some i \<longleftrightarrow> i \<in> om_used m \<and> om_key m i = k"
proof
  assume "om_find m k = Some i"
  then have r: "real_key k" and "find_loop kMaxProbeLength k (order_hash k) m = Some i"
    by (auto simp: om_find_def real_key_def split: if_splits)
  then show "i \<in> om_used m \<and> om_key m i = k"
    unfolding find_loop_Some using om_probe_less r by (auto simp: om_used_def)
next
  assume i: "i \<in> om_used m \<and> om_key m i = k"
  then have r: "real_key k" by (auto simp: om_used_def)
  from inv i obtain p where p: "p < kMaxProbeLength" "i = om_probe k p"
    "\<And>q. q < p \<Longrightarrow> om_key m (om_probe k q) \<noteq> kEmptyKey"
    by (metis om_used_D)
  have "om_key m (om_probe k q) \<noteq> k" if "q < p" for q
  proof
    assume "om_key m (om_probe k q) = k"
    then have "om_probe k q \<in> om_used m" using r om_probe_less by (simp add: om_used_def)
    then have "om_probe k q = i"
      using inv i \<open>om_key m (om_probe k q) = k\<close> by (auto simp: om_inv_def dest: inj_onD)
    then show False using om_probe_inj [of k q p] p that by simp
  qed
  then have "find_loop kMaxProbeLength k (order_hash k) m = Some i"
    unfolding find_loop_Some stops_at_def using p i by auto
  then show "om_find m k = Some i"
    using r inv by (simp add: om_find_def real_key_def om_inv_def)
qed

lemma om_find_None:
  assumes inv: "om_inv m"
  shows "om_find m k = None \<longleftrightarrow> (\<forall>i\<in>om_used m. om_key m i \<noteq> k)"
  using om_find_iff [OF inv, of k] by (metis not_None_eq)

section \<open>Insertion\<close>

text \<open>
  What \<open>insert_loop\<close> does, for a key that is not reserved: it overwrites the entry of a key
  that is present, it claims a free slot at the end of a probe path without empty slots for a
  key that is absent, or it leaves the table alone.
\<close>

definition claims_slot :: "OrderRefMap \<Rightarrow> u64 \<Rightarrow> nat \<Rightarrow> bool" where
  "claims_slot m k t \<longleftrightarrow> t < kMaxProbeLength \<and> \<not> real_key (om_key m (om_probe k t)) \<and>
     (\<forall>r<t. om_key m (om_probe k r) \<noteq> kEmptyKey) \<and> (\<forall>i\<in>om_used m. om_key m i \<noteq> k)"

lemma absent_if_passed:
  assumes inv: "om_inv m" and k: "real_key k"
    and path: "\<And>r. r < q \<Longrightarrow> om_key m (om_probe k r) \<noteq> k"
    and stop: "q = kMaxProbeLength \<or> om_key m (om_probe k q) = kEmptyKey"
  shows "\<forall>i\<in>om_used m. om_key m i \<noteq> k"
proof
  fix i assume i: "i \<in> om_used m"
  show "om_key m i \<noteq> k"
  proof
    assume eq: "om_key m i = k"
    obtain p where p: "p < kMaxProbeLength" "i = om_probe k p"
      "\<And>r. r < p \<Longrightarrow> om_key m (om_probe k r) \<noteq> kEmptyKey"
      using om_used_D [OF inv i] unfolding eq by blast
    from eq p(2) path have "\<not> p < q" by auto
    with p(1) stop have "om_key m (om_probe k q) = kEmptyKey" "q \<le> p" by auto
    with p(2,3) eq k show False by (cases "q = p") (auto simp: real_key_def)
  qed
qed

lemma insert_loop_cases:
  assumes inv: "om_inv m" and k: "real_key k"
    and n: "n + s = kMaxProbeLength"
    and path: "\<And>r. r < s \<Longrightarrow> om_key m (om_probe k r) \<noteq> k \<and> om_key m (om_probe k r) \<noteq> kEmptyKey"
    and tomb: "\<And>t. tomb = Some t \<Longrightarrow> \<exists>r < s. t = om_probe k r \<and> om_key m t = kTombstone"
    and res: "insert_loop n k loc (om_probe k s) tomb m = (b, m')"
  shows "b \<and> (\<exists>i\<in>om_used m. om_key m i = k \<and> m' = om_set_value i loc m) \<or>
    b \<and> unat (om_count m) < kMaxEntries \<and> (\<exists>t. claims_slot m k t \<and> m' = om_put (om_probe k t) k loc m) \<or>
    \<not> b \<and> m' = m"
  using n path tomb res
proof (induction n arbitrary: s tomb)
  case 0
  show ?case
  proof (cases tomb)
    case None
    with 0 show ?thesis by simp
  next
    case (Some t)
    with 0 obtain r where r: "r < s" "t = om_probe k r" "om_key m t = kTombstone" by blast
    have "claims_slot m k r"
      unfolding claims_slot_def
      using r 0 absent_if_passed [OF inv k, of s] by (auto simp: real_key_def)
    with 0 Some r show ?thesis by (auto split: if_splits)
  qed
next
  case (Suc n)
  let ?key = "om_key m (om_probe k s)"
  consider (hit) "?key = k" | (grave) "?key \<noteq> k" "?key = kTombstone" "tomb = None"
    | (stop) "?key \<noteq> k" "?key = kEmptyKey"
    | (pass) "?key \<noteq> k" "?key \<noteq> kEmptyKey" "\<not> (?key = kTombstone \<and> tomb = None)"
    by blast
  then show ?case
  proof cases
    case hit
    then have "om_probe k s \<in> om_used m" "b" "m' = om_set_value (om_probe k s) loc m"
      using Suc.prems(4) k om_probe_less by (simp_all add: om_used_def)
    with hit show ?thesis by blast
  next
    case grave
    then have "insert_loop n k loc (om_probe k (Suc s)) (Some (om_probe k s)) m = (b, m')"
      using Suc.prems(4) by (simp only: insert_loop.simps om_probe_Suc if_False if_True simp_thms)
    with grave Suc.prems show ?thesis
      by (intro Suc.IH [of "Suc s" "Some (om_probe k s)"])
        (auto simp: less_Suc_eq kEmpty_neq_kTombstone kEmpty_neq_kTombstone [symmetric])
  next
    case stop
    have absent: "\<forall>i\<in>om_used m. om_key m i \<noteq> k"
      using absent_if_passed [OF inv k, of s] Suc.prems(2) stop by blast
    have put: "b \<and> unat (om_count m) < kMaxEntries \<and>
        m' = om_put (case tomb of None \<Rightarrow> om_probe k s | Some t \<Rightarrow> t) k loc m \<or> \<not> b \<and> m' = m"
      using Suc.prems(4) stop kEmpty_neq_kTombstone by (auto split: if_splits)
    show ?thesis
    proof (cases tomb)
      case None
      have "claims_slot m k s"
        unfolding claims_slot_def using stop Suc.prems(1,2) absent by (auto simp: real_key_def)
      with put None show ?thesis by auto
    next
      case (Some t)
      with Suc.prems(3) obtain r where r: "r < s" "t = om_probe k r" "om_key m t = kTombstone" by blast
      then have "claims_slot m k r"
        unfolding claims_slot_def using Suc.prems(1,2) absent by (auto simp: real_key_def)
      with put Some r show ?thesis by auto
    qed
  next
    case pass
    then have "insert_loop n k loc (om_probe k (Suc s)) tomb m = (b, m')"
      using Suc.prems(4) by (simp only: insert_loop.simps om_probe_Suc if_False simp_thms)
    with pass Suc.prems show ?thesis
      by (intro Suc.IH [of "Suc s" tomb]) (auto simp: less_Suc_eq)
  qed
qed

lemma om_key_put: "om_keys m \<noteq> None \<Longrightarrow> om_key (om_put i k v m) = (om_key m)(i := k)"
  by (auto simp: om_key_def om_put_def)

lemma om_values_put [simp]: "om_values (om_put i k v m) = (om_values m)(i := v)"
  by (simp add: om_put_def)

lemma om_values_set_value [simp]: "om_values (om_set_value i v m) = (om_values m)(i := v)"
  by (simp add: om_set_value_def)

lemma om_used_put:
  "om_keys m \<noteq> None \<Longrightarrow> i < kCapacity \<Longrightarrow> real_key k \<Longrightarrow> om_used (om_put i k v m) = insert i (om_used m)"
  by (auto simp: om_used_def om_key_put)

lemma om_key_set_value [simp]: "om_key (om_set_value i v m) = om_key m"
  by (simp add: om_key_def [abs_def] om_set_value_def)

lemma om_used_set_value [simp]: "om_used (om_set_value i v m) = om_used m"
  by (simp add: om_used_def)

lemma om_inv_set_value [simp]: "om_inv (om_set_value i v m) = om_inv m"
  by (simp add: om_inv_def) (simp add: om_set_value_def)

lemma unat_count_inc: "unat (om_count m) < kMaxEntries \<Longrightarrow> unat (om_count m + 1) = Suc (unat (om_count m))"
proof -
  assume "unat (om_count m) < kMaxEntries"
  then have "om_count m < 6710886" by (simp add: word_less_nat_alt kMaxEntries_def kCapacity_def)
  then show ?thesis by (rule unat_inc)
qed

lemma om_inv_put:
  assumes inv: "om_inv m" and k: "real_key k" and t: "claims_slot m k t"
    and room: "unat (om_count m) < kMaxEntries"
  shows "om_inv (om_put (om_probe k t) k v m)"
proof -
  let ?i = "om_probe k t" and ?m = "om_put (om_probe k t) k v m"
  have keys: "om_keys m \<noteq> None" using inv by (simp add: om_inv_def)
  have key: "om_key ?m = (om_key m)(?i := k)" using keys by (rule om_key_put)
  have used: "om_used ?m = insert ?i (om_used m)"
    using keys om_probe_less k by (rule om_used_put)
  have free: "?i \<notin> om_used m" using t by (simp add: claims_slot_def om_used_def)
  have kne: "k \<noteq> kEmptyKey" using k by (simp add: real_key_def)
  have path: "\<exists>p<kMaxProbeLength. j = om_probe (om_key ?m j) p \<and>
      (\<forall>q<p. om_key ?m (om_probe (om_key ?m j) q) \<noteq> kEmptyKey)" if j: "j \<in> om_used ?m" for j
  proof (cases "j = ?i")
    case True
    then have "om_key ?m j = k" by (simp add: key)
    moreover have "\<forall>q<t. om_key ?m (om_probe k q) \<noteq> kEmptyKey"
      using t kne by (auto simp: key claims_slot_def)
    ultimately show ?thesis using True t by (auto simp: claims_slot_def)
  next
    case False
    with j have "j \<in> om_used m" by (simp add: used)
    from om_used_D [OF inv this] obtain p where p: "p < kMaxProbeLength" "j = om_probe (om_key m j) p"
      "\<And>q. q < p \<Longrightarrow> om_key m (om_probe (om_key m j) q) \<noteq> kEmptyKey" by blast
    moreover from False have "om_key ?m j = om_key m j" by (simp add: key)
    moreover have "om_key ?m x \<noteq> kEmptyKey" if "om_key m x \<noteq> kEmptyKey" for x
      using that kne by (simp add: key)
    ultimately show ?thesis by (intro exI [of _ p]) auto
  qed
  have inj: "inj_on (om_key ?m) (om_used ?m)"
  proof -
    have "inj_on (om_key ?m) (om_used m)"
      using inv free by (auto simp: om_inv_def key inj_on_def)
    moreover have "om_key ?m ?i \<notin> om_key ?m ` om_used m"
      using t free by (auto simp: claims_slot_def key)
    ultimately show ?thesis unfolding used by (simp add: inj_on_insert free)
  qed
  have card: "card (om_used ?m) = Suc (card (om_used m))" unfolding used using free by simp
  have cnt: "unat (om_count ?m) = Suc (unat (om_count m))"
    using unat_count_inc [OF room] by (simp add: om_put_def)
  have "om_keys ?m \<noteq> None" using keys by (auto simp: om_put_def)
  moreover have "unat (om_count m) = card (om_used m)" using inv by (simp add: om_inv_def)
  ultimately show ?thesis
    unfolding om_inv_def using path inj card cnt room by auto
qed

text \<open>The abstract map of the table.\<close>

lemma om_lookup_iff:
  assumes inv: "om_inv m"
  shows "om_lookup m k = Some v \<longleftrightarrow> (\<exists>i\<in>om_used m. om_key m i = k \<and> om_values m i = v)"
  using om_find_iff [OF inv, of k] by (auto simp: om_lookup_def)

lemma om_lookup_None:
  assumes inv: "om_inv m"
  shows "om_lookup m k = None \<longleftrightarrow> (\<forall>i\<in>om_used m. om_key m i \<noteq> k)"
  using om_find_None [OF inv, of k] by (simp add: om_lookup_def)

lemma om_lookup_put:
  assumes inv: "om_inv m" and k: "real_key k" and t: "claims_slot m k t"
    and room: "unat (om_count m) < kMaxEntries"
  shows "om_lookup (om_put (om_probe k t) k v m) = (om_lookup m)(k \<mapsto> v)"
proof (rule map_eqI)
  fix x y
  let ?i = "om_probe k t" and ?m = "om_put (om_probe k t) k v m"
  have keys: "om_keys m \<noteq> None" using inv by (simp add: om_inv_def)
  have inv': "om_inv ?m" using assms by (rule om_inv_put)
  have free: "?i \<notin> om_used m" using t by (simp add: claims_slot_def om_used_def)
  have "om_lookup ?m x = Some y \<longleftrightarrow>
      (\<exists>i\<in>insert ?i (om_used m). ((om_key m)(?i := k)) i = x \<and> ((om_values m)(?i := v)) i = y)"
    by (simp only: om_lookup_iff [OF inv'] om_key_put [OF keys] om_used_put [OF keys om_probe_less k]
        om_values_put)
  also have "\<dots> \<longleftrightarrow> (k = x \<and> v = y) \<or> (\<exists>i\<in>om_used m. om_key m i = x \<and> om_values m i = y)"
  proof -
    have "(\<exists>i\<in>om_used m. ((om_key m)(?i := k)) i = x \<and> ((om_values m)(?i := v)) i = y) \<longleftrightarrow>
        (\<exists>i\<in>om_used m. om_key m i = x \<and> om_values m i = y)"
      by (rule bex_cong) (use free in auto)
    then show ?thesis by simp
  qed
  also have "\<dots> \<longleftrightarrow> ((om_lookup m)(k \<mapsto> v)) x = Some y"
    using t by (auto simp: om_lookup_iff [OF inv] claims_slot_def)
  finally show "om_lookup ?m x = Some y \<longleftrightarrow> ((om_lookup m)(k \<mapsto> v)) x = Some y" .
qed

lemma om_lookup_set_value:
  assumes inv: "om_inv m" and i: "i \<in> om_used m"
  shows "om_lookup (om_set_value i v m) = (om_lookup m)(om_key m i \<mapsto> v)"
proof (rule map_eqI)
  fix x y
  have inj: "j = i" if "j \<in> om_used m" "om_key m j = om_key m i" for j
    using inv i that by (auto simp: om_inv_def dest: inj_onD)
  have inv': "om_inv (om_set_value i v m)" using inv by simp
  have "om_lookup (om_set_value i v m) x = Some y \<longleftrightarrow>
      (\<exists>j\<in>om_used m. om_key m j = x \<and> ((om_values m)(i := v)) j = y)"
    by (simp only: om_lookup_iff [OF inv'] om_key_set_value om_used_set_value om_values_set_value)
  also have "\<dots> \<longleftrightarrow> ((om_lookup m)(om_key m i \<mapsto> v)) x = Some y"
  proof (cases "x = om_key m i")
    case True
    then show ?thesis using i inj by auto
  next
    case False
    then have "(\<exists>j\<in>om_used m. om_key m j = x \<and> ((om_values m)(i := v)) j = y) \<longleftrightarrow>
        (\<exists>j\<in>om_used m. om_key m j = x \<and> om_values m j = y)"
      by (intro bex_cong) auto
    with False show ?thesis by (simp add: om_lookup_iff [OF inv])
  qed
  finally show "om_lookup (om_set_value i v m) x = Some y \<longleftrightarrow>
      ((om_lookup m)(om_key m i \<mapsto> v)) x = Some y" .
qed

lemma om_insert_cases:
  assumes inv: "om_inv m" and res: "om_insert m k v = (b, m')"
  shows "b \<and> valid_entry k v \<and> om_inv m' \<and> om_lookup m' = (om_lookup m)(k \<mapsto> v) \<or> \<not> b \<and> m' = m"
proof (cases "valid_entry k v")
  case False
  with res show ?thesis by (auto simp: om_insert_def)
next
  case True
  then have k: "real_key k" by (simp add: valid_entry_def real_key_def)
  from res True inv have "insert_loop kMaxProbeLength k v (om_probe k 0) None m = (b, m')"
    by (auto simp: om_insert_def om_probe_0 om_inv_def)
  from insert_loop_cases [OF inv k _ _ _ this]
  consider i where "b" "i \<in> om_used m" "om_key m i = k" "m' = om_set_value i v m"
    | t where "b" "unat (om_count m) < kMaxEntries" "claims_slot m k t" "m' = om_put (om_probe k t) k v m"
    | "\<not> b" "m' = m"
    by auto
  then show ?thesis
    by cases (use True inv k om_lookup_set_value om_inv_put om_lookup_put in auto)
qed

section \<open>Removal\<close>

lemma om_remove_spec:
  assumes inv: "om_inv m"
  shows "om_inv (om_remove m k) \<and> om_lookup (om_remove m k) = (om_lookup m)(k := None)"
proof (cases "om_find m k")
  case None
  then have "om_remove m k = m" "om_lookup m k = None" by (simp_all add: om_remove_def om_lookup_def)
  with inv show ?thesis by auto
next
  case (Some s)
  then have s: "s \<in> om_used m" "om_key m s = k" using om_find_iff [OF inv] by auto
  let ?m = "om_remove m k"
  have keys: "om_keys m \<noteq> None" using inv by (simp add: om_inv_def)
  have key: "om_key ?m = (om_key m)(s := kTombstone)"
    using Some keys by (auto simp: om_remove_def om_key_def)
  have used: "om_used ?m = om_used m - {s}"
    by (auto simp: om_used_def key real_key_def)
  have path: "\<exists>p<kMaxProbeLength. j = om_probe (om_key ?m j) p \<and>
      (\<forall>q<p. om_key ?m (om_probe (om_key ?m j) q) \<noteq> kEmptyKey)" if j: "j \<in> om_used ?m" for j
  proof -
    from j have "j \<in> om_used m" "j \<noteq> s" by (simp_all add: used)
    from om_used_D [OF inv this(1)] obtain p where p: "p < kMaxProbeLength"
      "j = om_probe (om_key m j) p"
      "\<And>q. q < p \<Longrightarrow> om_key m (om_probe (om_key m j) q) \<noteq> kEmptyKey" by blast
    moreover from \<open>j \<noteq> s\<close> have "om_key ?m j = om_key m j" by (simp add: key)
    moreover have "om_key ?m x \<noteq> kEmptyKey" if "om_key m x \<noteq> kEmptyKey" for x
      using that kEmpty_neq_kTombstone by (simp add: key)
    ultimately show ?thesis by (intro exI [of _ p]) auto
  qed
  have inj: "inj_on (om_key ?m) (om_used ?m)"
    using inv by (auto simp: om_inv_def key used inj_on_def)
  have pos: "card (om_used m) \<noteq> 0" using s(1) by auto
  then have "om_count m \<noteq> 0" using inv by (auto simp: om_inv_def)
  then have cnt: "unat (om_count ?m) = unat (om_count m) - 1"
    using Some by (simp add: om_remove_def unat_dec)
  have inv': "om_inv ?m"
    unfolding om_inv_def using path inj cnt inv s(1) used keys Some
    by (auto simp: om_inv_def om_remove_def card_Diff_singleton)
  have vals: "om_values ?m = om_values m" using Some by (simp add: om_remove_def)
  have inj': "j = s" if "j \<in> om_used m" "om_key m j = k" for j
    using inv s that by (auto simp: om_inv_def dest: inj_onD)
  have "om_lookup ?m = (om_lookup m)(k := None)"
  proof (rule map_eqI)
    fix x y
    have "om_lookup ?m x = Some y \<longleftrightarrow>
        (\<exists>j\<in>om_used m - {s}. ((om_key m)(s := kTombstone)) j = x \<and> om_values m j = y)"
      by (simp only: om_lookup_iff [OF inv'] used key vals)
    also have "\<dots> \<longleftrightarrow> (\<exists>j\<in>om_used m - {s}. om_key m j = x \<and> om_values m j = y)"
      by (rule bex_cong) auto
    also have "\<dots> \<longleftrightarrow> ((om_lookup m)(k := None)) x = Some y"
    proof (cases "x = k")
      case True
      with inj' show ?thesis by auto
    next
      case False
      then have "((om_lookup m)(k := None)) x = Some y \<longleftrightarrow>
          (\<exists>j\<in>om_used m. om_key m j = x \<and> om_values m j = y)"
        by (simp add: om_lookup_iff [OF inv])
      with s(2) False show ?thesis by blast
    qed
    finally show "om_lookup ?m x = Some y \<longleftrightarrow> ((om_lookup m)(k := None)) x = Some y" .
  qed
  with inv' show ?thesis by simp
qed

interpretation orm: finite_map om_lookup om_insert om_inv om_remove
proof
  show "om_inv m' \<and> om_lookup m' = (om_lookup m)(k \<mapsto> v)"
    if "om_inv m" "om_insert m k v = (True, m')" for m k v m'
    using om_insert_cases [OF that] by simp
  show "m' = m" if "om_inv m" "om_insert m k v = (False, m')" for m k v m'
    using om_insert_cases [OF that] by simp
qed (rule om_remove_spec)

section \<open>Initialisation and the pre-flight check\<close>

lemma om_init_inv:
  assumes "om_init True m = (True, m')"
  shows "om_inv m' \<and> om_lookup m' = Map.empty \<and> om_count m' = 0"
proof -
  have key: "om_key m' = (\<lambda>_. kEmptyKey)" and keys: "om_keys m' \<noteq> None" and cnt: "om_count m' = 0"
    using assms by (auto simp: om_init_def om_clear_def om_key_def split: if_splits)
  have used: "om_used m' = {}" by (simp add: om_used_def key real_key_def)
  have inv: "om_inv m'" by (simp add: om_inv_def used keys cnt)
  have "om_lookup m' k = None" for k by (simp add: om_lookup_None [OF inv] used)
  with inv cnt show ?thesis by auto
qed

text \<open>
  When the table has room for a new key: the key is not a marker and not in the table, the table is
  below its limit, and one of the slots its probe visits was never used.
\<close>

definition om_room :: "OrderRefMap \<Rightarrow> u64 \<Rightarrow> bool" where
  "om_room m k \<longleftrightarrow> om_keys m \<noteq> None \<and> real_key k \<and> (\<forall>i<kCapacity. om_key m i \<noteq> k) \<and> card (om_used m) < kMaxEntries \<and>
     (\<exists>p<kMaxProbeLength. om_key m (om_probe k p) = kEmptyKey)"

lemma can_insert_loop_room:
  assumes "\<And>i. i < kCapacity \<Longrightarrow> om_key m i \<noteq> k" "om_key m (om_probe k p) = kEmptyKey" "s \<le> p" "p < s + n"
  shows "can_insert_loop n k (om_probe k s) m"
  using assms(3,4)
proof (induction n arbitrary: s)
  case (Suc n)
  have "om_probe k s < kCapacity" by (rule om_probe_less)
  then show ?case
    using Suc.IH [of "Suc s"] Suc.prems assms(1,2) om_probe_Suc [of k s] by (cases "s = p") auto
qed simp

lemma room_can_insert:
  assumes "om_inv m" "om_room m k"
  shows "om_can_insert m k"
proof -
  obtain p where p: "p < kMaxProbeLength" "om_key m (om_probe k p) = kEmptyKey" using assms(2) by (auto simp: om_room_def)
  then have "can_insert_loop kMaxProbeLength k (om_probe k 0) m"
    using assms(2) by (intro can_insert_loop_room [of m k p]) (auto simp: om_room_def)
  then show ?thesis using assms by (auto simp: om_can_insert_def om_room_def om_inv_def real_key_def om_probe_0)
qed

lemma can_insert_loop_ok:
  "can_insert_loop n k s m \<Longrightarrow> unat (om_count m) < kMaxEntries \<Longrightarrow> k \<noteq> kEmptyKey \<Longrightarrow>
   fst (insert_loop n k v s t m)"
  using kEmpty_neq_kTombstone
  by (induction n arbitrary: s t) (auto split: if_splits)

lemma can_insert_then_insert:
  assumes "om_can_insert m k" and "valid_entry k v"
  shows "fst (om_insert m k v)"
  using assms can_insert_loop_ok [of kMaxProbeLength k "order_hash k" m v None]
  by (auto simp: om_can_insert_def om_insert_def split: if_splits)

lemma can_insert_loop_mono:
  assumes "can_insert_loop n k s m"
    and "\<And>i. om_key m' i = om_key m i \<or> om_key m i \<noteq> kEmptyKey \<and> om_key m' i = kTombstone"
    and "k \<noteq> kTombstone"
  shows "can_insert_loop n k s m'"
  using assms(1)
proof (induction n arbitrary: s)
  case (Suc n)
  from assms(2) [of s] Suc assms(3) show ?case using kEmpty_neq_kTombstone
    by (auto split: if_splits)
qed simp

lemma can_insert_absent:
  assumes inv: "om_inv m" and can: "om_can_insert m k"
  shows "om_lookup m k = None"
proof -
  have "find_loop n k s m = None" if "can_insert_loop n k s m" for n s
    using that by (induction n arbitrary: s) (auto split: if_splits)
  with can show ?thesis by (auto simp: om_lookup_def om_find_def om_can_insert_def split: if_splits)
qed

text \<open>Freeing another entry cannot spoil a pre-flight check that has succeeded.\<close>

lemma can_insert_remove:
  assumes inv: "om_inv m" and can: "om_can_insert m k"
  shows "om_can_insert (om_remove m k') k"
proof (cases "om_find m k'")
  case None
  with can show ?thesis by (simp add: om_remove_def)
next
  case (Some s)
  then have s: "s \<in> om_used m" using om_find_iff [OF inv] by auto
  let ?m = "om_remove m k'"
  from inv obtain f where f: "om_keys m = Some f" by (auto simp: om_inv_def)
  have keys: "om_keys ?m = Some (f(s := kTombstone))" and key: "om_key ?m = (om_key m)(s := kTombstone)"
    using Some f by (auto simp: om_remove_def om_key_def)
  have "om_count m \<noteq> 0" using inv s by (auto simp: om_inv_def)
  then have cnt: "unat (om_count ?m) \<le> unat (om_count m)"
    using Some by (simp add: om_remove_def unat_dec)
  have "can_insert_loop kMaxProbeLength k (order_hash k) ?m"
  proof (rule can_insert_loop_mono)
    show "can_insert_loop kMaxProbeLength k (order_hash k) m" "k \<noteq> kTombstone"
      using can by (auto simp: om_can_insert_def split: if_splits)
    show "om_key ?m i = om_key m i \<or> om_key m i \<noteq> kEmptyKey \<and> om_key ?m i = kTombstone" for i
      using s by (auto simp: key om_used_def real_key_def)
  qed
  with can cnt keys show ?thesis by (auto simp: om_can_insert_def split: if_splits)
qed

section \<open>Writing through a pointer that lookup returned\<close>

definition om_update :: "OrderRefMap \<Rightarrow> u64 \<Rightarrow> OrderLocation \<Rightarrow> OrderRefMap" where
  "om_update m order_ref loc =
     (case om_find m order_ref of None \<Rightarrow> m | Some slot \<Rightarrow> om_set_value slot loc m)"

lemma om_update_spec:
  assumes inv: "om_inv m"
  shows "om_inv (om_update m k v) \<and>
    om_lookup (om_update m k v) = (if om_lookup m k = None then om_lookup m else (om_lookup m)(k \<mapsto> v))"
proof (cases "om_find m k")
  case None
  with inv show ?thesis by (simp add: om_update_def om_lookup_def)
next
  case (Some s)
  then have "s \<in> om_used m" "om_key m s = k" using om_find_iff [OF inv] by auto
  with om_lookup_set_value [OF inv, of s v] Some inv show ?thesis
    by (simp add: om_update_def om_lookup_def [of m k])
qed

lemma can_insert_update: "om_can_insert (om_update m k' v) k = om_can_insert m k"
proof -
  have "can_insert_loop n k s (om_set_value i v m) = can_insert_loop n k s m" for n s i
    by (induction n arbitrary: s) auto
  moreover have "om_keys (om_set_value i v m) = om_keys m" "om_count (om_set_value i v m) = om_count m" for i
    by (simp_all add: om_set_value_def)
  ultimately have "om_can_insert (om_set_value i v m) k = om_can_insert m k" for i
    by (simp only: om_can_insert_def)
  then show ?thesis by (simp add: om_update_def split: option.split)
qed

section \<open>Properties\<close>

text \<open>
  C6: Starting from a freshly initialised table, any sequence of insertions and removals leaves
  the table's invariant intact (probe paths without gaps, unique keys, \<open>_count\<close> equal to the
  number of live entries, at most 80 per cent load), and lookup returns exactly the finite map
  obtained from the operations that were accepted: linear probing, the 256-probe bound and
  tombstone reuse lose no entry and resurrect none.
\<close>

theorem order_map_refines_map:
  assumes "om_init True m0 = (True, m)"
  shows "om_inv (foldl (map_exec om_insert om_remove) m ops) \<and>
    om_lookup (foldl (map_exec om_insert om_remove) m ops) =
      foldl map_spec Map.empty (map_effective om_insert om_remove m ops)"
  using orm.run_spec [of m ops] om_init_inv [OF assms] by simp

text \<open>
  C24: A reference that passed the pre-flight check \<open>can_insert\<close> is absent, and after another
  entry has been removed the insertion of that reference at a valid location succeeds and
  is found again: the check that \<open>on_order_replace\<close> runs before deleting the original order is
  sound.
\<close>

theorem can_insert_sound:
  assumes "om_inv m" and "om_can_insert m k" and "valid_entry k loc"
  shows "om_lookup m k = None \<and>
    (\<exists>m'. om_insert (om_remove m k') k loc = (True, m') \<and> om_lookup m' k = Some loc)"
proof -
  let ?m = "om_remove m k'"
  have "om_inv ?m" using om_remove_spec [OF assms(1)] by blast
  moreover have "fst (om_insert ?m k loc)"
    using can_insert_remove [OF assms(1,2)] assms(3) by (rule can_insert_then_insert)
  ultimately show ?thesis
    using can_insert_absent [OF assms(1,2)] orm.ins_ok [of ?m k loc "snd (om_insert ?m k loc)"]
    by (intro conjI exI [of _ "snd (om_insert ?m k loc)"]) (auto simp: prod_eq_iff)
qed

definition empty_map :: OrderRefMap where
  "empty_map = \<lparr>om_keys = Some (\<lambda>_. 0), om_values = (\<lambda>_. \<lparr>loc_symbol_idx = 0, loc_side = 0,
     loc_level_idx = 0, loc_slot_idx = 0\<rparr>), om_count = 0\<rparr>"

lemma empty_map_init: "om_init True (empty_map\<lparr>om_keys := None\<rparr>) = (True, empty_map)"
  by (simp add: om_init_def om_clear_def empty_map_def kEmptyKey_def)

lemma empty_map_keys [simp]: "om_keys empty_map \<noteq> None" "om_key empty_map i = kEmptyKey" "om_count empty_map = 0"
  by (simp_all add: empty_map_def om_key_def kEmptyKey_def)

lemma valid_entry_7: "valid_entry 7 (om_values empty_map 0)"
  by (simp add: valid_entry_def empty_map_def kEmptyKey_def kTombstone_def)

lemma can_insert_empty_map: "valid_entry k v \<Longrightarrow> om_can_insert empty_map k"
proof -
  assume v: "valid_entry k v"
  have p: "kMaxProbeLength = Suc 255" and e: "\<not> kMaxEntries \<le> 0"
    by (simp_all add: kMaxProbeLength_def kMaxEntries_def kCapacity_def)
  have "can_insert_loop kMaxProbeLength k (order_hash k) empty_map"
    unfolding p using v by (simp only: can_insert_loop.simps) (auto simp: valid_entry_def)
  with e v show ?thesis by (simp add: om_can_insert_def valid_entry_def)
qed

theorem order_map_refines_map_witness:
  "om_lookup (foldl (map_exec om_insert om_remove) empty_map [Insert 7 (om_values empty_map 0), Remove 9]) 7
     = Some (om_values empty_map 0)"
  using order_map_refines_map [OF empty_map_init, of "[Insert 7 (om_values empty_map 0), Remove 9]"]
    can_insert_then_insert [OF can_insert_empty_map valid_entry_7, OF valid_entry_7]
  by simp

theorem can_insert_sound_witness:
  "\<exists>m'. om_insert (om_remove empty_map 9) 7 (om_values empty_map 0) = (True, m') \<and>
    om_lookup m' 7 = Some (om_values empty_map 0)"
proof -
  have "om_inv empty_map" using om_init_inv [OF empty_map_init] by blast
  then show ?thesis
    using can_insert_sound [of empty_map 7 "om_values empty_map 0" 9]
      can_insert_empty_map [OF valid_entry_7] valid_entry_7 by blast
qed

end
