(* ===== verification/Price_Level.thy ===== *)
theory Price_Level
  imports Arena
begin

text \<open>
  The order queue of one price level: the intrusive doubly-linked list that \<open>link_slot\<close>,
  \<open>unlink_slot\<close> and \<open>deactivate_slot\<close> of \<open>luv_lob.hpp\<close> maintain inside the sixteen slots of a
  \<open>PriceLevel\<close>.  The theory relates the links to the list of slots in time priority and shows
  that allocation, linking and unlinking are append and delete on that list.
\<close>

section \<open>Operations\<close>

text \<open>A store to the fields of one slot of the level.\<close>

definition set_slot :: "nat \<Rightarrow> (OrderSlot \<Rightarrow> OrderSlot) \<Rightarrow> PriceLevel \<Rightarrow> PriceLevel" where
  "set_slot i f l = l\<lparr>lvl_orders := (lvl_orders l)[i := f (lvl_orders l ! i)]\<rparr>"

text \<open>
  The loop of \<open>link_slot\<close> that walks to the tail.  The first argument bounds the hops;
  \<open>None\<close> stands for a walk that has not reached the tail, which a list without a cycle rules
  out for sixteen hops.
\<close>

fun walk_to_tail :: "nat \<Rightarrow> OrderSlot list \<Rightarrow> int \<Rightarrow> int option" where
  "walk_to_tail 0 os cur = None"
| "walk_to_tail (Suc n) os cur =
     (if slot_next (os ! nat cur) \<noteq> -1 then walk_to_tail n os (slot_next (os ! nat cur))
      else Some cur)"

definition link_slot :: "PriceLevel \<Rightarrow> nat \<Rightarrow> PriceLevel option" where
  "link_slot lvl i =
     (let l = set_slot i (\<lambda>s. s\<lparr>slot_next := -1\<rparr>) lvl in
      if lvl_head l = -1 then
        Some ((set_slot i (\<lambda>s. s\<lparr>slot_prev := -1\<rparr>) l)\<lparr>lvl_head := int i\<rparr>)
      else
        (case walk_to_tail kMaxOrdersPerLevel (lvl_orders l) (lvl_head l) of
           None \<Rightarrow> None
         | Some cur \<Rightarrow>
             Some (set_slot i (\<lambda>s. s\<lparr>slot_prev := cur\<rparr>)
                    (set_slot (nat cur) (\<lambda>s. s\<lparr>slot_next := int i\<rparr>) l))))"

definition unlink_slot :: "PriceLevel \<Rightarrow> nat \<Rightarrow> PriceLevel" where
  "unlink_slot lvl i =
     (let s = lvl_orders lvl ! i;
          l1 = (if slot_prev s \<noteq> -1
                then set_slot (nat (slot_prev s)) (\<lambda>p. p\<lparr>slot_next := slot_next s\<rparr>) lvl
                else lvl\<lparr>lvl_head := slot_next s\<rparr>);
          s1 = lvl_orders l1 ! i;
          l2 = (if slot_next s1 \<noteq> -1
                then set_slot (nat (slot_next s1)) (\<lambda>n. n\<lparr>slot_prev := slot_prev s1\<rparr>) l1
                else l1)
      in set_slot i (\<lambda>s. s\<lparr>slot_prev := -1, slot_next := -1\<rparr>) l2)"

definition deactivate_slot :: "OrderSlot \<Rightarrow> OrderSlot" where
  "deactivate_slot s = s\<lparr>slot_flags := 0, slot_order_id := 0, slot_qty := 0\<rparr>"

text \<open>The statements of the add and replace handlers that initialise a slot.\<close>

definition init_slot :: "nat \<Rightarrow> u64 \<Rightarrow> int \<Rightarrow> nat \<Rightarrow> PriceLevel \<Rightarrow> PriceLevel" where
  "init_slot i ref qty side l =
     set_slot i (\<lambda>s. s\<lparr>slot_order_id := ref, slot_qty := qty,
       slot_flags := kFlagActive OR (if side = 0 then kFlagBid else 0)\<rparr>) l"

text \<open>\<open>unlink_slot\<close> followed by \<open>deactivate_slot\<close>, as every handler calls them.\<close>

definition drop_slot :: "PriceLevel \<Rightarrow> nat \<Rightarrow> PriceLevel" where
  "drop_slot lvl i = set_slot i deactivate_slot (unlink_slot lvl i)"

section \<open>The queue in time priority\<close>

fun walk :: "nat \<Rightarrow> OrderSlot list \<Rightarrow> int \<Rightarrow> nat list" where
  "walk 0 os cur = []"
| "walk (Suc n) os cur = (if cur = -1 then [] else nat cur # walk n os (slot_next (os ! nat cur)))"

definition level_chain :: "PriceLevel \<Rightarrow> nat list" where
  "level_chain l = walk kMaxOrdersPerLevel (lvl_orders l) (lvl_head l)"

definition slot_entry :: "PriceLevel \<Rightarrow> nat \<Rightarrow> u64 \<times> int" where
  "slot_entry l i = (slot_order_id (lvl_orders l ! i), slot_qty (lvl_orders l ! i))"

definition level_queue :: "PriceLevel \<Rightarrow> (u64 \<times> int) list" where
  "level_queue l = map (slot_entry l) (level_chain l)"

text \<open>Which order, if any, a slot holds.\<close>

definition active_id :: "PriceLevel \<Rightarrow> nat \<Rightarrow> u64 option" where
  "active_id l i =
     (if i < kMaxOrdersPerLevel \<and> is_active (lvl_orders l ! i)
      then Some (slot_order_id (lvl_orders l ! i)) else None)"

text \<open>
  \<open>dseg os (p, c) xs (q, n)\<close>: following \<open>next\<close> from \<open>c\<close> visits the slots \<open>xs\<close> and arrives at
  \<open>n\<close>; the first slot's \<open>prev\<close> is \<open>p\<close>, every other slot's \<open>prev\<close> is its predecessor, and \<open>q\<close>
  is the last slot visited.
\<close>

fun dseg :: "OrderSlot list \<Rightarrow> int \<times> int \<Rightarrow> nat list \<Rightarrow> int \<times> int \<Rightarrow> bool" where
  "dseg os a [] b \<longleftrightarrow> a = b"
| "dseg os a (x # xs) b \<longleftrightarrow> snd a = int x \<and> slot_prev (os ! x) = fst a \<and>
     dseg os (int x, slot_next (os ! x)) xs b"

definition chain :: "PriceLevel \<Rightarrow> nat list \<Rightarrow> bool" where
  "chain l xs \<longleftrightarrow> length (lvl_orders l) = kMaxOrdersPerLevel \<and> distinct xs \<and>
     set xs \<subseteq> {..<kMaxOrdersPerLevel} \<and>
     (\<exists>q. dseg (lvl_orders l) (-1, lvl_head l) xs (q, -1))"

definition level_wf :: "PriceLevel \<Rightarrow> bool" where
  "level_wf l \<longleftrightarrow> chain l (level_chain l) \<and>
     (\<forall>i<kMaxOrdersPerLevel. is_active (lvl_orders l ! i) \<longleftrightarrow> i \<in> set (level_chain l)) \<and>
     (\<forall>i\<in>set (level_chain l). is_valid_quantity (slot_qty (lvl_orders l ! i))) \<and>
     lvl_total_qty l = sum_list (map snd (level_queue l)) \<and>
     lvl_order_count l = int (length (level_chain l))"

section \<open>Segments\<close>

lemma dseg_append: "dseg os a (xs @ ys) b \<longleftrightarrow> (\<exists>m. dseg os a xs m \<and> dseg os m ys b)"
  by (induction xs arbitrary: a) auto

lemma dseg_cong:
  assumes "\<And>x. x \<in> set xs \<Longrightarrow> slot_next (os' ! x) = slot_next (os ! x) \<and> slot_prev (os' ! x) = slot_prev (os ! x)"
  shows "dseg os' a xs b = dseg os a xs b"
  using assms by (induction xs arbitrary: a) auto

lemma dseg_frame: "x \<notin> set xs \<Longrightarrow> dseg (os[x := s]) a xs b = dseg os a xs b"
  by (rule dseg_cong) (metis nth_list_update_neq)

lemma dseg_set_next:
  assumes "dseg os a (xs @ [x]) b" "x \<notin> set xs" "x < length os"
  shows "dseg (os[x := (os ! x)\<lparr>slot_next := n\<rparr>]) a (xs @ [x]) (int x, n)"
  using assms by (auto simp: dseg_append dseg_frame)

lemma dseg_set_prev:
  assumes "dseg os a (x # xs) b" "x \<notin> set xs" "x < length os"
  shows "dseg (os[x := (os ! x)\<lparr>slot_prev := p\<rparr>]) (p, snd a) (x # xs) b"
  using assms by (auto simp: dseg_frame)

lemma dseg_end: "dseg os a xs (q, n) \<Longrightarrow> xs \<noteq> [] \<Longrightarrow> q = int (last xs) \<and> slot_next (os ! last xs) = n"
  by (induction xs arbitrary: a) auto

lemma dseg_start: "dseg os a xs b \<Longrightarrow> xs \<noteq> [] \<Longrightarrow> snd a = int (hd xs)"
  by (cases xs) auto

lemma walk_dseg: "dseg os (p, c) xs (q, -1) \<Longrightarrow> length xs \<le> n \<Longrightarrow> walk n os c = xs"
proof (induction xs arbitrary: p c n)
  case Nil
  then show ?case by (cases n) auto
next
  case (Cons x xs)
  then obtain k where "n = Suc k" by (cases n) auto
  with Cons show ?case by auto
qed

lemma chain_length: "chain l xs \<Longrightarrow> length xs \<le> kMaxOrdersPerLevel"
proof -
  assume "chain l xs"
  then have "distinct xs" "set xs \<subseteq> {..<kMaxOrdersPerLevel}" by (simp_all add: chain_def)
  then show ?thesis using card_mono [of "{..<kMaxOrdersPerLevel}" "set xs"] by (simp add: distinct_card)
qed

lemma chain_level_chain: "chain l xs \<Longrightarrow> level_chain l = xs"
  unfolding level_chain_def using chain_length [of l xs] walk_dseg by (auto simp: chain_def)

lemma walk_to_tail_dseg:
  "dseg os (p, c) xs (q, -1) \<Longrightarrow> xs \<noteq> [] \<Longrightarrow> length xs \<le> n \<Longrightarrow> walk_to_tail n os c = Some (int (last xs))"
proof (induction xs arbitrary: p c n)
  case Nil
  then show ?case by simp
next
  case (Cons x xs)
  then obtain k where n: "n = Suc k" by (cases n) auto
  have c: "c = int x" and rest: "dseg os (int x, slot_next (os ! x)) xs (q, -1)" using Cons.prems(1) by auto
  show ?case
  proof (cases "xs = []")
    case True
    with c n rest show ?thesis by auto
  next
    case False
    then have "slot_next (os ! x) = int (hd xs)" using dseg_start [OF rest] by simp
    moreover have "walk_to_tail k os (slot_next (os ! x)) = Some (int (last xs))"
      using Cons.IH [OF rest False] Cons.prems(3) n by simp
    ultimately show ?thesis using c n False by simp
  qed
qed

section \<open>Linking appends\<close>

lemma set_slot_orders [simp]:
  "lvl_orders (set_slot i f l) = (lvl_orders l)[i := f (lvl_orders l ! i)]"
  by (simp add: set_slot_def)

lemma set_slot_fields [simp]:
  "lvl_head (set_slot i f l) = lvl_head l" "lvl_price (set_slot i f l) = lvl_price l"
  "lvl_total_qty (set_slot i f l) = lvl_total_qty l"
  "lvl_order_count (set_slot i f l) = lvl_order_count l"
  by (simp_all add: set_slot_def)

lemma chain_set_slot:
  assumes "\<And>s. slot_next (f s) = slot_next s \<and> slot_prev (f s) = slot_prev s"
  shows "chain (set_slot i f l) xs = chain l xs"
proof -
  have "dseg ((lvl_orders l)[i := f (lvl_orders l ! i)]) a xs b = dseg (lvl_orders l) a xs b" for a b
  proof (cases "i < length (lvl_orders l)")
    case True
    then show ?thesis by (intro dseg_cong) (simp add: nth_list_update assms)
  next
    case False
    then show ?thesis by (simp add: list_update_beyond)
  qed
  then show ?thesis by (simp add: chain_def)
qed

lemma chain_link:
  assumes c: "chain l xs" and i: "i < kMaxOrdersPerLevel" "i \<notin> set xs"
  shows "\<exists>l'. link_slot l i = Some l' \<and> chain l' (xs @ [i])"
proof (cases "xs = []")
  case True
  with c i show ?thesis by (auto simp: chain_def link_slot_def Let_def)
next
  case False
  define l0 where "l0 = set_slot i (\<lambda>s. s\<lparr>slot_next := -1\<rparr>) l"
  obtain q where d: "dseg (lvl_orders l) (-1, lvl_head l) xs (q, -1)" using c by (auto simp: chain_def)
  have len: "length (lvl_orders l) = 16" and dist: "distinct xs" and sub: "set xs \<subseteq> {..<16}"
    using c by (simp_all add: chain_def)
  have d0: "dseg (lvl_orders l0) (-1, lvl_head l) xs (q, -1)"
    using d i by (simp add: l0_def dseg_frame)
  have head: "lvl_head l \<noteq> -1" using dseg_start [OF d False] by simp
  have walk: "walk_to_tail kMaxOrdersPerLevel (lvl_orders l0) (lvl_head l) = Some (int (last xs))"
    using walk_to_tail_dseg [OF d0 False] chain_length [OF c] by simp
  obtain ys y where xs: "xs = ys @ [y]" using False by (cases xs rule: rev_cases) auto
  define l1 where "l1 = set_slot y (\<lambda>s. s\<lparr>slot_next := int i\<rparr>) l0"
  define l2 where "l2 = set_slot i (\<lambda>s. s\<lparr>slot_prev := int y\<rparr>) l1"
  have link: "link_slot l i = Some l2"
    using walk head by (simp add: link_slot_def Let_def l0_def [symmetric] l1_def l2_def xs) (simp add: l0_def)
  have "y < 16" "y \<notin> set ys" "y \<noteq> i" using dist sub xs i by auto
  have "dseg (lvl_orders l1) (-1, lvl_head l) xs (int y, int i)"
    using dseg_set_next [of "lvl_orders l0" "(-1, lvl_head l)" ys y "(q, -1)" "int i"] d0 len
      \<open>y < 16\<close> \<open>y \<notin> set ys\<close> by (simp add: xs l1_def l0_def)
  then have "dseg (lvl_orders l2) (-1, lvl_head l) xs (int y, int i)"
    using i by (simp add: l2_def dseg_frame)
  moreover have "dseg (lvl_orders l2) (int y, int i) [i] (int i, -1)"
    using len i \<open>y \<noteq> i\<close> by (simp add: l2_def l1_def l0_def)
  ultimately have "dseg (lvl_orders l2) (-1, lvl_head l) (xs @ [i]) (int i, -1)"
    by (auto simp: dseg_append)
  then have "chain l2 (xs @ [i])"
    using len dist sub i by (auto simp: chain_def l2_def l1_def l0_def)
  with link show ?thesis by blast
qed

section \<open>Unlinking deletes\<close>

lemma chain_unlink:
  assumes c: "chain l xs" and i: "i \<in> set xs"
  shows "chain (unlink_slot l i) (filter (\<lambda>j. j \<noteq> i) xs)"
proof -
  obtain as bs where xs: "xs = as @ i # bs" using split_list [OF i] by blast
  have len: "length (lvl_orders l) = 16" and dist: "distinct xs" and sub: "set xs \<subseteq> {..<16}"
    using c by (simp_all add: chain_def)
  have filt: "filter (\<lambda>j. j \<noteq> i) xs = as @ bs"
    using dist by (simp add: xs) (metis (mono_tags, lifting) filter_True)
  let ?o = "lvl_orders l" and ?s = "lvl_orders l ! i"
  obtain q where da: "dseg ?o (-1, lvl_head l) as (slot_prev ?s, int i)"
    and db: "dseg ?o (int i, slot_next ?s) bs (q, -1)"
    using c by (auto simp: chain_def xs dseg_append)
  define l1 where "l1 = (if slot_prev ?s \<noteq> -1
      then set_slot (nat (slot_prev ?s)) (\<lambda>p. p\<lparr>slot_next := slot_next ?s\<rparr>) l
      else l\<lparr>lvl_head := slot_next ?s\<rparr>)"
  have l1: "dseg (lvl_orders l1) (-1, lvl_head l1) as (slot_prev ?s, slot_next ?s) \<and>
      dseg (lvl_orders l1) (int i, slot_next ?s) bs (q, -1) \<and> lvl_orders l1 ! i = ?s \<and>
      length (lvl_orders l1) = 16"
  proof (cases as rule: rev_cases)
    case Nil
    with da db len show ?thesis by (auto simp: l1_def)
  next
    case (snoc as' a)
    with dseg_end [OF da] have p: "slot_prev ?s = int a" by simp
    have a: "a < 16" "a \<notin> set as'" "a \<noteq> i" "a \<notin> set bs" using dist sub by (auto simp: xs snoc)
    then show ?thesis
      using dseg_set_next [of ?o "(-1, lvl_head l)" as' a _ "slot_next ?s"] da db len
      by (auto simp: l1_def p snoc dseg_frame)
  qed
  define l2 where "l2 = (if slot_next ?s \<noteq> -1
      then set_slot (nat (slot_next ?s)) (\<lambda>n. n\<lparr>slot_prev := slot_prev ?s\<rparr>) l1 else l1)"
  have l2: "dseg (lvl_orders l2) (-1, lvl_head l2) as (slot_prev ?s, slot_next ?s) \<and>
      dseg (lvl_orders l2) (slot_prev ?s, slot_next ?s) bs (if bs = [] then slot_prev ?s else q, -1) \<and>
      length (lvl_orders l2) = 16"
  proof (cases bs)
    case Nil
    with db l1 show ?thesis by (auto simp: l2_def)
  next
    case (Cons b bs')
    with db have n: "slot_next ?s = int b" by simp
    have b: "b < 16" "b \<notin> set bs'" "b \<notin> set as" using dist sub by (auto simp: xs Cons)
    have "dseg ((lvl_orders l1)[b := (lvl_orders l1 ! b)\<lparr>slot_prev := slot_prev ?s\<rparr>])
        (slot_prev ?s, int b) (b # bs') (q, -1)"
      using dseg_set_prev [of "lvl_orders l1" "(int i, int b)" b bs' "(q, -1)" "slot_prev ?s"] l1 b n Cons
      by simp
    with b l1 n Cons show ?thesis by (simp add: l2_def dseg_frame)
  qed
  have "unlink_slot l i = set_slot i (\<lambda>s. s\<lparr>slot_prev := -1, slot_next := -1\<rparr>) l2"
    using l1 by (simp add: unlink_slot_def Let_def l1_def [symmetric] l2_def)
  moreover have "i \<notin> set as" "i \<notin> set bs" using dist by (auto simp: xs)
  ultimately show ?thesis
    using l2 dist sub unfolding filt by (auto simp: chain_def dseg_append dseg_frame xs)
qed

section \<open>The payload of slots\<close>

definition slot_data :: "OrderSlot \<Rightarrow> u64 \<times> int \<times> u32" where
  "slot_data s = (slot_order_id s, slot_qty s, slot_flags s)"

lemma set_slot_data:
  assumes "\<And>s. slot_data (f s) = slot_data s"
  shows "slot_data (lvl_orders (set_slot i f l) ! j) = slot_data (lvl_orders l ! j)"
proof (cases "i < length (lvl_orders l)")
  case True
  then show ?thesis using assms by (cases "i = j") simp_all
next
  case False
  then show ?thesis by (simp add: list_update_beyond)
qed

lemma link_slot_frame:
  assumes "link_slot l i = Some l'"
  shows "slot_data (lvl_orders l' ! j) = slot_data (lvl_orders l ! j) \<and> lvl_price l' = lvl_price l \<and>
    lvl_total_qty l' = lvl_total_qty l \<and> lvl_order_count l' = lvl_order_count l"
proof -
  have n: "slot_data (s\<lparr>slot_next := x\<rparr>) = slot_data s" and p: "slot_data (s\<lparr>slot_prev := x\<rparr>) = slot_data s"
    for s x by (simp_all add: slot_data_def)
  show ?thesis
    using assms
    by (auto simp: link_slot_def Let_def set_slot_data n p simp del: set_slot_orders
        split: if_splits option.splits)
qed

lemma unlink_slot_frame:
  "slot_data (lvl_orders (unlink_slot l i) ! j) = slot_data (lvl_orders l ! j) \<and>
   lvl_price (unlink_slot l i) = lvl_price l \<and> lvl_total_qty (unlink_slot l i) = lvl_total_qty l \<and>
   lvl_order_count (unlink_slot l i) = lvl_order_count l"
proof -
  have n: "slot_data (s\<lparr>slot_next := x\<rparr>) = slot_data s" and p: "slot_data (s\<lparr>slot_prev := x\<rparr>) = slot_data s"
    and np: "slot_data (s\<lparr>slot_prev := x, slot_next := y\<rparr>) = slot_data s" for s x y
    by (simp_all add: slot_data_def)
  show ?thesis
    unfolding unlink_slot_def Let_def
    by (simp add: set_slot_data n p np del: set_slot_orders)
qed

lemma slot_data_fields:
  assumes "slot_data s = slot_data t"
  shows "slot_order_id s = slot_order_id t \<and> slot_qty s = slot_qty t \<and> is_active s = is_active t"
  using assms by (simp add: slot_data_def is_active_def)

lemma drop_slot_frame:
  assumes "length (lvl_orders l) = kMaxOrdersPerLevel" "i < kMaxOrdersPerLevel"
    "length (lvl_orders (unlink_slot l i)) = kMaxOrdersPerLevel"
  shows "j \<noteq> i \<Longrightarrow> slot_data (lvl_orders (drop_slot l i) ! j) = slot_data (lvl_orders l ! j)"
    and "\<not> is_active (lvl_orders (drop_slot l i) ! i)"
    and "lvl_price (drop_slot l i) = lvl_price l" "lvl_total_qty (drop_slot l i) = lvl_total_qty l"
    "lvl_order_count (drop_slot l i) = lvl_order_count l"
  using unlink_slot_frame [of l i j] unlink_slot_frame [of l i] assms
  by (simp_all add: drop_slot_def nth_list_update_neq) (simp add: deactivate_slot_def is_active_def)

section \<open>Level operations on the queue\<close>

lemma alloc_slot_Some: "alloc_slot l = Some i \<Longrightarrow> i < kMaxOrdersPerLevel \<and> \<not> is_active (lvl_orders l ! i)"
  by (auto simp: alloc_slot_def find_upt_Some)

lemma alloc_slot_None:
  assumes wf: "level_wf l"
  shows "alloc_slot l = None \<longleftrightarrow> length (level_chain l) = kMaxOrdersPerLevel"
proof -
  let ?xs = "level_chain l"
  have xs: "distinct ?xs" "set ?xs \<subseteq> {..<16}" using wf by (auto simp: level_wf_def chain_def)
  have "alloc_slot l = None \<longleftrightarrow> {..<16} \<subseteq> set ?xs"
    using wf by (auto simp: alloc_slot_def find_upt_None level_wf_def)
  also have "\<dots> \<longleftrightarrow> set ?xs = {..<16}" using xs(2) by blast
  also have "\<dots> \<longleftrightarrow> card (set ?xs) = 16"
  proof
    show "card (set ?xs) = 16" if "set ?xs = {..<16}" unfolding that by (rule card_lessThan)
    show "set ?xs = {..<16}" if "card (set ?xs) = 16"
      by (rule card_subset_eq [OF finite_lessThan xs(2)]) (simp only: that card_lessThan)
  qed
  finally show ?thesis by (simp only: distinct_card [OF xs(1)])
qed

lemma sum_list_remove:
  fixes f :: "'a \<Rightarrow> int"
  assumes "distinct xs" "x \<in> set xs"
  shows "sum_list (map f (filter (\<lambda>j. j \<noteq> x) xs)) = sum_list (map f xs) - f x"
proof -
  obtain as bs where xs: "xs = as @ x # bs" using split_list [OF assms(2)] by blast
  have "filter (\<lambda>j. j \<noteq> x) as = as" "filter (\<lambda>j. j \<noteq> x) bs = bs"
    by (rule filter_True; use assms(1) xs in auto)+
  then show ?thesis by (simp add: xs)
qed

text \<open>
  Taking a free slot, filling it and linking it appends the order to the level's queue.
\<close>

lemma level_place:
  assumes wf: "level_wf l" and i: "alloc_slot l = Some i" and q: "is_valid_quantity qty"
    and link: "link_slot (init_slot i ref qty side l) i = Some l'"
    and l'': "l'' = l'\<lparr>lvl_total_qty := lvl_total_qty l + qty, lvl_order_count := lvl_order_count l + 1\<rparr>"
  shows "level_wf l''" "level_chain l'' = level_chain l @ [i]"
    "level_queue l'' = level_queue l @ [(ref, qty)]" "active_id l'' = (active_id l)(i \<mapsto> ref)"
proof -
  let ?xs = "level_chain l" and ?l = "init_slot i ref qty side l"
  have c: "chain l ?xs" and len: "length (lvl_orders l) = 16"
    using wf by (auto simp: level_wf_def chain_def)
  have i16: "i < 16" and free: "i \<notin> set ?xs" using alloc_slot_Some [OF i] wf by (auto simp: level_wf_def)
  have "chain ?l ?xs" using c unfolding init_slot_def by (subst chain_set_slot) simp_all
  from chain_link [OF this i16 free] link have "chain l' (?xs @ [i])" by auto
  then have c'': "chain l'' (?xs @ [i])" by (simp add: l'' chain_def)
  show ch: "level_chain l'' = ?xs @ [i]" using c'' by (rule chain_level_chain)
  have data: "slot_data (lvl_orders l'' ! j) = slot_data (lvl_orders ?l ! j)" for j
    using link_slot_frame [OF link] by (simp add: l'')
  have other: "slot_data (lvl_orders l'' ! j) = slot_data (lvl_orders l ! j)" if "j \<noteq> i" for j
    using data [of j] that by (simp add: init_slot_def)
  have new: "slot_order_id (lvl_orders l'' ! i) = ref" "slot_qty (lvl_orders l'' ! i) = qty"
    "is_active (lvl_orders l'' ! i)"
    using slot_data_fields [OF data [of i]] i16 len
    by (simp_all add: init_slot_def is_active_def kFlagActive_def kFlagBid_def)
  have ent: "map (slot_entry l'') ?xs = map (slot_entry l) ?xs"
  proof (rule map_cong)
    show "slot_entry l'' j = slot_entry l j" if "j \<in> set ?xs" for j
      using slot_data_fields [OF other, of j] free that by (cases "j = i") (simp_all add: slot_entry_def)
  qed simp
  show qu: "level_queue l'' = level_queue l @ [(ref, qty)]"
    using ent new by (simp add: level_queue_def ch) (simp add: slot_entry_def)
  have act: "is_active (lvl_orders l'' ! j) \<longleftrightarrow> j \<in> set (?xs @ [i])" if "j < 16" for j
    using slot_data_fields [OF other, of j] new wf that by (cases "j = i") (auto simp: level_wf_def)
  have val: "is_valid_quantity (slot_qty (lvl_orders l'' ! j))" if "j \<in> set (?xs @ [i])" for j
    using slot_data_fields [OF other, of j] new wf q that by (cases "j = i") (auto simp: level_wf_def)
  show "level_wf l''"
    unfolding level_wf_def ch qu using c'' act val wf by (simp add: level_wf_def l'')
  show "active_id l'' = (active_id l)(i \<mapsto> ref)"
    using new i16 slot_data_fields [OF other] by (auto simp: active_id_def fun_eq_iff)
qed

lemma level_link_total:
  assumes wf: "level_wf l" and i: "alloc_slot l = Some i"
  shows "\<exists>l'. link_slot (init_slot i ref qty side l) i = Some l' \<and> lvl_price l' = lvl_price l \<and>
    lvl_total_qty l' = lvl_total_qty l \<and> lvl_order_count l' = lvl_order_count l"
proof -
  have "chain (init_slot i ref qty side l) (level_chain l)"
    using wf unfolding init_slot_def by (subst chain_set_slot) (simp_all add: level_wf_def)
  moreover have "i < 16" "i \<notin> set (level_chain l)" using alloc_slot_Some [OF i] wf by (auto simp: level_wf_def)
  ultimately obtain l' where l': "link_slot (init_slot i ref qty side l) i = Some l'"
    using chain_link by blast
  from link_slot_frame [OF this] show ?thesis by (simp add: l') (simp add: init_slot_def)
qed

text \<open>
  Unlinking and deactivating a slot deletes its order; the slot's own quantity may already
  have been consumed.
\<close>

lemma level_drop:
  assumes c: "chain l xs" and i: "i \<in> set xs"
    and act: "\<And>j. j < kMaxOrdersPerLevel \<Longrightarrow> is_active (lvl_orders l ! j) \<longleftrightarrow> j \<in> set xs"
    and val: "\<And>j. j \<in> set xs \<Longrightarrow> j \<noteq> i \<Longrightarrow> is_valid_quantity (slot_qty (lvl_orders l ! j))"
    and tot: "T = sum_list (map (\<lambda>j. slot_qty (lvl_orders l ! j)) (filter (\<lambda>j. j \<noteq> i) xs))"
    and l': "l' = (drop_slot l i)\<lparr>lvl_total_qty := T, lvl_order_count := int (length xs) - 1\<rparr>"
  shows "level_wf l'" "level_chain l' = filter (\<lambda>j. j \<noteq> i) xs"
    "level_queue l' = map (slot_entry l) (filter (\<lambda>j. j \<noteq> i) xs)"
    "active_id l' = (active_id l)(i := None)"
proof -
  let ?ys = "filter (\<lambda>j. j \<noteq> i) xs"
  have len: "length (lvl_orders l) = 16" and dist: "distinct xs" and i16: "i < 16"
    using c i by (auto simp: chain_def)
  have cu: "chain (unlink_slot l i) ?ys" using c i by (rule chain_unlink)
  then have lu: "length (lvl_orders (unlink_slot l i)) = 16" by (simp add: chain_def)
  have "chain (drop_slot l i) ?ys"
    unfolding drop_slot_def using cu by (subst chain_set_slot) (simp_all add: deactivate_slot_def)
  then have c': "chain l' ?ys" by (simp add: l' chain_def)
  show ch: "level_chain l' = ?ys" using c' by (rule chain_level_chain)
  have other: "slot_data (lvl_orders l' ! j) = slot_data (lvl_orders l ! j)" if "j \<noteq> i" for j
    using drop_slot_frame(1) [OF len i16 lu that] by (simp add: l')
  have off: "\<not> is_active (lvl_orders l' ! i)"
    using drop_slot_frame(2) [OF len i16 lu] by (simp add: l')
  show qu: "level_queue l' = map (slot_entry l) ?ys"
    using slot_data_fields [OF other] by (auto simp: level_queue_def ch slot_entry_def)
  have lenys: "int (length ?ys) = int (length xs) - 1"
    using sum_list_remove [OF dist i, of "\<lambda>_. 1"] by (simp add: sum_list_triv)
  have act': "is_active (lvl_orders l' ! j) \<longleftrightarrow> j \<in> set ?ys" if "j < 16" for j
    using slot_data_fields [OF other, of j] act [of j] off that by (cases "j = i") auto
  have val': "is_valid_quantity (slot_qty (lvl_orders l' ! j))" if "j \<in> set ?ys" for j
    using slot_data_fields [OF other, of j] val [of j] that by auto
  have T: "sum_list (map snd (map (slot_entry l) ?ys)) = T" by (simp add: tot slot_entry_def o_def)
  have f: "lvl_total_qty l' = T" "lvl_order_count l' = int (length ?ys)" by (simp_all add: l' lenys)
  show "level_wf l'"
    unfolding level_wf_def ch qu T f using c' act' val' by blast
  show "active_id l' = (active_id l)(i := None)"
    using off slot_data_fields [OF other] by (auto simp: active_id_def fun_eq_iff)
qed

lemma level_reduce:
  assumes wf: "level_wf l" and i: "i \<in> set (level_chain l)"
    and d: "0 < d" "d < slot_qty (lvl_orders l ! i)"
    and l': "l' = (set_slot i (\<lambda>s. s\<lparr>slot_qty := slot_qty s - d\<rparr>) l)\<lparr>lvl_total_qty := lvl_total_qty l - d\<rparr>"
  shows "level_wf l'" "level_chain l' = level_chain l"
    "level_queue l' = map (\<lambda>j. if j = i then (slot_order_id (lvl_orders l ! i), slot_qty (lvl_orders l ! i) - d)
        else slot_entry l j) (level_chain l)"
    "active_id l' = active_id l"
proof -
  let ?xs = "level_chain l"
  have c: "chain l ?xs" and len: "length (lvl_orders l) = 16" and dist: "distinct ?xs" and i16: "i < 16"
    using wf i by (auto simp: level_wf_def chain_def)
  have "chain (set_slot i (\<lambda>s. s\<lparr>slot_qty := slot_qty s - d\<rparr>) l) ?xs"
    using c by (subst chain_set_slot) simp_all
  then have c': "chain l' ?xs" by (simp add: l' chain_def)
  show ch: "level_chain l' = ?xs" using c' by (rule chain_level_chain)
  have ord: "lvl_orders l' ! j = (if j = i then (lvl_orders l ! i)\<lparr>slot_qty := slot_qty (lvl_orders l ! i) - d\<rparr>
      else lvl_orders l ! j)" for j
    using len i16 by (simp add: l' nth_list_update)
  show qu: "level_queue l' = map (\<lambda>j. if j = i then (slot_order_id (lvl_orders l ! i), slot_qty (lvl_orders l ! i) - d)
        else slot_entry l j) ?xs"
    by (simp add: level_queue_def ch) (simp add: slot_entry_def ord)
  have act: "is_active (lvl_orders l' ! j) = is_active (lvl_orders l ! j)" for j
    by (simp add: ord is_active_def)
  have "sum_list (map snd (level_queue l')) = (\<Sum>j\<in>set ?xs. slot_qty (lvl_orders l' ! j))"
    using dist by (simp add: level_queue_def ch slot_entry_def sum_list_distinct_conv_sum_set o_def)
  also have "\<dots> = (\<Sum>j\<in>set ?xs. slot_qty (lvl_orders l ! j)) - d"
    using i by (simp add: ord sum.remove [of _ i])
  also have "\<dots> = sum_list (map snd (level_queue l)) - d"
    using dist by (simp add: level_queue_def slot_entry_def sum_list_distinct_conv_sum_set o_def)
  finally have tot: "sum_list (map snd (level_queue l')) = lvl_total_qty l'"
    using wf by (simp add: level_wf_def l')
  have "is_valid_quantity (slot_qty (lvl_orders l' ! j))" if "j \<in> set ?xs" for j
    using wf that d by (auto simp: level_wf_def ord numeric_valid)
  then show "level_wf l'"
    unfolding level_wf_def ch using c' wf tot act by (simp add: level_wf_def l')
  show "active_id l' = active_id l"
    using act by (auto simp: active_id_def fun_eq_iff ord)
qed

text \<open>The aggregate of sixteen valid quantities is far from the 64-bit limits.\<close>

lemma level_total_bounds:
  assumes wf: "level_wf l"
  shows "0 \<le> lvl_total_qty l \<and> lvl_total_qty l \<le> 16 * kMaxQuantity"
proof -
  let ?xs = "level_chain l"
  have q: "\<And>x. x \<in> set (level_queue l) \<Longrightarrow> 0 \<le> snd x \<and> snd x \<le> kMaxQuantity"
    using wf by (auto simp: level_wf_def level_queue_def slot_entry_def numeric_valid)
  have "0 \<le> sum_list (map snd ys) \<and> sum_list (map snd ys) \<le> int (length ys) * kMaxQuantity"
    if "\<And>x. x \<in> set ys \<Longrightarrow> 0 \<le> snd x \<and> snd x \<le> kMaxQuantity" for ys :: "(u64 \<times> int) list"
    using that by (induction ys) (fastforce simp: algebra_simps)+
  from this [OF q] have "0 \<le> sum_list (map snd (level_queue l)) \<and>
      sum_list (map snd (level_queue l)) \<le> int (length (level_queue l)) * kMaxQuantity" by simp
  moreover have "sum_list (map snd (level_queue l)) = lvl_total_qty l" "length (level_queue l) = length ?xs"
    using wf by (simp_all add: level_wf_def) (simp add: level_queue_def)
  ultimately have "0 \<le> lvl_total_qty l \<and> lvl_total_qty l \<le> int (length ?xs) * kMaxQuantity" by simp
  moreover have "int (length ?xs) * kMaxQuantity \<le> 16 * kMaxQuantity"
    using wf chain_length [of l ?xs] by (auto simp: level_wf_def kMaxQuantity_def)
  ultimately show ?thesis by linarith
qed

lemma reset_level_wf:
  assumes "length (lvl_orders l) = kMaxOrdersPerLevel"
  shows "level_wf ((reset_level l)\<lparr>lvl_price := p\<rparr>)" "level_queue ((reset_level l)\<lparr>lvl_price := p\<rparr>) = []"
    "active_id ((reset_level l)\<lparr>lvl_price := p\<rparr>) = Map.empty"
proof -
  let ?l = "(reset_level l)\<lparr>lvl_price := p\<rparr>"
  have c: "chain ?l []" using assms by (simp add: chain_def reset_level_def)
  then have ch: "level_chain ?l = []" by (rule chain_level_chain)
  have off: "\<not> is_active (lvl_orders ?l ! i)" if "i < 16" for i
    using assms that by (simp add: reset_level_def empty_slot_def is_active_def)
  show q: "level_queue ?l = []" by (simp add: level_queue_def ch)
  show "level_wf ?l" unfolding level_wf_def ch q using c off by (simp add: reset_level_def)
  show "active_id ?l = Map.empty" using off by (auto simp: active_id_def fun_eq_iff)
qed

end
