(* ===== verification/Itch_Types.thy ===== *)
theory Itch_Types
  imports Prelude
begin

text \<open>The message type codes and tick flags of \<open>luv_decode_itch.hpp\<close>.\<close>

definition kBuy :: u8 where "kBuy = 0x01"
definition kPrintable :: u8 where "kPrintable = 0x02"
definition kCross :: u8 where "kCross = 0x04"
definition kHalted :: u8 where "kHalted = 0x08"
definition kShortSaleRestricted :: u8 where "kShortSaleRestricted = 0x10"

definition kAddOrder :: u8 where "kAddOrder = 0x41"
definition kAddOrderMPID :: u8 where "kAddOrderMPID = 0x46"
definition kOrderExecuted :: u8 where "kOrderExecuted = 0x45"
definition kOrderExecPrice :: u8 where "kOrderExecPrice = 0x43"
definition kOrderCancel :: u8 where "kOrderCancel = 0x58"
definition kOrderDelete :: u8 where "kOrderDelete = 0x44"
definition kOrderReplace :: u8 where "kOrderReplace = 0x55"
definition kTrade :: u8 where "kTrade = 0x50"
definition kCrossTrade :: u8 where "kCrossTrade = 0x51"
definition kStockTradingAction :: u8 where "kStockTradingAction = 0x48"
definition kRegSHO :: u8 where "kRegSHO = 0x59"

lemmas itch_types = kAddOrder_def kAddOrderMPID_def kOrderExecuted_def kOrderExecPrice_def
  kOrderCancel_def kOrderDelete_def kOrderReplace_def kTrade_def kCrossTrade_def
  kStockTradingAction_def kRegSHO_def

end
