(* ===== verification/LOB.thy ===== *)
theory LOB
  imports Order_Ref_Map Price_Level Itch_Types
begin

text \<open>
  \<open>LOBEngine\<close> of \<open>luv_lob.hpp\<close>: the limit order book kept in the arena's price levels, its
  order reference map and its per-symbol level counts, with every message handler and query.
  The structural lemmas show what binary search, level insertion and level removal do to the
  array of levels of one side, and that the reference map keeps pointing at the slots the
  orders occupy while levels shift.
\<close>

section \<open>State\<close>

record SymbolMeta =
  bid_levels :: nat
  ask_levels :: nat
  last_timestamp_ns :: u64

definition empty_meta :: SymbolMeta where
  "empty_meta = \<lparr>bid_levels = 0, ask_levels = 0, last_timestamp_ns = 0\<rparr>"

record LOBEngine =
  le_arena :: "Arena option"
  le_order_map :: OrderRefMap
  le_meta :: "nat \<Rightarrow> SymbolMeta"
  stat_adds :: u64
  stat_executes :: u64
  stat_cancels :: u64
  stat_deletes :: u64
  stat_replaces :: u64
  stat_trades :: u64
  stat_rejected :: u64

text \<open>\<open>init\<close>; \<open>mapped\<close> is whether the reference map's memory was granted.\<close>

definition lob_init :: "bool \<Rightarrow> Arena \<Rightarrow> LOBEngine \<Rightarrow> bool \<times> LOBEngine" where
  "lob_init mapped arena e =
     (if \<not> ar_initialised arena then (False, e)
      else (let e1 = e\<lparr>le_arena := Some arena\<rparr> in
            case om_init mapped (le_order_map e1) of
              (False, m) \<Rightarrow> (False, e1\<lparr>le_order_map := m\<rparr>)
            | (True, m) \<Rightarrow>
                (True, e1\<lparr>le_order_map := m, le_meta := (\<lambda>_. empty_meta), stat_adds := 0,
                   stat_executes := 0, stat_cancels := 0, stat_deletes := 0, stat_replaces := 0,
                   stat_trades := 0, stat_rejected := 0\<rparr>)))"

definition lob_teardown :: "LOBEngine \<Rightarrow> LOBEngine" where
  "lob_teardown e = e\<lparr>le_order_map := om_teardown (le_order_map e), le_arena := None\<rparr>"

text \<open>\<open>_arena->level(symb, side, i)\<close> and a store to it.\<close>

definition lv :: "LOBEngine \<Rightarrow> nat \<Rightarrow> nat \<Rightarrow> nat \<Rightarrow> PriceLevel" where
  "lv e symb side i = level (the (le_arena e)) symb side i"

definition put_lv :: "nat \<Rightarrow> nat \<Rightarrow> nat \<Rightarrow> PriceLevel \<Rightarrow> LOBEngine \<Rightarrow> LOBEngine" where
  "put_lv symb side i l e = e\<lparr>le_arena := map_option (set_level symb side i l) (le_arena e)\<rparr>"

definition level_count :: "LOBEngine \<Rightarrow> nat \<Rightarrow> nat \<Rightarrow> nat" where
  "level_count e symb side =
     (if side = 0 then bid_levels (le_meta e symb) else ask_levels (le_meta e symb))"

definition set_level_count :: "nat \<Rightarrow> nat \<Rightarrow> nat \<Rightarrow> LOBEngine \<Rightarrow> LOBEngine" where
  "set_level_count symb side n e =
     e\<lparr>le_meta := (le_meta e)(symb :=
        (if side = 0 then (le_meta e symb)\<lparr>bid_levels := n\<rparr> else (le_meta e symb)\<lparr>ask_levels := n\<rparr>))\<rparr>"

definition reject :: "LOBEngine \<Rightarrow> LOBEngine" where
  "reject e = e\<lparr>stat_rejected := stat_rejected e + 1\<rparr>"

section \<open>Price levels\<close>

text \<open>The binary search of \<open>find_level\<close>; bids descend, asks ascend.\<close>

function find_level_loop :: "LOBEngine \<Rightarrow> nat \<Rightarrow> nat \<Rightarrow> int \<Rightarrow> int \<Rightarrow> int \<Rightarrow> int" where
  "find_level_loop e symb side price low high =
     (if low \<le> high then
        (let mid = low + (high - low) div 2;
             mp = lvl_price (lv e symb side (nat mid))
         in if mp = price then mid
            else if (if side = 0 then mp < price else mp > price)
            then find_level_loop e symb side price low (mid - 1)
            else find_level_loop e symb side price (mid + 1) high)
      else -1)"
  by pat_completeness auto
termination
  by (relation "measure (\<lambda>(e, symb, side, price, low, high). nat (high + 1 - low))") auto

declare find_level_loop.simps [simp del]

definition find_level :: "LOBEngine \<Rightarrow> nat \<Rightarrow> nat \<Rightarrow> int \<Rightarrow> int" where
  "find_level e symb side price =
     (let count = level_count e symb side in
      if count = 0 then -1 else find_level_loop e symb side price 0 (int count - 1))"

text \<open>\<open>memmove\<close> of \<open>n\<close> levels of one side from index \<open>src\<close> to index \<open>dst\<close>.\<close>

definition move_levels :: "nat \<Rightarrow> nat \<Rightarrow> nat \<Rightarrow> nat \<Rightarrow> nat \<Rightarrow> LOBEngine \<Rightarrow> LOBEngine" where
  "move_levels symb side dst src n e =
     e\<lparr>le_arena := map_option (\<lambda>a. a\<lparr>lob_flat := (\<lambda>k.
         if level_index symb side dst \<le> k \<and> k < level_index symb side dst + n
         then lob_flat a (level_index symb side src + (k - level_index symb side dst))
         else lob_flat a k)\<rparr>) (le_arena e)\<rparr>"

definition refresh_slot :: "nat \<Rightarrow> nat \<Rightarrow> nat \<Rightarrow> nat \<Rightarrow> LOBEngine \<Rightarrow> LOBEngine" where
  "refresh_slot symb side level_idx slot_idx e =
     (let slot = lvl_orders (lv e symb side level_idx) ! slot_idx in
      if \<not> is_active slot then e
      else case om_lookup (le_order_map e) (slot_order_id slot) of
             None \<Rightarrow> e
           | Some _ \<Rightarrow> e\<lparr>le_order_map := om_update (le_order_map e) (slot_order_id slot)
               \<lparr>loc_symbol_idx = symb, loc_side = side, loc_level_idx = level_idx,
                loc_slot_idx = int slot_idx\<rparr>\<rparr>)"

definition refresh_level_locations :: "nat \<Rightarrow> nat \<Rightarrow> nat \<Rightarrow> nat \<Rightarrow> LOBEngine \<Rightarrow> LOBEngine" where
  "refresh_level_locations symb side first_lvl last_lvl e =
     (if last_lvl < first_lvl then e
      else fold (\<lambda>level_idx. fold (refresh_slot symb side level_idx) [0..<kMaxOrdersPerLevel])
             [first_lvl..<Suc last_lvl] e)"

definition remove_level_if_empty :: "nat \<Rightarrow> nat \<Rightarrow> nat \<Rightarrow> LOBEngine \<Rightarrow> LOBEngine" where
  "remove_level_if_empty symb side lvl_idx e =
     (if lvl_order_count (lv e symb side lvl_idx) > 0 then e
      else if level_count e symb side = 0 then e
      else
        (let last = level_count e symb side - 1;
             e1 = (if lvl_idx < last then
                     refresh_level_locations symb side lvl_idx (last - 1)
                       (move_levels symb side lvl_idx (lvl_idx + 1) (last - lvl_idx) e)
                   else e);
             e2 = put_lv symb side last (reset_level (lv e1 symb side last)) e1
         in set_level_count symb side last e2))"

definition insert_position :: "LOBEngine \<Rightarrow> nat \<Rightarrow> nat \<Rightarrow> int \<Rightarrow> nat" where
  "insert_position e symb side price =
     (let count = level_count e symb side in
      case find (\<lambda>i. let lp = lvl_price (lv e symb side i) in
                     if side = 0 then price > lp else price < lp) [0..<count] of
        None \<Rightarrow> count
      | Some i \<Rightarrow> i)"

definition insert_level_impl :: "LOBEngine \<Rightarrow> nat \<Rightarrow> nat \<Rightarrow> int \<Rightarrow> int \<times> LOBEngine" where
  "insert_level_impl e symb side price =
     (let count = level_count e symb side in
      if count \<ge> kLevelsPerSide then (-1, e)
      else
        (let insert_pos = insert_position e symb side price;
             e1 = (if insert_pos < count then
                     refresh_level_locations symb side (insert_pos + 1) count
                       (move_levels symb side (insert_pos + 1) insert_pos (count - insert_pos) e)
                   else e);
             e2 = put_lv symb side insert_pos
                    ((reset_level (lv e1 symb side insert_pos))\<lparr>lvl_price := price\<rparr>) e1
         in (int insert_pos, set_level_count symb side (count + 1) e2)))"

section \<open>Handlers\<close>

definition clamped_qty :: "int \<Rightarrow> int \<Rightarrow> int" where
  "clamped_qty requested available =
     (if requested \<le> 0 \<or> available \<le> 0 then 0
      else if requested < available then requested else available)"

definition valid_location :: "LOBEngine \<Rightarrow> u64 \<Rightarrow> OrderLocation \<Rightarrow> bool" where
  "valid_location e order_ref loc \<longleftrightarrow>
     \<not> (loc_symbol_idx loc \<ge> kSymbols \<or> loc_side loc > 1 \<or>
        loc_level_idx loc \<ge> level_count e (loc_symbol_idx loc) (loc_side loc) \<or>
        loc_slot_idx loc < 0 \<or> loc_slot_idx loc \<ge> int kMaxOrdersPerLevel) \<and>
     (let lvl = lv e (loc_symbol_idx loc) (loc_side loc) (loc_level_idx loc);
          slot = lvl_orders lvl ! nat (loc_slot_idx loc)
      in is_active slot \<and> slot_order_id slot = order_ref \<and> slot_qty slot \<ge> 0 \<and>
         lvl_total_qty lvl \<ge> 0 \<and> lvl_order_count lvl > 0)"

text \<open>
  The block that the add and the replace handler share: find or create the level, take a slot,
  link it, update the aggregates and register the reference, undoing everything when a step
  fails.  \<open>None\<close> only if the walk to the tail of the level's list does not end.
\<close>

datatype PlaceResult = Placed | NoLevel | NoSlot | QtyOverflow | MapRefused

definition place_in_level ::
    "LOBEngine \<Rightarrow> nat \<Rightarrow> nat \<Rightarrow> nat \<Rightarrow> u64 \<Rightarrow> int \<Rightarrow> (LOBEngine \<times> PlaceResult) option" where
  "place_in_level e symb side li ref qty =
     (let lvl = lv e symb side li in
      case alloc_slot lvl of
        None \<Rightarrow> Some (e, NoSlot)
      | Some slot_idx \<Rightarrow>
          (case link_slot (init_slot slot_idx ref qty side lvl) slot_idx of
             None \<Rightarrow> None
           | Some l1 \<Rightarrow>
               (case checked_add (lvl_total_qty l1) qty of
                  None \<Rightarrow>
                    Some (remove_level_if_empty symb side li
                            (put_lv symb side li (drop_slot l1 slot_idx) e), QtyOverflow)
                | Some new_total_qty \<Rightarrow>
                    (let l2 = l1\<lparr>lvl_total_qty := new_total_qty,
                                 lvl_order_count := lvl_order_count l1 + 1\<rparr>;
                         e2 = put_lv symb side li l2 e;
                         loc = \<lparr>loc_symbol_idx = symb, loc_side = side, loc_level_idx = li,
                                loc_slot_idx = int slot_idx\<rparr>
                     in case om_insert (le_order_map e2) ref loc of
                          (True, m) \<Rightarrow> Some (e2\<lparr>le_order_map := m\<rparr>, Placed)
                        | (False, m) \<Rightarrow>
                            (let dl = drop_slot l2 slot_idx;
                                 l3 = dl\<lparr>lvl_total_qty := s64 (lvl_total_qty dl - qty),
                                         lvl_order_count := lvl_order_count dl - 1\<rparr>
                             in Some (remove_level_if_empty symb side li
                                  (put_lv symb side li l3 (e2\<lparr>le_order_map := m\<rparr>)), MapRefused))))))"

definition place_order ::
    "LOBEngine \<Rightarrow> nat \<Rightarrow> nat \<Rightarrow> u64 \<Rightarrow> int \<Rightarrow> int \<Rightarrow> (LOBEngine \<times> PlaceResult) option" where
  "place_order e0 symb side ref qty price =
     (let found = find_level e0 symb side price;
          (lvl_idx, e) = (if found < 0 then insert_level_impl e0 symb side price else (found, e0))
      in if lvl_idx < 0 then Some (e, NoLevel)
         else place_in_level e symb side (nat lvl_idx) ref qty)"

text \<open>The tail of the handlers that remove an order, once its level has been updated.\<close>

definition forget_order :: "u64 \<Rightarrow> OrderLocation \<Rightarrow> LOBEngine \<Rightarrow> LOBEngine" where
  "forget_order ref loc e =
     remove_level_if_empty (loc_symbol_idx loc) (loc_side loc) (loc_level_idx loc)
       (e\<lparr>le_order_map := om_remove (le_order_map e) ref\<rparr>)"

text \<open>The body that execute and cancel share once the location is valid.\<close>

definition reduce_order :: "LOBEngine \<Rightarrow> u64 \<Rightarrow> OrderLocation \<Rightarrow> int \<Rightarrow> LOBEngine" where
  "reduce_order e ref loc qty =
     (let symb = loc_symbol_idx loc; side = loc_side loc; li = loc_level_idx loc;
          k = nat (loc_slot_idx loc); lvl = lv e symb side li;
          delta = clamped_qty qty (slot_qty (lvl_orders lvl ! k));
          l1 = (set_slot k (\<lambda>s. s\<lparr>slot_qty := s64 (slot_qty s - delta)\<rparr>) lvl)
                 \<lparr>lvl_total_qty := s64 (lvl_total_qty lvl - delta)\<rparr>
      in
      if slot_qty (lvl_orders l1 ! k) \<le> 0 then
        (let d = drop_slot l1 k; l2 = d\<lparr>lvl_order_count := lvl_order_count d - 1\<rparr>
         in forget_order ref loc (put_lv symb side li l2 e))
      else put_lv symb side li l1 e)"

text \<open>The body that delete and replace share once the location is valid.\<close>

definition erase_order :: "LOBEngine \<Rightarrow> u64 \<Rightarrow> OrderLocation \<Rightarrow> LOBEngine" where
  "erase_order e ref loc =
     (let symb = loc_symbol_idx loc; side = loc_side loc; li = loc_level_idx loc;
          k = nat (loc_slot_idx loc); lvl = lv e symb side li;
          l1 = lvl\<lparr>lvl_total_qty := s64 (lvl_total_qty lvl -
                     clamped_qty (slot_qty (lvl_orders lvl ! k)) (lvl_total_qty lvl))\<rparr>;
          d = drop_slot l1 k;
          l2 = d\<lparr>lvl_order_count := lvl_order_count d - 1\<rparr>
      in forget_order ref loc (put_lv symb side li l2 e))"

definition on_add_order :: "LOBEngine \<Rightarrow> TickMsg \<Rightarrow> LOBEngine option" where
  "on_add_order e0 tick =
     (let e = e0\<lparr>stat_adds := stat_adds e0 + 1\<rparr> in
      if om_lookup (le_order_map e) (tk_order_ref tick) \<noteq> None then Some (reject e)
      else
        (let side = (if tk_flags tick AND kBuy \<noteq> 0 then 0 else 1) in
         case place_order e (tk_symbol_idx tick) side (tk_order_ref tick) (tk_qty tick) (tk_price tick) of
           None \<Rightarrow> None
         | Some (e', Placed) \<Rightarrow> Some e'
         | Some (e', _) \<Rightarrow> Some (reject e')))"

definition on_order_executed :: "LOBEngine \<Rightarrow> TickMsg \<Rightarrow> LOBEngine" where
  "on_order_executed e0 tick =
     (let e = e0\<lparr>stat_executes := stat_executes e0 + 1\<rparr> in
      case om_lookup (le_order_map e) (tk_order_ref tick) of
        None \<Rightarrow> e
      | Some loc \<Rightarrow>
          if \<not> valid_location e (tk_order_ref tick) loc then e
          else reduce_order e (tk_order_ref tick) loc (tk_qty tick))"

definition on_order_cancel :: "LOBEngine \<Rightarrow> TickMsg \<Rightarrow> LOBEngine" where
  "on_order_cancel e0 tick =
     (let e = e0\<lparr>stat_cancels := stat_cancels e0 + 1\<rparr> in
      case om_lookup (le_order_map e) (tk_order_ref tick) of
        None \<Rightarrow> e
      | Some loc \<Rightarrow>
          if \<not> valid_location e (tk_order_ref tick) loc then e
          else reduce_order e (tk_order_ref tick) loc (tk_qty tick))"

definition on_order_delete :: "LOBEngine \<Rightarrow> TickMsg \<Rightarrow> LOBEngine" where
  "on_order_delete e0 tick =
     (let e = e0\<lparr>stat_deletes := stat_deletes e0 + 1\<rparr> in
      case om_lookup (le_order_map e) (tk_order_ref tick) of
        None \<Rightarrow> e
      | Some loc \<Rightarrow>
          if \<not> valid_location e (tk_order_ref tick) loc then e
          else erase_order e (tk_order_ref tick) loc)"

definition on_order_replace :: "LOBEngine \<Rightarrow> TickMsg \<Rightarrow> LOBEngine option" where
  "on_order_replace e0 tick =
     (let e = e0\<lparr>stat_replaces := stat_replaces e0 + 1\<rparr> in
      case om_lookup (le_order_map e) (tk_order_ref tick) of
        None \<Rightarrow> Some (reject e)
      | Some orig_loc \<Rightarrow>
          if \<not> valid_location e (tk_order_ref tick) orig_loc then Some (reject e)
          else if \<not> om_can_insert (le_order_map e) (tk_match_num tick) then Some (reject e)
          else
            (case place_order (erase_order e (tk_order_ref tick) orig_loc)
                    (loc_symbol_idx orig_loc) (loc_side orig_loc)
                    (tk_match_num tick) (tk_qty tick) (tk_price tick) of
               None \<Rightarrow> None
             | Some (e', Placed) \<Rightarrow> Some e'
             | Some (e', MapRefused) \<Rightarrow> Some e'
             | Some (e', _) \<Rightarrow> Some (reject e')))"

definition on_trade :: "LOBEngine \<Rightarrow> TickMsg \<Rightarrow> LOBEngine" where
  "on_trade e tick = e\<lparr>stat_trades := stat_trades e + 1\<rparr>"

definition process_unlocked :: "LOBEngine \<Rightarrow> TickMsg \<Rightarrow> LOBEngine option" where
  "process_unlocked e0 tick =
     (if tk_symbol_idx tick \<ge> kSymbols then Some (reject e0)
      else
        (let symb = tk_symbol_idx tick;
             e = (if tk_timestamp tick > 0
                  then e0\<lparr>le_meta := (le_meta e0)(symb := (le_meta e0 symb)\<lparr>last_timestamp_ns := tk_timestamp tick\<rparr>)\<rparr>
                  else e0);
             t = tk_msg_type tick
         in
         if t = kAddOrder \<or> t = kAddOrderMPID then
           (if tk_order_ref tick = 0 \<or> \<not> is_valid_quantity (tk_qty tick) \<or> \<not> is_valid_price (tk_price tick)
            then Some (reject e) else on_add_order e tick)
         else if t = kOrderExecuted \<or> t = kOrderExecPrice then
           (if tk_order_ref tick = 0 \<or> \<not> is_valid_quantity (tk_qty tick)
            then Some (reject e) else Some (on_order_executed e tick))
         else if t = kOrderCancel then
           (if tk_order_ref tick = 0 \<or> \<not> is_valid_quantity (tk_qty tick)
            then Some (reject e) else Some (on_order_cancel e tick))
         else if t = kOrderDelete then
           (if tk_order_ref tick = 0 then Some (reject e) else Some (on_order_delete e tick))
         else if t = kOrderReplace then
           (if tk_order_ref tick = 0 \<or> tk_match_num tick = 0 \<or> tk_order_ref tick = tk_match_num tick \<or>
               \<not> is_valid_quantity (tk_qty tick) \<or> \<not> is_valid_price (tk_price tick)
            then Some (reject e) else on_order_replace e tick)
         else if t = kTrade then
           (if \<not> is_valid_quantity (tk_qty tick) \<or> \<not> is_valid_price (tk_price tick)
            then Some (reject e) else Some (on_trade e tick))
         else Some (reject e)))"

text \<open>\<open>process\<close> is \<open>process_unlocked\<close> under the writer lock; a run of the feed:\<close>

primrec process_all :: "LOBEngine \<Rightarrow> TickMsg list \<Rightarrow> LOBEngine option" where
  "process_all e [] = Some e"
| "process_all e (t # ts) = (case process_unlocked e t of None \<Rightarrow> None | Some e' \<Rightarrow> process_all e' ts)"

section \<open>Queries\<close>

definition best_bid_price :: "LOBEngine \<Rightarrow> nat \<Rightarrow> int" where
  "best_bid_price e symb =
     (if symb \<ge> kSymbols then 0 else if bid_levels (le_meta e symb) = 0 then 0
      else lvl_price (lv e symb 0 0))"

definition best_ask_price :: "LOBEngine \<Rightarrow> nat \<Rightarrow> int" where
  "best_ask_price e symb =
     (if symb \<ge> kSymbols then 0 else if ask_levels (le_meta e symb) = 0 then 0
      else lvl_price (lv e symb 1 0))"

definition mid_price :: "LOBEngine \<Rightarrow> nat \<Rightarrow> int" where
  "mid_price e symb =
     (if symb \<ge> kSymbols then 0
      else (let bid = best_bid_price e symb; ask = best_ask_price e symb in
            if bid = 0 \<or> ask = 0 then 0 else s64 (bid + ask) sdiv 2))"

definition spread :: "LOBEngine \<Rightarrow> nat \<Rightarrow> int" where
  "spread e symb =
     (if symb \<ge> kSymbols then 0
      else (let bid = best_bid_price e symb; ask = best_ask_price e symb in
            if bid = 0 \<or> ask = 0 then 0 else s64 (ask - bid)))"

definition depth_qty :: "LOBEngine \<Rightarrow> nat \<Rightarrow> nat \<Rightarrow> nat \<Rightarrow> int" where
  "depth_qty e symb side n =
     foldl (\<lambda>acc i. s64 (acc + lvl_total_qty (lv e symb side i))) 0 [0..<n]"

definition bid_depth_qty :: "LOBEngine \<Rightarrow> nat \<Rightarrow> nat \<Rightarrow> int" where
  "bid_depth_qty e symb levels =
     (if symb \<ge> kSymbols then 0
      else depth_qty e symb 0 (if levels < bid_levels (le_meta e symb) then levels else bid_levels (le_meta e symb)))"

definition ask_depth_qty :: "LOBEngine \<Rightarrow> nat \<Rightarrow> nat \<Rightarrow> int" where
  "ask_depth_qty e symb levels =
     (if symb \<ge> kSymbols then 0
      else depth_qty e symb 1 (if levels < ask_levels (le_meta e symb) then levels else ask_levels (le_meta e symb)))"

definition is_crossed :: "LOBEngine \<Rightarrow> nat \<Rightarrow> bool" where
  "is_crossed e symb =
     (if symb \<ge> kSymbols then False
      else (let bid = best_bid_price e symb; ask = best_ask_price e symb in
            bid > 0 \<and> ask > 0 \<and> bid \<ge> ask))"

definition is_stale :: "LOBEngine \<Rightarrow> nat \<Rightarrow> u64 \<Rightarrow> u64 \<Rightarrow> bool" where
  "is_stale e symb now_ns timeout_ns =
     (if symb \<ge> kSymbols then True
      else (let last = last_timestamp_ns (le_meta e symb) in
            if last = 0 then False else now_ns > last \<and> now_ns - last > timeout_ns))"

definition active_order_count :: "LOBEngine \<Rightarrow> u32" where
  "active_order_count e = om_count (le_order_map e)"

end
