(* ===== verification/LOB_Structure.thy ===== *)
theory LOB_Structure
  imports LOB
begin

text \<open>
  Structural lemmas about \<open>LOBEngine\<close>: the levels of a side as a list, what stores, \<open>memmove\<close>,
  level insertion and level removal do to that list, and that the order reference map stays
  consistent with the slots while levels shift.
\<close>

section \<open>The levels of a side\<close>

definition side_levels :: "LOBEngine \<Rightarrow> nat \<Rightarrow> nat \<Rightarrow> PriceLevel list" where
  "side_levels e s d = map (lv e s d) [0..<level_count e s d]"

text \<open>The arena is attached, level counts fit, and every level has its sixteen slots.\<close>

definition arena_ok :: "LOBEngine \<Rightarrow> bool" where
  "arena_ok e \<longleftrightarrow> le_arena e \<noteq> None \<and>
     (\<forall>s<kSymbols. \<forall>d<2. level_count e s d \<le> kLevelsPerSide \<and>
        (\<forall>i<kLevelsPerSide. length (lvl_orders (lv e s d i)) = kMaxOrdersPerLevel))"

lemma length_side_levels [simp]: "length (side_levels e s d) = level_count e s d"
  by (simp add: side_levels_def)

lemma nth_side_levels [simp]: "i < level_count e s d \<Longrightarrow> side_levels e s d ! i = lv e s d i"
  by (simp add: side_levels_def)

lemma arena_okD:
  assumes "arena_ok e"
  shows "le_arena e \<noteq> None" "s < 512 \<Longrightarrow> d < 2 \<Longrightarrow> level_count e s d \<le> 1024"
    "s < 512 \<Longrightarrow> d < 2 \<Longrightarrow> i < 1024 \<Longrightarrow> length (lvl_orders (lv e s d i)) = 16"
  using assms by (auto simp: arena_ok_def)

lemma lv_put_lv:
  assumes "le_arena e \<noteq> None" "d < 2" "d' < 2" "i < 1024" "i' < 1024"
  shows "lv (put_lv s d i l e) s' d' i' = (if s' = s \<and> d' = d \<and> i' = i then l else lv e s' d' i')"
  using assms by (auto simp: lv_def put_lv_def level_set_level)

lemma put_lv_fields [simp]:
  "level_count (put_lv s d i l e) = level_count e" "le_order_map (put_lv s d i l e) = le_order_map e"
  "le_meta (put_lv s d i l e) = le_meta e" "le_arena (put_lv s d i l e) = None \<longleftrightarrow> le_arena e = None"
  by (simp_all add: put_lv_def level_count_def fun_eq_iff)

lemma row_index:
  fixes R R' dst n i :: nat
  assumes "dst + n \<le> 1024" "i < 1024"
  shows "R * 1024 + dst \<le> R' * 1024 + i \<and> R' * 1024 + i < R * 1024 + dst + n \<longleftrightarrow>
    R' = R \<and> dst \<le> i \<and> i < dst + n"
proof (rule linorder_cases [of R R'])
  assume "R < R'"
  then have "Suc R \<le> R'" by simp
  then have "R * 1024 + 1024 \<le> R' * 1024" by simp
  with assms \<open>R < R'\<close> show ?thesis by auto
next
  assume "R' < R"
  then have "Suc R' \<le> R" by simp
  then have "R' * 1024 + 1024 \<le> R * 1024" by simp
  with assms \<open>R' < R\<close> show ?thesis by auto
qed auto

lemma lv_move_levels:
  assumes a: "le_arena e \<noteq> None" and d: "d < 2" "d' < 2" and n: "dst + n \<le> 1024" and i': "i' < 1024"
  shows "lv (move_levels s d dst src n e) s' d' i' =
    (if s' = s \<and> d' = d \<and> dst \<le> i' \<and> i' < dst + n then lv e s d (src + (i' - dst)) else lv e s' d' i')"
proof -
  obtain ar where ar: "le_arena e = Some ar" using a by blast
  have rows: "s' * 2 + d' = s * 2 + d \<longleftrightarrow> s' = s \<and> d' = d" using d by presburger
  have "level_index s d dst \<le> level_index s' d' i' \<and> level_index s' d' i' < level_index s d dst + n \<longleftrightarrow>
      s' = s \<and> d' = d \<and> dst \<le> i' \<and> i' < dst + n"
    unfolding level_index_def using row_index [OF n i', of "s * 2 + d" "s' * 2 + d'"] by (simp only: rows conj_assoc)
  moreover have "level_index s d src + (level_index s d i' - level_index s d dst) = level_index s d (src + (i' - dst))"
    if "dst \<le> i'"
    using that by (simp add: level_index_def)
  ultimately show ?thesis by (auto simp: lv_def level_def move_levels_def ar)
qed

lemma move_levels_fields [simp]:
  "level_count (move_levels s d dst src n e) = level_count e"
  "le_order_map (move_levels s d dst src n e) = le_order_map e"
  "le_meta (move_levels s d dst src n e) = le_meta e"
  "le_arena (move_levels s d dst src n e) = None \<longleftrightarrow> le_arena e = None"
  by (simp_all add: move_levels_def level_count_def fun_eq_iff)

lemma lv_map_update [simp]:
  "lv (e\<lparr>le_order_map := m\<rparr>) = lv e" "level_count (e\<lparr>le_order_map := m\<rparr>) = level_count e"
  by (simp_all add: lv_def level_count_def fun_eq_iff)

lemma side_levels_map_update [simp]:
  "side_levels (e\<lparr>le_order_map := m\<rparr>) = side_levels e" "arena_ok (e\<lparr>le_order_map := m\<rparr>) = arena_ok e"
  by (simp_all add: side_levels_def fun_eq_iff arena_ok_def)

lemma set_level_count_fields [simp]:
  "lv (set_level_count s d n e) = lv e" "le_order_map (set_level_count s d n e) = le_order_map e"
  "le_arena (set_level_count s d n e) = le_arena e"
  by (simp_all add: set_level_count_def lv_def fun_eq_iff)

lemma level_count_set:
  "d < 2 \<Longrightarrow> d' < 2 \<Longrightarrow> level_count (set_level_count s d n e) s' d' =
     (if s' = s \<and> d' = d then n else level_count e s' d')"
  by (auto simp: level_count_def set_level_count_def)

section \<open>Stores to one level\<close>

lemma side_levels_put:
  assumes "arena_ok e" "s < 512" "d < 2" "s' < 512" "d' < 2" "i < level_count e s d"
  shows "side_levels (put_lv s d i l e) s' d' =
    (if s' = s \<and> d' = d then (side_levels e s d)[i := l] else side_levels e s' d')"
proof -
  have i: "i < 1024" using arena_okD(2) [OF assms(1-3)] assms(6) by simp
  have c: "level_count e s' d' \<le> 1024" using arena_okD(2) [OF assms(1,4,5)] .
  show ?thesis
    using c i assms arena_okD(1) [OF assms(1)]
    by (intro nth_equalityI) (auto simp: lv_put_lv nth_list_update)
qed

lemma arena_ok_put:
  assumes "arena_ok e" "d < 2" "i < 1024" "length (lvl_orders l) = 16"
  shows "arena_ok (put_lv s d i l e)"
  using assms by (auto simp: arena_ok_def lv_put_lv)

section \<open>Refreshing locations\<close>

definition mk_loc :: "nat \<Rightarrow> nat \<Rightarrow> nat \<Rightarrow> nat \<Rightarrow> OrderLocation" where
  "mk_loc s d j k = \<lparr>loc_symbol_idx = s, loc_side = d, loc_level_idx = j, loc_slot_idx = int k\<rparr>"

lemma mk_loc_inject [simp]: "mk_loc s d j k = mk_loc s' d' j' k' \<longleftrightarrow> s = s' \<and> d = d' \<and> j = j' \<and> k = k'"
  by (auto simp: mk_loc_def)

text \<open>The (reference, location) pairs that a refresh writes, in order.\<close>

definition slot_update :: "LOBEngine \<Rightarrow> nat \<Rightarrow> nat \<Rightarrow> nat \<Rightarrow> nat \<Rightarrow> (u64 \<times> OrderLocation) list" where
  "slot_update e s d j k =
     (if is_active (lvl_orders (lv e s d j) ! k)
      then [(slot_order_id (lvl_orders (lv e s d j) ! k), mk_loc s d j k)] else [])"

definition level_updates :: "LOBEngine \<Rightarrow> nat \<Rightarrow> nat \<Rightarrow> nat \<Rightarrow> (u64 \<times> OrderLocation) list" where
  "level_updates e s d j = concat (map (slot_update e s d j) [0..<kMaxOrdersPerLevel])"

definition write_updates :: "(u64 \<times> OrderLocation) list \<Rightarrow> OrderRefMap \<Rightarrow> OrderRefMap" where
  "write_updates us m = fold (\<lambda>(r, l) m. om_update m r l) us m"

lemma write_updates_simps [simp]:
  "write_updates [] m = m" "write_updates (us @ vs) m = write_updates vs (write_updates us m)"
  by (simp_all add: write_updates_def)

lemma slot_update_map_update [simp]: "slot_update (e\<lparr>le_order_map := m\<rparr>) = slot_update e"
  by (simp add: slot_update_def fun_eq_iff)

lemma level_updates_map_update [simp]: "level_updates (e\<lparr>le_order_map := m\<rparr>) = level_updates e"
  by (simp add: level_updates_def fun_eq_iff)

lemma refresh_slot_eq:
  "refresh_slot s d j k e = e\<lparr>le_order_map := write_updates (slot_update e s d j k) (le_order_map e)\<rparr>"
  by (auto simp: refresh_slot_def Let_def write_updates_def om_update_def om_lookup_def mk_loc_def slot_update_def
      split: option.split)

lemma fold_refresh_slot:
  "fold (refresh_slot s d j) ks e =
     e\<lparr>le_order_map := write_updates (concat (map (slot_update e s d j) ks)) (le_order_map e)\<rparr>"
  by (induction ks arbitrary: e) (simp_all add: refresh_slot_eq)

lemma fold_refresh_level:
  "fold (\<lambda>j. fold (refresh_slot s d j) [0..<kMaxOrdersPerLevel]) js e =
     e\<lparr>le_order_map := write_updates (concat (map (level_updates e s d) js)) (le_order_map e)\<rparr>"
proof (induction js arbitrary: e)
  case Nil
  then show ?case by simp
next
  case (Cons j js)
  have "fold (refresh_slot s d j) [0..<kMaxOrdersPerLevel] e =
      e\<lparr>le_order_map := write_updates (level_updates e s d j) (le_order_map e)\<rparr>"
    by (simp only: fold_refresh_slot level_updates_def)
  with Cons show ?case by simp
qed

definition refresh_updates :: "LOBEngine \<Rightarrow> nat \<Rightarrow> nat \<Rightarrow> nat \<Rightarrow> nat \<Rightarrow> (u64 \<times> OrderLocation) list" where
  "refresh_updates e s d a b = concat (map (level_updates e s d) [a..<Suc b])"

lemma refresh_eq:
  "refresh_level_locations s d a b e =
     e\<lparr>le_order_map := write_updates (refresh_updates e s d a b) (le_order_map e)\<rparr>"
proof (cases "b < a")
  case True
  then show ?thesis by (simp add: refresh_level_locations_def refresh_updates_def write_updates_def)
next
  case False
  then show ?thesis
    unfolding refresh_level_locations_def refresh_updates_def by (simp only: fold_refresh_level if_False)
qed

lemma set_refresh_updates:
  "(r, l) \<in> set (refresh_updates e s d a b) \<longleftrightarrow>
     (\<exists>j k. a \<le> j \<and> j \<le> b \<and> active_id (lv e s d j) k = Some r \<and> l = mk_loc s d j k)"
proof -
  have "(r, l) \<in> set (slot_update e s d j k) \<longleftrightarrow> active_id (lv e s d j) k = Some r \<and> l = mk_loc s d j k"
    if "k < kMaxOrdersPerLevel" for j k
    using that by (auto simp: slot_update_def active_id_def)
  moreover have "k < kMaxOrdersPerLevel" if "active_id (lv e s d j) k = Some r" for j k
    using that by (simp add: active_id_def split: if_splits)
  moreover have "(r, l) \<in> set (level_updates e s d j) \<longleftrightarrow>
      (\<exists>k<kMaxOrdersPerLevel. (r, l) \<in> set (slot_update e s d j k))" for j
    by (simp only: level_updates_def set_concat set_map set_upt atLeast0LessThan) blast
  ultimately have "(r, l) \<in> set (level_updates e s d j) \<longleftrightarrow>
      (\<exists>k. active_id (lv e s d j) k = Some r \<and> l = mk_loc s d j k)" for j
    by blast
  moreover have "(r, l) \<in> set (refresh_updates e s d a b) \<longleftrightarrow>
      (\<exists>j. a \<le> j \<and> j \<le> b \<and> (r, l) \<in> set (level_updates e s d j))"
    by (simp only: refresh_updates_def set_concat set_map set_upt) (auto simp: less_Suc_eq_le)
  ultimately show ?thesis by blast
qed

lemma write_updates_spec:
  assumes "om_inv m" "\<And>r l. (r, l) \<in> set us \<Longrightarrow> om_lookup m r \<noteq> None"
  shows "om_inv (write_updates us m) \<and> om_lookup (write_updates us m) = om_lookup m ++ map_of (rev us) \<and>
    om_count (write_updates us m) = om_count m \<and> (\<forall>k. om_can_insert (write_updates us m) k = om_can_insert m k)"
  using assms
proof (induction us arbitrary: m)
  case Nil
  then show ?case by (simp add: write_updates_def)
next
  case (Cons x us)
  obtain r l where x: "x = (r, l)" by (cases x)
  let ?m = "om_update m r l"
  have inv: "om_inv ?m" and look: "om_lookup ?m = (om_lookup m)(r \<mapsto> l)"
    using om_update_spec [OF Cons.prems(1), of r l] Cons.prems(2) [of r l] by (auto simp: x)
  have cnt: "om_count ?m = om_count m" by (simp add: om_update_def om_set_value_def split: option.split)
  have "om_inv (write_updates us ?m) \<and> om_lookup (write_updates us ?m) = om_lookup ?m ++ map_of (rev us) \<and>
      om_count (write_updates us ?m) = om_count ?m \<and>
      (\<forall>k. om_can_insert (write_updates us ?m) k = om_can_insert ?m k)"
    by (rule Cons.IH [OF inv]) (use Cons.prems(2) in \<open>auto simp: look\<close>)
  note IH = this [unfolded look]
  have "(om_lookup m)(r \<mapsto> l) ++ map_of (rev us) = om_lookup m ++ map_of (rev us @ [(r, l)])"
    by (rule ext) (auto simp: map_add_def split: option.split)
  moreover have "write_updates (x # us) m = write_updates us ?m" by (simp add: write_updates_def x)
  moreover have "rev (x # us) = rev us @ [(r, l)]" by (simp add: x)
  ultimately show ?case using IH by (simp only: cnt can_insert_update) simp
qed

lemma write_updates_lookup:
  assumes inv: "om_inv m" and old: "\<And>r l. (r, l) \<in> set us \<Longrightarrow> om_lookup m r \<noteq> None"
    and fn: "\<And>r l l'. (r, l) \<in> set us \<Longrightarrow> (r, l') \<in> set us \<Longrightarrow> l = l'"
  shows "om_lookup (write_updates us m) r = Some l \<longleftrightarrow>
    (r, l) \<in> set us \<or> (\<forall>l'. (r, l') \<notin> set us) \<and> om_lookup m r = Some l"
proof (cases "map_of (rev us) r")
  case None
  then have "(r, l') \<notin> set us" for l' using weak_map_of_SomeI [of r l' "rev us"] by auto
  then show ?thesis using write_updates_spec [OF inv old] None by (simp add: map_add_def)
next
  case (Some l0)
  then have "(r, l0) \<in> set us" using map_of_SomeD [OF Some] by simp
  then have "(r, l) \<in> set us \<longleftrightarrow> l = l0" using fn by blast
  then show ?thesis using write_updates_spec [OF inv old] Some \<open>(r, l0) \<in> set us\<close> by (auto simp: map_add_def)
qed

section \<open>Consistency of the reference map\<close>

text \<open>The order that a location designates, if the location is inside the book.\<close>

definition loc_ref :: "LOBEngine \<Rightarrow> OrderLocation \<Rightarrow> u64 option" where
  "loc_ref e loc =
     (if loc_symbol_idx loc < kSymbols \<and> loc_side loc < 2 \<and> 0 \<le> loc_slot_idx loc \<and>
         loc_level_idx loc < level_count e (loc_symbol_idx loc) (loc_side loc)
      then active_id (side_levels e (loc_symbol_idx loc) (loc_side loc) ! loc_level_idx loc) (nat (loc_slot_idx loc))
      else None)"

definition map_ok :: "LOBEngine \<Rightarrow> bool" where
  "map_ok e \<longleftrightarrow> om_inv (le_order_map e) \<and>
     (\<forall>ref loc. om_lookup (le_order_map e) ref = Some loc \<longleftrightarrow> loc_ref e loc = Some ref)"

lemma map_okD:
  assumes "map_ok e"
  shows "om_inv (le_order_map e)" "om_lookup (le_order_map e) ref = Some loc \<longleftrightarrow> loc_ref e loc = Some ref"
  using assms by (simp_all add: map_ok_def)

lemma loc_ref_unique: "map_ok e \<Longrightarrow> loc_ref e l = Some r \<Longrightarrow> loc_ref e l' = Some r \<Longrightarrow> l = l'"
  using map_okD(2) [of e r l] map_okD(2) [of e r l'] by simp

lemma loc_ref_mk_loc:
  "loc_ref e (mk_loc s d j k) = (if s < 512 \<and> d < 2 \<and> j < level_count e s d
     then active_id (side_levels e s d ! j) k else None)"
  by (simp add: loc_ref_def mk_loc_def)

lemma loc_ref_cases:
  assumes "loc_ref e l = Some r"
  obtains s d j k where "l = mk_loc s d j k" "s < 512" "d < 2" "j < level_count e s d" "k < 16"
    "active_id (side_levels e s d ! j) k = Some r"
proof
  let ?s = "loc_symbol_idx l" and ?d = "loc_side l" and ?j = "loc_level_idx l" and ?k = "nat (loc_slot_idx l)"
  have c: "?s < 512 \<and> ?d < 2 \<and> 0 \<le> loc_slot_idx l \<and> ?j < level_count e ?s ?d"
    and a: "active_id (side_levels e ?s ?d ! ?j) ?k = Some r"
    using assms by (auto simp: loc_ref_def split: if_splits)
  then show "l = mk_loc ?s ?d ?j ?k" by (simp add: mk_loc_def)
  show "?s < 512" "?d < 2" "?j < level_count e ?s ?d" "active_id (side_levels e ?s ?d ! ?j) ?k = Some r"
    using a c by simp_all
  show "?k < 16" using a by (simp add: active_id_def split: if_splits)
qed

text \<open>
  Moving orders: \<open>M\<close> are the old locations whose orders move, \<open>U\<close> the updates written to the map.
\<close>

lemma map_ok_shift:
  assumes ok: "map_ok e" and inv: "om_inv (le_order_map e')"
    and upd: "\<And>r l. om_lookup (le_order_map e') r = Some l \<longleftrightarrow>
        (r, l) \<in> U \<or> (\<forall>l'. (r, l') \<notin> U) \<and> om_lookup (le_order_map e) r = Some l"
    and new: "\<And>r l. (r, l) \<in> U \<Longrightarrow> loc_ref e' l = Some r \<and> (\<exists>l0\<in>M. loc_ref e l0 = Some r)"
    and onto: "\<And>r l. loc_ref e' l = Some r \<Longrightarrow> (r, l) \<in> U \<or> loc_ref e l = Some r \<and> l \<notin> M"
    and keep: "\<And>r l. loc_ref e l = Some r \<Longrightarrow> l \<notin> M \<Longrightarrow> loc_ref e' l = Some r"
    and moved: "\<And>r l. loc_ref e l = Some r \<Longrightarrow> l \<in> M \<Longrightarrow> \<exists>l'. (r, l') \<in> U"
  shows "map_ok e'"
  unfolding map_ok_def
proof (intro conjI allI iffI)
  fix r l
  assume "om_lookup (le_order_map e') r = Some l"
  then show "loc_ref e' l = Some r"
    using new moved keep unfolding upd map_okD(2) [OF ok] by blast
next
  fix r l
  assume "loc_ref e' l = Some r"
  from onto [OF this] show "om_lookup (le_order_map e') r = Some l"
  proof
    assume "(r, l) \<in> U"
    then show ?thesis unfolding upd by blast
  next
    assume l: "loc_ref e l = Some r \<and> l \<notin> M"
    have "(r, l') \<notin> U" for l'
    proof
      assume "(r, l') \<in> U"
      with new obtain l0 where "l0 \<in> M" "loc_ref e l0 = Some r" by blast
      with l loc_ref_unique [OF ok, of l r l0] show False by blast
    qed
    with l show ?thesis unfolding upd map_okD(2) [OF ok] by blast
  qed
qed (rule inv)

section \<open>Inserting a level\<close>

definition fresh_level :: "int \<Rightarrow> PriceLevel" where
  "fresh_level price = \<lparr>lvl_orders = replicate kMaxOrdersPerLevel empty_slot, lvl_price = price,
     lvl_total_qty = 0, lvl_order_count = 0, lvl_head = -1\<rparr>"

lemma reset_level_fresh:
  assumes "length (lvl_orders l) = kMaxOrdersPerLevel"
  shows "(reset_level l)\<lparr>lvl_price := p\<rparr> = fresh_level p"
proof -
  have "map (\<lambda>_. empty_slot) (lvl_orders l) = replicate kMaxOrdersPerLevel empty_slot"
    unfolding map_replicate_const assms by (rule refl)
  then show ?thesis by (simp add: reset_level_def fresh_level_def)
qed

lemma fresh_level_wf:
  "level_wf (fresh_level p)" "level_queue (fresh_level p) = []" "active_id (fresh_level p) = Map.empty"
  "lvl_price (fresh_level p) = p" "length (lvl_orders (fresh_level p)) = kMaxOrdersPerLevel"
  "lvl_order_count (fresh_level p) = 0" "lvl_total_qty (fresh_level p) = 0"
proof -
  have len: "length (lvl_orders (fresh_level p)) = kMaxOrdersPerLevel" by (simp add: fresh_level_def)
  from reset_level_wf [OF this, of p] reset_level_fresh [OF this, of p]
  show "level_wf (fresh_level p)" "level_queue (fresh_level p) = []" "active_id (fresh_level p) = Map.empty"
    by simp_all
qed (simp_all add: fresh_level_def)

lemma insert_position_le: "insert_position e s d p \<le> level_count e s d"
  unfolding insert_position_def Let_def by (auto simp: find_upt_Some split: option.split)

text \<open>The engine after \<open>memmove\<close> and refresh, whether or not anything moved.\<close>

lemma move_levels_0: "move_levels s d dst src 0 e = e"
proof -
  have "(\<lambda>k. if level_index s d dst \<le> k \<and> k < level_index s d dst + 0
      then lob_flat a (level_index s d src + (k - level_index s d dst)) else lob_flat a k) = lob_flat a" for a :: Arena
    by (rule ext) auto
  then show ?thesis unfolding move_levels_def by (simp only:) (simp add: option.map_ident)
qed

lemma insert_level_impl_eq:
  assumes "level_count e s d < 1024" and p: "p = insert_position e s d price"
    and m: "m = move_levels s d (p + 1) p (level_count e s d - p) e"
    and e1: "e1 = m\<lparr>le_order_map := write_updates (refresh_updates m s d (p + 1) (level_count e s d)) (le_order_map e)\<rparr>"
  shows "insert_level_impl e s d price = (int p, set_level_count s d (level_count e s d + 1)
    (put_lv s d p ((reset_level (lv e1 s d p))\<lparr>lvl_price := price\<rparr>) e1))"
proof (cases "p < level_count e s d")
  case True
  then show ?thesis using assms(1)
    by (simp add: insert_level_impl_def Let_def p [symmetric] m [symmetric] refresh_eq e1) (simp add: m)
next
  case False
  then have pc: "p = level_count e s d" using insert_position_le [of e s d price] p by simp
  then have "m = e" by (simp add: m move_levels_0)
  moreover have "refresh_updates m s d (p + 1) (level_count e s d) = []" by (simp add: refresh_updates_def pc)
  ultimately have "e1 = e" by (simp add: e1)
  then show ?thesis using assms(1) False by (simp add: insert_level_impl_def Let_def p [symmetric])
qed

text \<open>What the client needs of an operation that rearranges the levels of one side.\<close>

definition side_changed :: "LOBEngine \<Rightarrow> LOBEngine \<Rightarrow> nat \<Rightarrow> nat \<Rightarrow> PriceLevel list \<Rightarrow> bool" where
  "side_changed e e' s d L \<longleftrightarrow> (\<forall>s'<kSymbols. \<forall>d'<2. side_levels e' s' d' =
     (if s' = s \<and> d' = d then L else side_levels e s' d'))"

lemma side_changedD:
  "side_changed e e' s d L \<Longrightarrow> s' < 512 \<Longrightarrow> d' < 2 \<Longrightarrow>
   side_levels e' s' d' = (if s' = s \<and> d' = d then L else side_levels e s' d')"
  by (simp add: side_changed_def)

lemma level_count_side: "level_count e s d = length (side_levels e s d)"
  by simp

text \<open>
  The two shifts have the same argument: \<open>f\<close> sends the new index of a moved level to its old one.
\<close>

lemma shift_map_ok:
  assumes ok: "map_ok e" and s: "s < 512" and d: "d < 2"
    and ch: "side_changed e e' s d L"
    and map: "le_order_map e' = write_updates us (le_order_map e)"
    and us: "\<And>r l. (r, l) \<in> set us \<longleftrightarrow>
        (\<exists>j k. j \<in> J \<and> active_id (side_levels e s d ! f j) k = Some r \<and> l = mk_loc s d j k)"
    and J: "\<And>j. j \<in> J \<Longrightarrow> j < length L \<and> f j < level_count e s d \<and> L ! j = side_levels e s d ! f j"
    and f: "inj_on f J"
    and rest: "\<And>j. j < length L \<Longrightarrow> j \<notin> J \<Longrightarrow> active_id (L ! j) = Map.empty \<or>
        j < level_count e s d \<and> j \<notin> f ` J \<and> L ! j = side_levels e s d ! j"
    and old: "\<And>j. j < level_count e s d \<Longrightarrow> j \<notin> f ` J \<Longrightarrow>
        active_id (side_levels e s d ! j) = Map.empty \<or> j < length L \<and> j \<notin> J \<and> L ! j = side_levels e s d ! j"
  shows "map_ok e'"
proof -
  define U where "U = set us"
  define M where "M = {mk_loc s d i k | i k. i \<in> f ` J}"
  have U: "(r, l) \<in> U \<longleftrightarrow> (\<exists>j k. j \<in> J \<and> active_id (side_levels e s d ! f j) k = Some r \<and> l = mk_loc s d j k)" for r l
    by (simp only: U_def us)
  have olduse: "loc_ref e (mk_loc s d (f j) k) = Some r" if "j \<in> J" "active_id (side_levels e s d ! f j) k = Some r" for j k r
    using that J [of j] s d by (simp add: loc_ref_mk_loc del: nth_side_levels)
  have inU: "om_lookup (le_order_map e) r \<noteq> None" if "(r, l) \<in> set us" for r l
  proof -
    from that obtain j k where "j \<in> J" "active_id (side_levels e s d ! f j) k = Some r" using us by blast
    from olduse [OF this] show ?thesis using map_okD(2) [OF ok] by (metis option.distinct(1))
  qed
  have fn: "l = l'" if "(r, l) \<in> set us" "(r, l') \<in> set us" for r l l'
  proof -
    from that obtain j k j' k' where l: "j \<in> J" "active_id (side_levels e s d ! f j) k = Some r" "l = mk_loc s d j k"
      "j' \<in> J" "active_id (side_levels e s d ! f j') k' = Some r" "l' = mk_loc s d j' k'" using us by blast
    then have "mk_loc s d (f j) k = mk_loc s d (f j') k'" using olduse loc_ref_unique [OF ok] by blast
    then have "f j = f j'" "k = k'" by simp_all
    with l f show ?thesis by (auto dest: inj_onD)
  qed
  have other: "loc_ref e' (mk_loc s' d' j k) = loc_ref e (mk_loc s' d' j k)" if "\<not> (s' = s \<and> d' = d)" for s' d' j k
    using that side_changedD [OF ch, of s' d'] by (auto simp: loc_ref_mk_loc level_count_side simp del: nth_side_levels length_side_levels)
  have this_side: "loc_ref e' (mk_loc s d j k) = (if j < length L then active_id (L ! j) k else None)" for j k
    using s d side_changedD [OF ch s d] by (auto simp: loc_ref_mk_loc level_count_side simp del: nth_side_levels length_side_levels)
  show ?thesis
  proof (rule map_ok_shift [OF ok, where U = U and M = M])
    show "om_inv (le_order_map e')" using write_updates_spec [OF map_okD(1) [OF ok] inU] by (simp add: map)
    show "om_lookup (le_order_map e') r = Some l \<longleftrightarrow>
        (r, l) \<in> U \<or> (\<forall>l'. (r, l') \<notin> U) \<and> om_lookup (le_order_map e) r = Some l" for r l
      unfolding map U_def by (rule write_updates_lookup [OF map_okD(1) [OF ok] inU fn])
    show "loc_ref e' l = Some r \<and> (\<exists>l0\<in>M. loc_ref e l0 = Some r)" if "(r, l) \<in> U" for r l
    proof -
      from that obtain j k where j: "j \<in> J" "active_id (side_levels e s d ! f j) k = Some r" "l = mk_loc s d j k"
        using U by blast
      have "loc_ref e' l = Some r" using J [OF j(1)] j by (simp add: this_side del: nth_side_levels)
      moreover have "mk_loc s d (f j) k \<in> M" using j(1) by (auto simp: M_def)
      ultimately show ?thesis using olduse [OF j(1,2)] by blast
    qed
    show "(r, l) \<in> U \<or> loc_ref e l = Some r \<and> l \<notin> M" if ref: "loc_ref e' l = Some r" for r l
    proof -
      obtain s' d' j k where l: "l = mk_loc s' d' j k" using loc_ref_cases [OF ref] by metis
      show ?thesis
      proof (cases "s' = s \<and> d' = d")
        case False
        then show ?thesis using ref other [OF False] by (auto simp: l M_def)
      next
        case True
        with ref l have j: "j < length L" "active_id (L ! j) k = Some r" by (simp_all add: this_side split: if_splits)
        show ?thesis
        proof (cases "j \<in> J")
          case True
          with j J [of j] l \<open>s' = s \<and> d' = d\<close> show ?thesis unfolding U by metis
        next
          case False
          with rest [OF j(1)] j have "j < level_count e s d" "j \<notin> f ` J" "L ! j = side_levels e s d ! j" by auto
          with j True l s d show ?thesis by (auto simp: loc_ref_mk_loc M_def simp del: nth_side_levels)
        qed
      qed
    qed
    show "loc_ref e' l = Some r" if ref: "loc_ref e l = Some r" and M: "l \<notin> M" for r l
    proof -
      obtain s' d' j k where l: "l = mk_loc s' d' j k" "j < level_count e s' d'"
        "active_id (side_levels e s' d' ! j) k = Some r" using loc_ref_cases [OF ref] by metis
      show ?thesis
      proof (cases "s' = s \<and> d' = d")
        case False
        then show ?thesis using ref other [OF False] by (simp add: l)
      next
        case True
        with M l have "j \<notin> f ` J" by (auto simp: M_def)
        with old [of j] l True show ?thesis by (auto simp: this_side simp del: nth_side_levels)
      qed
    qed
    show "\<exists>l'. (r, l') \<in> U" if ref: "loc_ref e l = Some r" and M: "l \<in> M" for r l
    proof -
      from M obtain j k where j: "j \<in> J" "l = mk_loc s d (f j) k" by (auto simp: M_def)
      with ref have "active_id (side_levels e s d ! f j) k = Some r"
        by (simp add: loc_ref_mk_loc split: if_splits del: nth_side_levels)
      with j(1) show ?thesis unfolding U by blast
    qed
  qed
qed

text \<open>What refreshing preserves besides consistency.\<close>

definition same_keys :: "OrderRefMap \<Rightarrow> OrderRefMap \<Rightarrow> bool" where
  "same_keys m m' \<longleftrightarrow> dom (om_lookup m') = dom (om_lookup m) \<and> om_count m' = om_count m \<and>
     (\<forall>k. om_can_insert m' k = om_can_insert m k)"

lemma same_keys_refl [simp]: "same_keys m m"
  by (simp add: same_keys_def)

lemma write_updates_same_keys:
  assumes "om_inv m" "\<And>r l. (r, l) \<in> set us \<Longrightarrow> om_lookup m r \<noteq> None"
  shows "same_keys m (write_updates us m)"
proof -
  have "dom (map_of (rev us)) \<subseteq> dom (om_lookup m)"
    using assms(2) by (auto simp: dom_map_of_conv_image_fst)
  then show ?thesis using write_updates_spec [OF assms] by (auto simp: same_keys_def)
qed

lemma insert_level_lv:
  assumes a: "arena_ok e" and s: "s < 512" "d < 2" and c: "level_count e s d < 1024"
    and res: "insert_level_impl e s d price = (pos, e')" and p: "p = insert_position e s d price"
    and i: "s' < 512" "d' < 2" "i < 1024"
  shows "lv e' s' d' i =
    (if s' = s \<and> d' = d \<and> i = p then fresh_level price
     else if s' = s \<and> d' = d \<and> p < i \<and> i \<le> level_count e s d then lv e s d (i - 1) else lv e s' d' i)"
proof -
  let ?c = "level_count e s d"
  have pc: "p \<le> ?c" using insert_position_le p by simp
  define m where "m = move_levels s d (p + 1) p (?c - p) e"
  define e1 where "e1 = m\<lparr>le_order_map := write_updates (refresh_updates m s d (p + 1) ?c) (le_order_map e)\<rparr>"
  have e': "e' = set_level_count s d (?c + 1)
      (put_lv s d p ((reset_level (lv e1 s d p))\<lparr>lvl_price := price\<rparr>) e1)"
    using insert_level_impl_eq [OF c p m_def e1_def] res by simp
  have lvm: "lv m s' d' i = (if s' = s \<and> d' = d \<and> p + 1 \<le> i \<and> i \<le> ?c then lv e s d (i - 1) else lv e s' d' i)"
    if "d' < 2" "i < 1024" for s' d' i
  proof -
    have "p + 1 + (?c - p) = ?c + 1" using pc by simp
    then show ?thesis
      unfolding m_def using lv_move_levels [OF arena_okD(1) [OF a] s(2) that(1), of "p + 1" "?c - p" i s p s'] c that(2)
      by (simp add: less_Suc_eq_le)
  qed
  have "lv e1 s d p = lv e s d p" using lvm [of d p s] s pc c by (simp add: e1_def)
  moreover have "length (lvl_orders (lv e s d p)) = kMaxOrdersPerLevel"
    using arena_okD(3) [OF a s, of p] pc c by simp
  ultimately have e': "e' = set_level_count s d (?c + 1) (put_lv s d p (fresh_level price) e1)"
    using reset_level_fresh [of "lv e1 s d p" price] e' by simp
  have "le_arena e1 \<noteq> None" using arena_okD(1) [OF a] by (simp add: e1_def m_def)
  then have "lv e' s' d' i = (if s' = s \<and> d' = d \<and> i = p then fresh_level price else lv m s' d' i)"
    using lv_put_lv [of e1 d d' p i s "fresh_level price" s'] s i pc c by (simp add: e' e1_def)
  with lvm [OF i(2,3)] show ?thesis by auto
qed

lemma insert_level_spec:
  assumes a: "arena_ok e" and ok: "map_ok e" and s: "s < 512" "d < 2" and c: "level_count e s d < 1024"
    and res: "insert_level_impl e s d price = (pos, e')" and p: "p = insert_position e s d price"
  shows "pos = int p" "arena_ok e'" "map_ok e'" "same_keys (le_order_map e) (le_order_map e')"
    "side_changed e e' s d (take p (side_levels e s d) @ fresh_level price # drop p (side_levels e s d))"
proof -
  let ?c = "level_count e s d" and ?L = "side_levels e s d"
  let ?L' = "take p ?L @ fresh_level price # drop p ?L"
  have pc: "p \<le> ?c" using insert_position_le p by simp
  define m where "m = move_levels s d (p + 1) p (?c - p) e"
  define us where "us = refresh_updates m s d (p + 1) ?c"
  have eq: "insert_level_impl e s d price = (int p, set_level_count s d (?c + 1)
    (put_lv s d p ((reset_level (lv (m\<lparr>le_order_map := write_updates us (le_order_map e)\<rparr>) s d p))\<lparr>lvl_price := price\<rparr>)
       (m\<lparr>le_order_map := write_updates us (le_order_map e)\<rparr>)))"
    using insert_level_impl_eq [OF c p m_def refl] unfolding us_def .
  show "pos = int p" using eq res by simp
  have map: "le_order_map e' = write_updates us (le_order_map e)" using eq res by auto
  have cnt: "level_count e' s' d' = (if s' = s \<and> d' = d then ?c + 1 else level_count e s' d')" if "d' < 2" for s' d'
    using eq res s that by (auto simp: level_count_set m_def)
  note lv' = insert_level_lv [OF a s c res p]
  show a': "arena_ok e'"
    unfolding arena_ok_def
  proof (intro conjI allI impI)
    show "le_arena e' \<noteq> None" using eq res arena_okD(1) [OF a] by (auto simp: m_def)
    show "level_count e' s' d' \<le> 1024" if "s' < 512" "d' < 2" for s' d'
      using cnt [OF that(2), of s'] c arena_okD(2) [OF a that] by auto
    show "length (lvl_orders (lv e' s' d' i)) = 16" if "s' < 512" "d' < 2" "i < 1024" for s' d' i
      using lv' [OF that] arena_okD(3) [OF a] s that c by (auto simp: fresh_level_wf)
  qed
  show ch: "side_changed e e' s d ?L'"
    unfolding side_changed_def
  proof (intro allI impI)
    fix s' d' :: nat assume sd: "s' < 512" "d' < 2"
    show "side_levels e' s' d' = (if s' = s \<and> d' = d then ?L' else side_levels e s' d')"
    proof (cases "s' = s \<and> d' = d")
      case True
      have "side_levels e' s d = ?L'"
        using cnt [OF s(2), of s] pc c s lv' [OF s]
        by (intro nth_equalityI) (auto simp: nth_append nth_Cons' min_def)
      with True show ?thesis by simp
    next
      case False
      then show ?thesis
        using cnt [OF sd(2), of s'] sd lv' [OF sd] arena_okD(2) [OF a sd] by (intro nth_equalityI) auto
    qed
  qed
  have lvm: "lv m s d j = lv e s d (j - 1)" if "p + 1 \<le> j" "j \<le> ?c" for j
    using lv_move_levels [OF arena_okD(1) [OF a] s(2) s(2), of "p + 1" "?c - p" j s p s] that c pc
    by (simp add: m_def less_Suc_eq_le)
  have us: "(r, l) \<in> set us \<longleftrightarrow>
      (\<exists>j k. j \<in> {p + 1..?c} \<and> active_id (?L ! (j - 1)) k = Some r \<and> l = mk_loc s d j k)" for r l
    unfolding us_def set_refresh_updates using lvm by (auto simp: atLeastAtMost_iff)
  show "map_ok e'"
  proof (rule shift_map_ok [OF ok s ch map us])
    show "j < length ?L' \<and> j - 1 < ?c \<and> ?L' ! j = ?L ! (j - 1)" if "j \<in> {p + 1..?c}" for j
      using that pc by (auto simp: nth_append nth_Cons' min_def)
    show "inj_on (\<lambda>j. j - 1) {p + 1..?c}" by (auto simp: inj_on_def)
    have img: "j \<in> (\<lambda>j. j - 1) ` {p + 1..?c} \<longleftrightarrow> p \<le> j \<and> j < ?c" for j
      by (auto intro!: image_eqI [of j _ "j + 1"])
    show "active_id (?L' ! j) = Map.empty \<or> j < ?c \<and> j \<notin> (\<lambda>j. j - 1) ` {p + 1..?c} \<and> ?L' ! j = ?L ! j"
      if "j < length ?L'" "j \<notin> {p + 1..?c}" for j
      unfolding img using that pc by (auto simp: nth_append nth_Cons' min_def fresh_level_wf)
    show "active_id (?L ! j) = Map.empty \<or> j < length ?L' \<and> j \<notin> {p + 1..?c} \<and> ?L' ! j = ?L ! j"
      if "j < ?c" "j \<notin> (\<lambda>j. j - 1) ` {p + 1..?c}" for j
      using that pc unfolding img by (auto simp: nth_append nth_Cons' min_def)
  qed
  show "same_keys (le_order_map e) (le_order_map e')"
    unfolding map
  proof (rule write_updates_same_keys [OF map_okD(1) [OF ok]])
    fix r l assume "(r, l) \<in> set us"
    then obtain j k where "j \<in> {p + 1..?c}" "active_id (?L ! (j - 1)) k = Some r" unfolding us by blast
    then have "loc_ref e (mk_loc s d (j - 1) k) = Some r" using s by (auto simp: loc_ref_mk_loc)
    then show "om_lookup (le_order_map e) r \<noteq> None" using map_okD(2) [OF ok] by (metis option.distinct(1))
  qed
qed

section \<open>Removing a level\<close>

lemma remove_level_eq:
  assumes cnt: "lvl_order_count (lv e s d i) \<le> 0" and c: "i < level_count e s d"
    and m: "m = move_levels s d i (i + 1) (level_count e s d - 1 - i) e"
    and us: "us = (if i < level_count e s d - 1 then refresh_updates m s d i (level_count e s d - 1 - 1) else [])"
    and e1: "e1 = m\<lparr>le_order_map := write_updates us (le_order_map e)\<rparr>"
  shows "remove_level_if_empty s d i e = set_level_count s d (level_count e s d - 1)
    (put_lv s d (level_count e s d - 1) (reset_level (lv e1 s d (level_count e s d - 1))) e1)"
proof (cases "i < level_count e s d - 1")
  case True
  then have "e1 = refresh_level_locations s d i (level_count e s d - 1 - 1) m"
    by (simp add: refresh_eq e1 us) (simp add: m)
  with True cnt c show ?thesis
    unfolding remove_level_if_empty_def Let_def m by (simp only: not_less [symmetric] if_False if_True) simp
next
  case False
  then have "e1 = e" using c by (simp add: e1 us m move_levels_0)
  with False cnt c show ?thesis by (simp add: remove_level_if_empty_def Let_def)
qed

lemma remove_level_keep:
  "lvl_order_count (lv e s d i) > 0 \<Longrightarrow> remove_level_if_empty s d i e = e"
  by (simp add: remove_level_if_empty_def)

lemma remove_level_spec:
  assumes a: "arena_ok e" and ok: "map_ok e" and s: "s < 512" "d < 2" and i: "i < level_count e s d"
    and cnt: "lvl_order_count (lv e s d i) \<le> 0" and empty: "active_id (lv e s d i) = Map.empty"
    and e': "e' = remove_level_if_empty s d i e"
  shows "arena_ok e'" "map_ok e'" "same_keys (le_order_map e) (le_order_map e')"
    "side_changed e e' s d (take i (side_levels e s d) @ drop (Suc i) (side_levels e s d))"
proof -
  let ?c = "level_count e s d" and ?L = "side_levels e s d"
  let ?t = "?c - 1" and ?L' = "take i ?L @ drop (Suc i) ?L"
  define m where "m = move_levels s d i (i + 1) (?c - 1 - i) e"
  define us where "us = (if i < ?c - 1 then refresh_updates m s d i (?c - 1 - 1) else [])"
  define e1 where "e1 = m\<lparr>le_order_map := write_updates us (le_order_map e)\<rparr>"
  have eq: "e' = set_level_count s d ?t (put_lv s d ?t (reset_level (lv e1 s d ?t)) e1)"
    unfolding e' by (rule remove_level_eq [OF cnt i m_def us_def e1_def])
  have map: "le_order_map e' = write_updates us (le_order_map e)" by (simp add: eq e1_def)
  have c: "?c \<le> 1024" using arena_okD(2) [OF a s] .
  have lvm: "lv m s' d' j = (if s' = s \<and> d' = d \<and> i \<le> j \<and> j < ?t then lv e s d (j + 1) else lv e s' d' j)"
    if "d' < 2" "j < 1024" for s' d' j
    using lv_move_levels [OF arena_okD(1) [OF a] s(2) that(1), of i "?c - 1 - i" j s "i + 1" s'] c i that(2)
    by (auto simp: m_def)
  have ar: "le_arena e1 \<noteq> None" using arena_okD(1) [OF a] by (simp add: e1_def m_def)
  have lv': "lv e' s' d' j = (if s' = s \<and> d' = d \<and> j = ?t then reset_level (lv m s d ?t) else lv m s' d' j)"
    if "d' < 2" "j < 1024" for s' d' j
    using lv_put_lv [OF ar s(2) that(1) _ that(2), of ?t s "reset_level (lv m s d ?t)" s'] c i
    by (simp add: eq e1_def)
  have cnt': "level_count e' s' d' = (if s' = s \<and> d' = d then ?t else level_count e s' d')" if "d' < 2" for s' d'
    using s that by (simp add: eq level_count_set e1_def m_def)
  show "arena_ok e'"
    unfolding arena_ok_def
  proof (intro conjI allI impI)
    show "le_arena e' \<noteq> None" using ar by (simp add: eq)
    show "level_count e' s' d' \<le> 1024" if "s' < 512" "d' < 2" for s' d'
      using cnt' [OF that(2), of s'] c arena_okD(2) [OF a that] by auto
    show "length (lvl_orders (lv e' s' d' j)) = 16" if "s' < 512" "d' < 2" "j < 1024" for s' d' j
      using lv' [OF that(2,3), of s'] lvm [OF that(2,3), of s'] lvm [of d ?t s] arena_okD(3) [OF a] s that c i
      by (auto simp: reset_level_def)
  qed
  show ch: "side_changed e e' s d ?L'"
    unfolding side_changed_def
  proof (intro allI impI)
    fix s' d' :: nat assume sd: "s' < 512" "d' < 2"
    show "side_levels e' s' d' = (if s' = s \<and> d' = d then ?L' else side_levels e s' d')"
    proof (cases "s' = s \<and> d' = d")
      case True
      have "side_levels e' s d = ?L'"
        using cnt' [OF s(2), of s] c i s lv' [OF s(2), of _ s] lvm [OF s(2), of _ s]
        by (intro nth_equalityI) (auto simp: nth_append min_def)
      with True show ?thesis by simp
    next
      case False
      then show ?thesis
        using cnt' [OF sd(2), of s'] lv' [OF sd(2), of _ s'] lvm [OF sd(2), of _ s'] arena_okD(2) [OF a sd]
        by (intro nth_equalityI) auto
    qed
  qed
  have us: "(r, l) \<in> set us \<longleftrightarrow>
      (\<exists>j k. j \<in> {i..<?t} \<and> active_id (?L ! Suc j) k = Some r \<and> l = mk_loc s d j k)" for r l
  proof (cases "i < ?t")
    case True
    have "lv m s d j = ?L ! Suc j" if "i \<le> j" "j \<le> ?c - 1 - 1" for j
      using lvm [OF s(2), of j s] that True c by auto
    moreover have "j \<le> ?c - 1 - 1 \<longleftrightarrow> j < ?t" for j using True by auto
    ultimately show ?thesis using True by (auto simp: us_def set_refresh_updates)
  qed (simp add: us_def)
  show "map_ok e'"
  proof (rule shift_map_ok [OF ok s ch map us])
    show "j < length ?L' \<and> Suc j < ?c \<and> ?L' ! j = ?L ! Suc j" if "j \<in> {i..<?t}" for j
      using that i by (auto simp: nth_append min_def)
    have img: "j \<in> Suc ` {i..<?t} \<longleftrightarrow> i < j \<and> j < ?c" for j
      using i by (cases j) auto
    show "active_id (?L' ! j) = Map.empty \<or> j < ?c \<and> j \<notin> Suc ` {i..<?t} \<and> ?L' ! j = ?L ! j"
      if "j < length ?L'" "j \<notin> {i..<?t}" for j
      unfolding img using that i by (auto simp: nth_append min_def)
    show "active_id (?L ! j) = Map.empty \<or> j < length ?L' \<and> j \<notin> {i..<?t} \<and> ?L' ! j = ?L ! j"
      if "j < ?c" "j \<notin> Suc ` {i..<?t}" for j
      using that i empty unfolding img by (cases "j = i") (auto simp: nth_append min_def)
  qed simp
  show "same_keys (le_order_map e) (le_order_map e')"
    unfolding map
  proof (rule write_updates_same_keys [OF map_okD(1) [OF ok]])
    fix r l assume "(r, l) \<in> set us"
    then obtain j k where "j \<in> {i..<?t}" "active_id (?L ! Suc j) k = Some r" unfolding us by blast
    then have "loc_ref e (mk_loc s d (Suc j) k) = Some r" using s by (auto simp: loc_ref_mk_loc)
    then show "om_lookup (le_order_map e) r \<noteq> None" using map_okD(2) [OF ok] by (metis option.distinct(1))
  qed
qed

section \<open>Binary search\<close>

definition before :: "nat \<Rightarrow> int \<Rightarrow> int \<Rightarrow> bool" where
  "before d p q \<longleftrightarrow> (if d = 0 then p > q else p < q)"

definition prices_sorted :: "nat \<Rightarrow> int list \<Rightarrow> bool" where
  "prices_sorted d ps \<longleftrightarrow> sorted_wrt (before d) ps"

lemma before_trans: "before d p q \<Longrightarrow> before d q r \<Longrightarrow> before d p r"
  by (auto simp: before_def split: if_splits)

lemma before_irrefl [simp]: "\<not> before d p p"
  by (simp add: before_def)

lemma before_total: "before d p q \<or> p = q \<or> before d q p"
  by (auto simp: before_def)

lemma find_level_loop_spec:
  assumes "0 \<le> low" "high < int (level_count e s d)"
    and "prices_sorted d (map lvl_price (side_levels e s d))"
  shows "let r = find_level_loop e s d price low high in
    (if r < 0 then r = -1 \<and> (\<forall>i. low \<le> int i \<and> int i \<le> high \<longrightarrow> lvl_price (lv e s d i) \<noteq> price)
     else nat r < level_count e s d \<and> lvl_price (lv e s d (nat r)) = price)"
  using assms
proof (induction e s d price low high rule: find_level_loop.induct)
  case (1 e s d price low high)
  let ?mid = "low + (high - low) div 2"
  let ?mp = "lvl_price (lv e s d (nat ?mid))"
  show ?case
  proof (cases "low \<le> high")
    case False
    then show ?thesis by (subst find_level_loop.simps) (simp add: Let_def)
  next
    case True
    have mid: "low \<le> ?mid" "?mid \<le> high" "nat ?mid < level_count e s d" "0 \<le> ?mid"
      using True "1.prems"(1,2) by auto
    have srt: "before d (lvl_price (lv e s d i)) (lvl_price (lv e s d j))" if "i < j" "j < level_count e s d" for i j
      using "1.prems"(3) that unfolding prices_sorted_def sorted_wrt_iff_nth_less by simp
    consider (hit) "?mp = price" | (left) "?mp \<noteq> price" "before d price ?mp"
      | (right) "?mp \<noteq> price" "\<not> before d price ?mp"
      by blast
    then show ?thesis
    proof cases
      case hit
      then show ?thesis using True mid by (subst find_level_loop.simps) (simp add: Let_def)
    next
      case left
      then have step: "find_level_loop e s d price low high = find_level_loop e s d price low (?mid - 1)"
        using True by (subst find_level_loop.simps) (auto simp: Let_def before_def split: if_splits)
      have side: "if d = 0 then ?mp < price else ?mp > price" using left by (auto simp: before_def split: if_splits)
      have miss: "lvl_price (lv e s d i) \<noteq> price" if "?mid \<le> int i" "int i \<le> high" for i
      proof (cases "int i = ?mid")
        case True
        then have "i = nat ?mid" by simp
        with left show ?thesis by simp
      next
        case False
        then have "nat ?mid < i" "i < level_count e s d" using that mid "1.prems"(2) by linarith+
        from srt [OF this] left before_trans [of d price ?mp "lvl_price (lv e s d i)"] show ?thesis by auto
      qed
      have "?mid - 1 < int (level_count e s d)" using mid by linarith
      from "1.IH"(1) [OF True refl refl left(1) side "1.prems"(1) this "1.prems"(3)]
      show ?thesis unfolding step Let_def using miss by (auto split: if_splits) (metis linorder_not_less zle_diff1_eq)
    next
      case right
      then have after: "before d ?mp price" using before_total [of d price ?mp] by auto
      have side: "\<not> (if d = 0 then ?mp < price else ?mp > price)" using right by (auto simp: before_def split: if_splits)
      have step: "find_level_loop e s d price low high = find_level_loop e s d price (?mid + 1) high"
        using True right(1) side by (subst find_level_loop.simps) (simp add: Let_def)
      have miss: "lvl_price (lv e s d i) \<noteq> price" if "low \<le> int i" "int i \<le> ?mid" for i
      proof (cases "int i = ?mid")
        case True
        then have "i = nat ?mid" by simp
        with right show ?thesis by simp
      next
        case False
        then have "i < nat ?mid" using that by linarith
        from srt [OF this mid(3)] after before_trans [of d "lvl_price (lv e s d i)" ?mp price] show ?thesis by auto
      qed
      have "0 \<le> ?mid + 1" using mid by linarith
      from "1.IH"(2) [OF True refl refl right(1) side this "1.prems"(2,3)]
      show ?thesis unfolding step Let_def using miss by (auto split: if_splits) (metis add1_zle_eq linorder_not_less)
    qed
  qed
qed

end
