(* ===== verification/LOB_Spec.thy ===== *)
theory LOB_Spec
  imports LOB_Structure
begin

text \<open>
  The order book as a specification: each side is a list of prices in priority order, each with
  its orders in time priority.  The theory proves that \<open>LOBEngine\<close> implements this book: every
  message keeps the engine's invariant, always returns, and has exactly the abstract effect.
\<close>

section \<open>Price-time priority books\<close>

type_synonym order_queue = "(u64 \<times> int) list"
type_synonym side_book = "(int \<times> order_queue) list"

text \<open>A new order joins the tail of its price, or opens the price at its place.\<close>

fun spec_add :: "nat \<Rightarrow> int \<Rightarrow> u64 \<times> int \<Rightarrow> side_book \<Rightarrow> side_book" where
  "spec_add d p x [] = [(p, [x])]"
| "spec_add d p x ((q, os) # bk) =
     (if q = p then (q, os @ [x]) # bk
      else if before d p q then (p, [x]) # (q, os) # bk
      else (q, os) # spec_add d p x bk)"

text \<open>Taking quantity from an order; an exhausted order leaves, and an emptied price with it.\<close>

definition spec_take_order :: "u64 \<Rightarrow> int \<Rightarrow> u64 \<times> int \<Rightarrow> order_queue" where
  "spec_take_order ref x o1 =
     (if fst o1 \<noteq> ref then [o1] else if x < snd o1 then [(ref, snd o1 - x)] else [])"

definition spec_take_queue :: "u64 \<Rightarrow> int \<Rightarrow> order_queue \<Rightarrow> order_queue" where
  "spec_take_queue ref x os = concat (map (spec_take_order ref x) os)"

definition spec_take :: "u64 \<Rightarrow> int \<Rightarrow> side_book \<Rightarrow> side_book" where
  "spec_take ref x bk = filter (\<lambda>(p, os). os \<noteq> []) (map (\<lambda>(p, os). (p, spec_take_queue ref x os)) bk)"

section \<open>Invariant and abstraction\<close>

definition side_book_of :: "PriceLevel list \<Rightarrow> side_book" where
  "side_book_of L = map (\<lambda>l. (lvl_price l, level_queue l)) L"

definition book :: "LOBEngine \<Rightarrow> nat \<Rightarrow> nat \<Rightarrow> side_book" where
  "book e s d = side_book_of (side_levels e s d)"

definition side_ok :: "nat \<Rightarrow> PriceLevel list \<Rightarrow> bool" where
  "side_ok d L \<longleftrightarrow> prices_sorted d (map lvl_price L) \<and> (\<forall>l\<in>set L. level_wf l \<and> is_valid_price (lvl_price l))"

definition lob_wf :: "LOBEngine \<Rightarrow> bool" where
  "lob_wf e \<longleftrightarrow> arena_ok e \<and> map_ok e \<and> (\<forall>s<kSymbols. \<forall>d<2. side_ok d (side_levels e s d))"

text \<open>The invariant of the engine between messages: moreover no level is empty.\<close>

definition lob_inv :: "LOBEngine \<Rightarrow> bool" where
  "lob_inv e \<longleftrightarrow> lob_wf e \<and> (\<forall>s<kSymbols. \<forall>d<2. \<forall>l\<in>set (side_levels e s d). level_queue l \<noteq> [])"

lemma lob_wfD:
  assumes "lob_wf e"
  shows "arena_ok e" "map_ok e" "s < 512 \<Longrightarrow> d < 2 \<Longrightarrow> side_ok d (side_levels e s d)"
  using assms by (simp_all add: lob_wf_def)

lemma lob_invD:
  assumes "lob_inv e"
  shows "lob_wf e" "s < 512 \<Longrightarrow> d < 2 \<Longrightarrow> l \<in> set (side_levels e s d) \<Longrightarrow> level_queue l \<noteq> []"
  using assms by (auto simp: lob_inv_def)

lemma lob_wf_changed:
  assumes "lob_wf e" "side_changed e e' s d L" "arena_ok e'" "map_ok e'" "side_ok d L"
  shows "lob_wf e'"
  using assms by (auto simp: lob_wf_def side_changed_def)

lemma lob_inv_changed:
  assumes inv: "\<And>s' d' l. s' < 512 \<Longrightarrow> d' < 2 \<Longrightarrow> \<not> (s' = s \<and> d' = d) \<Longrightarrow> l \<in> set (side_levels e s' d') \<Longrightarrow> level_queue l \<noteq> []"
    and "lob_wf e" "side_changed e e' s d L" "arena_ok e'" "map_ok e'" "side_ok d L"
    and ne: "\<And>l. l \<in> set L \<Longrightarrow> level_queue l \<noteq> []"
  shows "lob_inv e'"
  unfolding lob_inv_def
proof (intro conjI allI impI ballI)
  show "lob_wf e'" using assms(2-6) by (rule lob_wf_changed)
  fix s' d' l assume "s' < 512" "d' < (2::nat)" "l \<in> set (side_levels e' s' d')"
  then show "level_queue l \<noteq> []"
    using side_changedD [OF assms(3), of s' d'] inv [of s' d' l] ne [of l] by (auto split: if_splits)
qed

lemma side_changed_trans:
  "side_changed e e1 s d L1 \<Longrightarrow> side_changed e1 e2 s d L2 \<Longrightarrow> side_changed e e2 s d L2"
  by (simp add: side_changed_def)

lemma side_changed_map [simp]:
  "side_changed e (e'\<lparr>le_order_map := m\<rparr>) s d L = side_changed e e' s d L"
  "side_changed (e\<lparr>le_order_map := m\<rparr>) e' s d L = side_changed e e' s d L"
  by (simp_all add: side_changed_def)

lemma side_changed_put:
  assumes "arena_ok e" "s < 512" "d < 2" "i < level_count e s d"
  shows "side_changed e (put_lv s d i l e) s d ((side_levels e s d)[i := l])"
  unfolding side_changed_def using side_levels_put [OF assms(1-3) _ _ assms(4)] by simp

lemma book_changed:
  "side_changed e e' s d L \<Longrightarrow> s' < 512 \<Longrightarrow> d' < 2 \<Longrightarrow>
   book e' s' d' = (if s' = s \<and> d' = d then side_book_of L else book e s' d')"
  by (simp add: book_def side_changed_def)

section \<open>Lists of levels\<close>

lemma side_okD:
  assumes "side_ok d L"
  shows "l \<in> set L \<Longrightarrow> level_wf l" "l \<in> set L \<Longrightarrow> is_valid_price (lvl_price l)"
    "i < j \<Longrightarrow> j < length L \<Longrightarrow> before d (lvl_price (L ! i)) (lvl_price (L ! j))"
  using assms by (auto simp: side_ok_def prices_sorted_def sorted_wrt_iff_nth_less)

lemma side_ok_update:
  assumes ok: "side_ok d L" and i: "i < length L" and l: "level_wf l" "lvl_price l = lvl_price (L ! i)"
  shows "side_ok d (L[i := l])"
proof -
  have "map lvl_price (L[i := l]) = map lvl_price L"
    using i l(2) by (simp add: map_update) (metis list_update_id nth_map)
  moreover have "level_wf k \<and> is_valid_price (lvl_price k)" if "k \<in> set (L[i := l])" for k
    using set_update_subset_insert [of L i l] that l ok i by (auto simp: side_ok_def)
  ultimately show ?thesis using ok by (simp add: side_ok_def)
qed

lemma side_ok_remove: "side_ok d L \<Longrightarrow> side_ok d (take i L @ drop (Suc i) L)"
proof -
  assume ok: "side_ok d L"
  have "prices_sorted d (map lvl_price (take i L @ drop (Suc i) L))"
    unfolding prices_sorted_def sorted_wrt_iff_nth_less
  proof (intro allI impI)
    fix a b assume ab: "a < b" "b < length (map lvl_price (take i L @ drop (Suc i) L))"
    let ?f = "\<lambda>x. if x < i then x else Suc x"
    have nth: "(take i L @ drop (Suc i) L) ! x = L ! ?f x" if "x < length (take i L @ drop (Suc i) L)" for x
      using that by (auto simp: nth_append min_def)
    have "?f a < ?f b" "?f b < length L" using ab by auto
    from side_okD(3) [OF ok this] nth [of a] nth [of b] ab
    show "before d (map lvl_price (take i L @ drop (Suc i) L) ! a) (map lvl_price (take i L @ drop (Suc i) L) ! b)"
      by (simp del: map_append)
  qed
  moreover have "set (take i L @ drop (Suc i) L) \<subseteq> set L"
    using set_take_subset [of i L] set_drop_subset [of "Suc i" L] by auto
  ultimately show ?thesis using ok by (auto simp: side_ok_def)
qed

lemma side_ok_insert:
  assumes ok: "side_ok d L" and p: "p \<le> length L" and l: "level_wf l" "is_valid_price (lvl_price l)"
    and lo: "\<And>j. j < p \<Longrightarrow> before d (lvl_price (L ! j)) (lvl_price l)"
    and hi: "\<And>j. p \<le> j \<Longrightarrow> j < length L \<Longrightarrow> before d (lvl_price l) (lvl_price (L ! j))"
  shows "side_ok d (take p L @ l # drop p L)"
proof -
  have "sorted_wrt (before d) (map lvl_price (take p L))" "sorted_wrt (before d) (map lvl_price (drop p L))"
    using ok unfolding side_ok_def prices_sorted_def by (simp_all add: take_map [symmetric] drop_map [symmetric] sorted_wrt_take sorted_wrt_drop)
  moreover have "before d x (lvl_price l)" if "x \<in> lvl_price ` set (take p L)" for x
    using that lo by (auto simp: in_set_conv_nth)
  moreover have "before d (lvl_price l) x" if "x \<in> lvl_price ` set (drop p L)" for x
    using that hi p by (auto simp: in_set_conv_nth)
  ultimately have "sorted_wrt (before d) (map lvl_price (take p L @ l # drop p L))"
    using before_trans by (simp add: sorted_wrt_append) blast
  moreover have "set (take p L) \<subseteq> set L" "set (drop p L) \<subseteq> set L" by (rule set_take_subset, rule set_drop_subset)
  ultimately show ?thesis using ok l by (auto simp: side_ok_def prices_sorted_def)
qed

lemma spec_add_hit:
  assumes "side_ok d L" "i < length L" "lvl_price (L ! i) = p"
    and "level_queue l = level_queue (L ! i) @ [x]" "lvl_price l = p"
  shows "spec_add d p x (side_book_of L) = side_book_of (L[i := l])"
  using assms
proof (induction L arbitrary: i)
  case Nil
  then show ?case by simp
next
  case (Cons a L)
  show ?case
  proof (cases i)
    case 0
    with Cons.prems show ?thesis by (simp add: side_book_of_def)
  next
    case (Suc j)
    have ok: "side_ok d L" using Cons.prems(1) by (simp add: side_ok_def prices_sorted_def)
    have "before d (lvl_price a) p" using side_okD(3) [OF Cons.prems(1), of 0 i] Cons.prems(2,3) Suc by simp
    then have "lvl_price a \<noteq> p" "\<not> before d p (lvl_price a)" using before_trans [of d p "lvl_price a" p] by auto
    moreover have "spec_add d p x (side_book_of L) = side_book_of (L[j := l])"
      using Cons.IH [OF ok, of j] Cons.prems Suc by simp
    ultimately show ?thesis using Suc by (simp add: side_book_of_def)
  qed
qed

lemma spec_add_miss:
  assumes "q \<le> length L" "\<And>j. j < q \<Longrightarrow> before d (lvl_price (L ! j)) p"
    and "\<And>j. q \<le> j \<Longrightarrow> j < length L \<Longrightarrow> before d p (lvl_price (L ! j))"
    and "level_queue l = [x]" "lvl_price l = p"
  shows "spec_add d p x (side_book_of L) = side_book_of (take q L @ l # drop q L)"
  using assms
proof (induction L arbitrary: q)
  case Nil
  then show ?case by (simp add: side_book_of_def)
next
  case (Cons a L)
  show ?case
  proof (cases q)
    case 0
    have "before d p (lvl_price a)" using Cons.prems(3) [of 0] 0 by simp
    then show ?thesis using 0 Cons.prems(4,5) by (auto simp: side_book_of_def)
  next
    case (Suc j)
    have "before d (lvl_price a) p" using Cons.prems(2) [of 0] Suc by simp
    then have "lvl_price a \<noteq> p" "\<not> before d p (lvl_price a)" using before_trans [of d p "lvl_price a" p] by auto
    moreover have "spec_add d p x (side_book_of L) = side_book_of (take j L @ l # drop j L)"
      using Cons.prems(2) [of "Suc _"] Cons.prems(3) [of "Suc _"] Cons.prems(1,4,5) Suc by (intro Cons.IH) auto
    ultimately show ?thesis using Suc by (simp add: side_book_of_def)
  qed
qed

section \<open>The map after a store to one level\<close>

lemma loc_ref_put:
  assumes "arena_ok e" "s < 512" "d < 2" "i < level_count e s d"
  shows "loc_ref (put_lv s d i l e) (mk_loc s' d' j k) =
    (if s' = s \<and> d' = d \<and> j = i then active_id l k else loc_ref e (mk_loc s' d' j k))"
proof -
  have "side_levels (put_lv s d i l e) s' d' ! j =
      (if s' = s \<and> d' = d \<and> j = i then l else side_levels e s' d' ! j)"
    if "s' < 512" "d' < 2" "j < level_count e s' d'"
    using side_levels_put [OF assms(1-3) that(1,2) assms(4), of l] assms(4) that by (auto simp: nth_list_update)
  then show ?thesis using assms by (auto simp: loc_ref_mk_loc simp del: nth_side_levels)
qed

lemma loc_ref_map [simp]: "loc_ref (e\<lparr>le_order_map := m\<rparr>) = loc_ref e"
  by (simp add: loc_ref_def fun_eq_iff)

lemma loc_ref_not_mk: "loc_ref e l = Some r \<Longrightarrow> \<exists>s d j k. l = mk_loc s d j k"
  by (metis loc_ref_cases)

text \<open>It is enough to compare the map with locations of the form \<^term>\<open>mk_loc s d j k\<close>.\<close>

lemma map_okI:
  assumes "om_inv (le_order_map e)"
    and "\<And>r l. om_lookup (le_order_map e) r = Some l \<Longrightarrow> \<exists>s d j k. l = mk_loc s d j k"
    and "\<And>r s d j k. om_lookup (le_order_map e) r = Some (mk_loc s d j k) \<longleftrightarrow> loc_ref e (mk_loc s d j k) = Some r"
  shows "map_ok e"
  unfolding map_ok_def
proof (intro conjI allI iffI)
  fix r l
  show "loc_ref e l = Some r" if "om_lookup (le_order_map e) r = Some l"
    using assms(2) [OF that] assms(3) that by blast
  show "om_lookup (le_order_map e) r = Some l" if "loc_ref e l = Some r"
    using loc_ref_not_mk [OF that] assms(3) that by blast
qed (rule assms(1))

lemma map_ok_mk: "map_ok e \<Longrightarrow> om_lookup (le_order_map e) r = Some l \<Longrightarrow> \<exists>s d j k. l = mk_loc s d j k"
  using map_okD(2) loc_ref_not_mk by blast

lemma map_ok_same:
  assumes ok: "map_ok e" and r: "arena_ok e" "s < 512" "d < 2" "i < level_count e s d"
    and l: "active_id l = active_id (lv e s d i)"
  shows "map_ok (put_lv s d i l e)"
proof (rule map_okI)
  show "om_inv (le_order_map (put_lv s d i l e))" using map_okD(1) [OF ok] by simp
  show "\<exists>s d j k. l' = mk_loc s d j k" if "om_lookup (le_order_map (put_lv s d i l e)) r = Some l'" for r l'
    using map_ok_mk [OF ok, of r l'] that by simp
  show "om_lookup (le_order_map (put_lv s d i l e)) r = Some (mk_loc s' d' j k) \<longleftrightarrow>
      loc_ref (put_lv s d i l e) (mk_loc s' d' j k) = Some r" for r s' d' j k
    using map_okD(2) [OF ok, of r "mk_loc s' d' j k"] loc_ref_put [OF r, of l s' d' j k] r l
    by (auto simp: loc_ref_mk_loc)
qed

lemma map_ok_added:
  assumes ok: "map_ok e" and r: "arena_ok e" "s < 512" "d < 2" "i < level_count e s d"
    and free: "om_lookup (le_order_map e) ref = None" "active_id (lv e s d i) k = None"
    and l: "active_id l = (active_id (lv e s d i))(k \<mapsto> ref)"
    and m: "om_inv m" "om_lookup m = (om_lookup (le_order_map e))(ref \<mapsto> mk_loc s d i k)"
  shows "map_ok ((put_lv s d i l e)\<lparr>le_order_map := m\<rparr>)"
proof (rule map_okI)
  let ?e = "(put_lv s d i l e)\<lparr>le_order_map := m\<rparr>"
  show "om_inv (le_order_map ?e)" using m by simp
  show "\<exists>s d j k. l' = mk_loc s d j k" if "om_lookup (le_order_map ?e) r = Some l'" for r l'
    using map_ok_mk [OF ok, of r l'] that m by (auto split: if_splits)
  have none: "loc_ref e l' \<noteq> Some ref" for l' using map_okD(2) [OF ok, of ref l'] free by simp
  have at: "loc_ref e (mk_loc s d i k') = active_id (lv e s d i) k'" for k' using r by (simp add: loc_ref_mk_loc)
  show "om_lookup (le_order_map ?e) x = Some (mk_loc s' d' j k') \<longleftrightarrow> loc_ref ?e (mk_loc s' d' j k') = Some x"
    for x s' d' j k'
    using map_okD(2) [OF ok, of x "mk_loc s' d' j k'"] loc_ref_put [OF r, of l s' d' j k']
      none [of "mk_loc s' d' j k'"] at [of k'] free
    by (auto simp: m l)
qed

lemma map_ok_removed:
  assumes ok: "map_ok e" and r: "arena_ok e" "s < 512" "d < 2" "i < level_count e s d"
    and occ: "active_id (lv e s d i) k = Some ref"
    and l: "active_id l = (active_id (lv e s d i))(k := None)"
    and m: "om_inv m" "om_lookup m = (om_lookup (le_order_map e))(ref := None)"
  shows "map_ok ((put_lv s d i l e)\<lparr>le_order_map := m\<rparr>)"
proof (rule map_okI)
  let ?e = "(put_lv s d i l e)\<lparr>le_order_map := m\<rparr>"
  show "om_inv (le_order_map ?e)" using m by simp
  show "\<exists>s d j k. l' = mk_loc s d j k" if "om_lookup (le_order_map ?e) r = Some l'" for r l'
    using map_ok_mk [OF ok, of r l'] that m by (auto split: if_splits)
  have at: "loc_ref e (mk_loc s d i k') = active_id (lv e s d i) k'" for k' using r by (simp add: loc_ref_mk_loc)
  have only: "l' = mk_loc s d i k" if "loc_ref e l' = Some ref" for l'
    using loc_ref_unique [OF ok that, of "mk_loc s d i k"] at [of k] occ by simp
  show "om_lookup (le_order_map ?e) x = Some (mk_loc s' d' j k') \<longleftrightarrow> loc_ref ?e (mk_loc s' d' j k') = Some x"
    for x s' d' j k'
  proof -
    let ?l = "mk_loc s' d' j k'"
    have look: "om_lookup (le_order_map ?e) x = Some ?l \<longleftrightarrow> x \<noteq> ref \<and> loc_ref e ?l = Some x"
      using map_okD(2) [OF ok, of x ?l] by (simp add: m)
    show ?thesis
    proof (cases "?l = mk_loc s d i k")
      case True
      then have "loc_ref ?e ?l = None" "loc_ref e ?l = Some ref"
        using loc_ref_put [OF r, of l s' d' j k'] at [of k] occ by (simp_all add: l)
      then show ?thesis unfolding look by auto
    next
      case False
      then have "loc_ref ?e ?l = loc_ref e ?l"
        using loc_ref_put [OF r, of l s' d' j k'] at [of k'] by (cases "s' = s \<and> d' = d \<and> j = i") (auto simp: l)
      moreover from False have "loc_ref e ?l \<noteq> Some ref" using only by blast
      ultimately show ?thesis unfolding look by auto
    qed
  qed
qed

section \<open>Placing an order\<close>

lemma find_level_spec:
  assumes "lob_wf e" "s < 512" "d < 2"
  shows "find_level e s d price < 0 \<Longrightarrow> find_level e s d price = -1 \<and>
      (\<forall>i<level_count e s d. lvl_price (lv e s d i) \<noteq> price)"
    and "0 \<le> find_level e s d price \<Longrightarrow> nat (find_level e s d price) < level_count e s d \<and>
      lvl_price (lv e s d (nat (find_level e s d price))) = price"
proof -
  have srt: "prices_sorted d (map lvl_price (side_levels e s d))"
    using lob_wfD(3) [OF assms] by (simp add: side_ok_def)
  let ?c = "level_count e s d" and ?r = "find_level e s d price"
  have main: "if ?r < 0 then ?r = -1 \<and> (\<forall>i<?c. lvl_price (lv e s d i) \<noteq> price)
      else nat ?r < ?c \<and> lvl_price (lv e s d (nat ?r)) = price"
  proof (cases "?c = 0")
    case True
    then show ?thesis by (simp add: find_level_def)
  next
    case False
    then have r: "?r = find_level_loop e s d price 0 (int ?c - 1)" by (simp add: find_level_def Let_def)
    have "int i \<le> int ?c - 1 \<longleftrightarrow> i < ?c" for i by linarith
    then show ?thesis
      using find_level_loop_spec [OF _ _ srt, of 0 "int ?c - 1" price] unfolding r Let_def by simp
  qed
  show "?r < 0 \<Longrightarrow> ?r = -1 \<and> (\<forall>i<?c. lvl_price (lv e s d i) \<noteq> price)" using main by simp
  show "0 \<le> ?r \<Longrightarrow> nat ?r < ?c \<and> lvl_price (lv e s d (nat ?r)) = price" using main by simp
qed

lemma insert_position_spec:
  assumes ok: "side_ok d (side_levels e s d)"
    and absent: "\<And>i. i < level_count e s d \<Longrightarrow> lvl_price (lv e s d i) \<noteq> price"
    and p: "p = insert_position e s d price"
  shows "j < p \<Longrightarrow> before d (lvl_price (side_levels e s d ! j)) price"
    and "p \<le> j \<Longrightarrow> j < level_count e s d \<Longrightarrow> before d price (lvl_price (side_levels e s d ! j))"
proof -
  let ?Q = "\<lambda>i. before d price (lvl_price (lv e s d i))"
  have "(\<lambda>i. let lp = lvl_price (lv e s d i) in if d = 0 then price > lp else price < lp) = ?Q"
    by (rule ext) (simp add: Let_def before_def)
  then have pos: "p = (case find ?Q [0..<level_count e s d] of None \<Rightarrow> level_count e s d | Some i \<Rightarrow> i)"
    unfolding p insert_position_def by (simp only: Let_def)
  have pc: "p \<le> level_count e s d" using insert_position_le p by simp
  have lo: "\<not> ?Q i" if "i < p" for i
    using that pos by (cases "find ?Q [0..<level_count e s d]") (simp_all add: find_upt_Some find_upt_None)
  show "before d (lvl_price (side_levels e s d ! j)) price" if "j < p"
    using lo [OF that] that pc absent [of j] before_total [of d price "lvl_price (lv e s d j)"] by auto
  have hit: "?Q p" if "p < level_count e s d"
    using that pos by (cases "find ?Q [0..<level_count e s d]") (simp_all add: find_upt_Some)
  show "before d price (lvl_price (side_levels e s d ! j))" if "p \<le> j" "j < level_count e s d"
  proof (cases "j = p")
    case True
    then show ?thesis using hit that by simp
  next
    case False
    then have "before d (lvl_price (side_levels e s d ! p)) (lvl_price (side_levels e s d ! j))"
      using side_okD(3) [OF ok, of p j] that by simp
    moreover have "?Q p" "p < level_count e s d" using hit that by simp_all
    ultimately show ?thesis using before_trans [of d price "lvl_price (lv e s d p)"] by simp
  qed
qed

end
