(* ===== verification/LOB_Refine.thy ===== *)
theory LOB_Refine
  imports LOB_Spec
begin

text \<open>
  The handlers of \<open>LOBEngine\<close> against the abstract book: placing, reducing and erasing an order,
  the six message handlers, the dispatcher, and runs of the feed.
\<close>

section \<open>Placing an order in a level\<close>

lemma level_len: "level_wf l \<Longrightarrow> length (lvl_orders l) = 16"
  by (simp add: level_wf_def chain_def)

lemma lv_in_side: "i < level_count e s d \<Longrightarrow> lv e s d i \<in> set (side_levels e s d)"
  by (simp add: side_levels_def)

lemma level_empty: "level_wf l \<Longrightarrow> level_queue l = [] \<Longrightarrow> lvl_order_count l \<le> 0 \<and> active_id l = Map.empty"
  by (auto simp: level_wf_def level_queue_def active_id_def fun_eq_iff)

lemma level_nonempty: "level_wf l \<Longrightarrow> level_queue l \<noteq> [] \<Longrightarrow> lvl_order_count l > 0"
  by (auto simp: level_wf_def level_queue_def)

lemma level_undo:
  assumes wf: "level_wf l" and k: "alloc_slot l = Some k" and q: "is_valid_quantity qty"
    and link: "link_slot (init_slot k ref qty d l) k = Some l1"
    and l2: "l2 = l1\<lparr>lvl_total_qty := lvl_total_qty l + qty, lvl_order_count := lvl_order_count l + 1\<rparr>"
    and l3: "l3 = (drop_slot l2 k)\<lparr>lvl_total_qty := s64 (lvl_total_qty (drop_slot l2 k) - qty),
        lvl_order_count := lvl_order_count (drop_slot l2 k) - 1\<rparr>"
  shows "level_wf l3" "level_queue l3 = level_queue l" "active_id l3 = active_id l" "lvl_price l3 = lvl_price l"
proof -
  let ?xs = "level_chain l"
  note pl = level_place [OF wf k q link l2]
  have free: "k \<notin> set ?xs" "active_id l k = None" and k16: "k < 16"
    using alloc_slot_Some [OF k] wf by (auto simp: level_wf_def active_id_def)
  have c2: "chain l2 (?xs @ [k])" and act2: "\<And>j. j < 16 \<Longrightarrow> is_active (lvl_orders l2 ! j) \<longleftrightarrow> j \<in> set (?xs @ [k])"
    and val2: "\<And>j. j \<in> set (?xs @ [k]) \<Longrightarrow> is_valid_quantity (slot_qty (lvl_orders l2 ! j))"
    using pl(1) unfolding level_wf_def pl(2) by blast+
  have filt: "filter (\<lambda>j. j \<noteq> k) (?xs @ [k]) = ?xs"
    using free by (simp add: filter_id_conv) blast
  have q0: "map (slot_entry l2) ?xs = level_queue l"
    using pl(3) unfolding level_queue_def [of l2] pl(2) by simp
  then have sum: "sum_list (map (\<lambda>j. slot_qty (lvl_orders l2 ! j)) ?xs) = lvl_total_qty l"
    using wf by (simp add: level_wf_def q0 [symmetric] slot_entry_def o_def)
  have len2: "length (lvl_orders l2) = 16" using level_len [OF pl(1)] .
  have lenu: "length (lvl_orders (unlink_slot l2 k)) = 16"
    using chain_unlink [OF c2, of k] by (simp add: chain_def)
  note fr = drop_slot_frame(3,4,5) [OF len2 k16 lenu]
  have tot: "s64 (lvl_total_qty (drop_slot l2 k) - qty) = lvl_total_qty l"
    unfolding fr using level_total_bounds [OF wf] by (simp add: l2 s64_id i64_bounds kMaxQuantity_def)
  have cnt: "lvl_order_count (drop_slot l2 k) - 1 = int (length (?xs @ [k])) - 1"
    unfolding fr using wf by (simp add: l2 level_wf_def)
  have kin: "k \<in> set (?xs @ [k])" by simp
  have val2': "j \<noteq> k \<Longrightarrow> is_valid_quantity (slot_qty (lvl_orders l2 ! j))" if "j \<in> set (?xs @ [k])" for j
    using val2 [OF that] .
  note dr = level_drop [OF c2 kin act2 val2' refl, of l3, unfolded filt sum]
  have l3': "l3 = (drop_slot l2 k)\<lparr>lvl_total_qty := lvl_total_qty l, lvl_order_count := int (length (?xs @ [k])) - 1\<rparr>"
    unfolding l3 tot cnt ..
  show "level_wf l3" using dr(1) l3' by simp
  show "level_queue l3 = level_queue l" using dr(3) l3' q0 by simp
  show "active_id l3 = active_id l" using dr(4) l3' pl(4) free by auto
  show "lvl_price l3 = lvl_price l" unfolding l3 using link_slot_frame [OF link] fr(1) by (simp add: l2 init_slot_def)
qed

lemma place_in_level_spec:
  assumes wf: "lob_wf e" and s: "s < 512" "d < 2" and i: "i < level_count e s d"
    and free: "om_lookup (le_order_map e) ref = None" and q: "is_valid_quantity qty"
    and l: "l = lv e s d i" and L: "L = side_levels e s d"
  shows "alloc_slot l = None \<and> place_in_level e s d i ref qty = Some (e, NoSlot) \<or>
    alloc_slot l \<noteq> None \<and> (\<exists>e' l2. place_in_level e s d i ref qty = Some (e', Placed) \<and> arena_ok e' \<and> map_ok e' \<and>
       side_changed e e' s d (L[i := l2]) \<and> level_wf l2 \<and> lvl_price l2 = lvl_price l \<and>
       level_queue l2 = level_queue l @ [(ref, qty)]) \<or>
    alloc_slot l \<noteq> None \<and> (\<exists>e' l3. place_in_level e s d i ref qty = Some (e', MapRefused) \<and> arena_ok e' \<and> map_ok e' \<and>
       side_changed e e' s d (if level_queue l = [] then take i L @ drop (Suc i) L else L[i := l3]) \<and>
       level_wf l3 \<and> lvl_price l3 = lvl_price l \<and> level_queue l3 = level_queue l \<and>
       \<not> om_can_insert (le_order_map e) ref)"
proof (cases "alloc_slot l")
  case None
  then show ?thesis by (simp add: place_in_level_def l Let_def)
next
  case (Some k)
  note a = lob_wfD(1) [OF wf] and ok = lob_wfD(2) [OF wf]
  have lwf: "level_wf l" using side_okD(1) [OF lob_wfD(3) [OF wf s] lv_in_side [OF i]] l by simp
  obtain l1 where l1: "link_slot (init_slot k ref qty d l) k = Some l1" "lvl_price l1 = lvl_price l"
    "lvl_total_qty l1 = lvl_total_qty l" "lvl_order_count l1 = lvl_order_count l"
    using level_link_total [OF lwf Some] by blast
  define l2 where "l2 = l1\<lparr>lvl_total_qty := lvl_total_qty l + qty, lvl_order_count := lvl_order_count l + 1\<rparr>"
  note pl = level_place [OF lwf Some q l1(1) l2_def]
  have add: "checked_add (lvl_total_qty l) qty = Some (lvl_total_qty l + qty)"
    using level_total_bounds [OF lwf] q by (simp add: checked_add_def i64_bounds numeric_valid)
  define e2 where "e2 = put_lv s d i l2 e"
  have i1024: "i < 1024" using arena_okD(2) [OF a s] i by simp
  have k16: "k < 16" and kfree: "active_id l k = None" using alloc_slot_Some [OF Some] by (auto simp: active_id_def)
  obtain b m where ins: "om_insert (le_order_map e) ref (mk_loc s d i k) = (b, m)" by fastforce
  have a2: "arena_ok e2" unfolding e2_def using arena_ok_put [OF a s(2) i1024 level_len [OF pl(1)]] .
  have ch2: "side_changed e e2 s d (L[i := l2])" unfolding e2_def L by (rule side_changed_put [OF a s i])
  show ?thesis
  proof (cases b)
    case True
    then have "place_in_level e s d i ref qty = Some (e2\<lparr>le_order_map := m\<rparr>, Placed)"
      using ins Some l1 add by (simp add: place_in_level_def l [symmetric] Let_def mk_loc_def e2_def l2_def)
    moreover have "map_ok (e2\<lparr>le_order_map := m\<rparr>)"
      using map_ok_added [OF ok a s i free, of k l2 m] kfree pl(4) orm.ins_ok [OF map_okD(1) [OF ok], of ref "mk_loc s d i k" m] ins True
      by (simp add: e2_def l)
    moreover have "lvl_price l2 = lvl_price l" using l1 by (simp add: l2_def)
    ultimately show ?thesis using a2 ch2 pl(1,3) Some by auto
  next
    case False
    then have m: "m = le_order_map e" using orm.ins_refused [OF map_okD(1) [OF ok]] ins by simp
    define l3 where "l3 = (drop_slot l2 k)\<lparr>lvl_total_qty := s64 (lvl_total_qty (drop_slot l2 k) - qty),
        lvl_order_count := lvl_order_count (drop_slot l2 k) - 1\<rparr>"
    note un = level_undo [OF lwf Some q l1(1) l2_def l3_def]
    define e3 where "e3 = put_lv s d i l3 e2"
    have res: "place_in_level e s d i ref qty = Some (remove_level_if_empty s d i e3, MapRefused)"
      using ins Some l1 add False
      by (simp add: place_in_level_def l [symmetric] Let_def mk_loc_def e3_def e2_def l3_def l2_def m) (simp add: put_lv_def)
    have nocan: "\<not> om_can_insert (le_order_map e) ref"
    proof
      assume can: "om_can_insert (le_order_map e) ref"
      then have "valid_entry ref (mk_loc s d i k)"
        using s i1024 k16 by (auto simp: valid_entry_def om_can_insert_def mk_loc_def split: if_splits)
      from can_insert_then_insert [OF can this] ins False show False by simp
    qed
    have i2: "i < level_count e2 s d" using i by (simp add: e2_def)
    have a3: "arena_ok e3" unfolding e3_def using arena_ok_put [OF a2 s(2) i1024 level_len [OF un(1)]] .
    have lv3: "lv e3 s d i = l3" using lv_put_lv [OF arena_okD(1) [OF a2] s(2) s(2) i1024 i1024, of s l3 s] by (simp add: e3_def)
    have "side_changed e2 e3 s d ((side_levels e2 s d)[i := l3])"
      unfolding e3_def by (rule side_changed_put [OF a2 s i2])
    moreover have "(side_levels e2 s d)[i := l3] = L[i := l3]" using side_changedD [OF ch2 s] by simp
    ultimately have ch3: "side_changed e e3 s d (L[i := l3])" using ch2 side_changed_trans by metis
    have ok3: "map_ok e3"
    proof -
      have "map_ok (put_lv s d i l3 e)" using map_ok_same [OF ok a s i] un(3) l by simp
      moreover have "loc_ref e3 = loc_ref (put_lv s d i l3 e)"
        using ch3 side_changed_put [OF a s i, of l3] s unfolding side_changed_def L
        by (auto simp: loc_ref_def fun_eq_iff level_count_side simp del: nth_side_levels length_side_levels)
      ultimately show ?thesis by (simp add: map_ok_def e3_def e2_def)
    qed
    show ?thesis
    proof (cases "level_queue l = []")
      case True
      then have "lvl_order_count (lv e3 s d i) \<le> 0" "active_id (lv e3 s d i) = Map.empty"
        using level_empty [OF un(1)] un(2) lv3 by simp_all
      from remove_level_spec [OF a3 ok3 s _ this refl] i
      have "arena_ok (remove_level_if_empty s d i e3)" "map_ok (remove_level_if_empty s d i e3)"
        "side_changed e3 (remove_level_if_empty s d i e3) s d (take i (side_levels e3 s d) @ drop (Suc i) (side_levels e3 s d))"
        by (simp_all add: e3_def e2_def)
      moreover have "side_levels e3 s d = L[i := l3]" using side_changedD [OF ch3 s] by simp
      moreover have "take i (L[i := l3]) @ drop (Suc i) (L[i := l3]) = take i L @ drop (Suc i) L" by simp
      ultimately show ?thesis using res un nocan True side_changed_trans [OF ch3] Some by auto
    next
      case False
      then have "remove_level_if_empty s d i e3 = e3"
        using level_nonempty [OF un(1)] un(2) lv3 by (intro remove_level_keep) simp
      with res un nocan False a3 ok3 ch3 Some show ?thesis by auto
    qed
  qed
qed

section \<open>Placing an order in the book\<close>

definition other_sides_kept :: "LOBEngine \<Rightarrow> LOBEngine \<Rightarrow> nat \<Rightarrow> nat \<Rightarrow> bool" where
  "other_sides_kept e e' s d \<longleftrightarrow>
     (\<forall>s'<kSymbols. \<forall>d'<2. s' = s \<and> d' = d \<or> book e' s' d' = book e s' d')"

lemma changed_other_sides: "side_changed e e' s d L \<Longrightarrow> other_sides_kept e e' s d"
  by (auto simp: other_sides_kept_def book_def side_changed_def)

lemma changed_book: "side_changed e e' s d L \<Longrightarrow> s < 512 \<Longrightarrow> d < 2 \<Longrightarrow> book e' s d = side_book_of L"
  by (simp add: book_def side_changed_def)

lemma side_book_of_update_same:
  "lvl_price l = lvl_price (L ! i) \<Longrightarrow> level_queue l = level_queue (L ! i) \<Longrightarrow> i < length L \<Longrightarrow>
   side_book_of (L[i := l]) = side_book_of L"
  by (intro nth_equalityI) (auto simp: side_book_of_def nth_list_update)

lemma level_queue_length: "length (level_queue l) = length (level_chain l)"
  by (simp add: level_queue_def)

lemma book_price_unique:
  assumes "side_ok d L" "i < length L" "(lvl_price (L ! i), os) \<in> set (side_book_of L)"
  shows "os = level_queue (L ! i)"
proof -
  obtain l where "l \<in> set L" and l: "lvl_price l = lvl_price (L ! i)" "os = level_queue l"
    using assms(3) by (auto simp: side_book_of_def)
  then obtain j where j: "j < length L" "L ! j = l" by (auto simp: in_set_conv_nth)
  have "\<not> i < j"
  proof
    assume "i < j"
    from side_okD(3) [OF assms(1) this j(1)] j l show False by simp
  qed
  moreover have "\<not> j < i"
  proof
    assume "j < i"
    from side_okD(3) [OF assms(1) this assms(2)] j l show False by simp
  qed
  ultimately show ?thesis using j l by (simp add: linorder_neq_iff)
qed

lemma book_length: "length (book e s d) = level_count e s d"
  by (simp add: book_def side_book_of_def)

lemma absent_book:
  assumes "\<And>i. i < level_count e s d \<Longrightarrow> lvl_price (lv e s d i) \<noteq> price"
  shows "price \<notin> fst ` set (book e s d)"
proof
  assume "price \<in> fst ` set (book e s d)"
  then obtain l where "l \<in> set (side_levels e s d)" "lvl_price l = price" by (auto simp: book_def side_book_of_def)
  then obtain i where "i < level_count e s d" "lvl_price (lv e s d i) = price" by (auto simp: side_levels_def)
  with assms show False by blast
qed

text \<open>The outcome of \<open>place_order\<close> in terms of the book before and after.\<close>

definition place_outcome :: "LOBEngine \<Rightarrow> LOBEngine \<Rightarrow> nat \<Rightarrow> nat \<Rightarrow> u64 \<Rightarrow> int \<Rightarrow> int \<Rightarrow> PlaceResult \<Rightarrow> bool" where
  "place_outcome e e' s d ref qty price res \<longleftrightarrow> lob_inv e' \<and> other_sides_kept e e' s d \<and>
     book e' s d = (if res = Placed then spec_add d price (ref, qty) (book e s d) else book e s d) \<and>
     (res = NoLevel \<longleftrightarrow> price \<notin> fst ` set (book e s d) \<and> length (book e s d) = kLevelsPerSide) \<and>
     (res = NoSlot \<longleftrightarrow> (\<exists>os. (price, os) \<in> set (book e s d) \<and> length os = kMaxOrdersPerLevel)) \<and>
     res \<noteq> QtyOverflow \<and> (res = MapRefused \<longrightarrow> \<not> om_can_insert (le_order_map e) ref)"

lemma place_existing:
  assumes inv: "lob_inv e" and s: "s < 512" "d < 2" and i: "i < level_count e s d"
    and price: "lvl_price (lv e s d i) = price"
    and free: "om_lookup (le_order_map e) ref = None" and q: "is_valid_quantity qty"
  shows "\<exists>e' res. place_in_level e s d i ref qty = Some (e', res) \<and> place_outcome e e' s d ref qty price res"
proof -
  let ?l = "lv e s d i" and ?L = "side_levels e s d"
  note wf = lob_invD(1) [OF inv]
  note sok = lob_wfD(3) [OF wf s] and ne = lob_invD(2) [OF inv]
  have lwf: "level_wf ?l" and lne: "level_queue ?l \<noteq> []"
    using side_okD(1) [OF sok lv_in_side [OF i]] ne [OF s lv_in_side [OF i]] by simp_all
  have mem: "(price, level_queue ?l) \<in> set (book e s d)"
    using lv_in_side [OF i] price by (auto simp: book_def side_book_of_def)
  then have pin: "price \<in> fst ` set (book e s d)" by force
  have slot: "(\<exists>os. (price, os) \<in> set (book e s d) \<and> length os = 16) \<longleftrightarrow> alloc_slot ?l = None"
  proof
    assume "\<exists>os. (price, os) \<in> set (book e s d) \<and> length os = 16"
    then obtain os where os: "(price, os) \<in> set (book e s d)" "length os = 16" by blast
    have "os = level_queue (?L ! i)" using os(1) i price by (intro book_price_unique [OF sok]) (simp_all add: book_def)
    with os(2) show "alloc_slot ?l = None" using i alloc_slot_None [OF lwf] by (simp add: level_queue_length)
  next
    assume "alloc_slot ?l = None"
    then have "length (level_queue ?l) = 16" using alloc_slot_None [OF lwf] by (simp add: level_queue_length)
    with mem show "\<exists>os. (price, os) \<in> set (book e s d) \<and> length os = 16" by blast
  qed
  from place_in_level_spec [OF wf s i free q refl refl] consider
      (full) "alloc_slot ?l = None" "place_in_level e s d i ref qty = Some (e, NoSlot)"
    | (placed) e' l2 where "alloc_slot ?l \<noteq> None" "place_in_level e s d i ref qty = Some (e', Placed)" "arena_ok e'" "map_ok e'"
       "side_changed e e' s d (?L[i := l2])" "level_wf l2" "lvl_price l2 = lvl_price ?l"
       "level_queue l2 = level_queue ?l @ [(ref, qty)]"
    | (refused) e' l3 where "alloc_slot ?l \<noteq> None" "place_in_level e s d i ref qty = Some (e', MapRefused)" "arena_ok e'" "map_ok e'"
       "side_changed e e' s d (?L[i := l3])" "level_wf l3" "lvl_price l3 = lvl_price ?l"
       "level_queue l3 = level_queue ?l" "\<not> om_can_insert (le_order_map e) ref"
    using lne by auto
  then show ?thesis
  proof cases
    case full
    have "place_outcome e e s d ref qty price NoSlot"
      using inv slot full pin by (simp add: place_outcome_def other_sides_kept_def)
    with full show ?thesis by blast
  next
    case placed
    have sok': "side_ok d (?L[i := l2])" using side_ok_update [OF sok _ placed(6)] i placed(7) by simp
    have ne': "level_queue l' \<noteq> []" if "l' \<in> set (?L[i := l2])" for l'
      using set_update_subset_insert [of ?L i l2] that ne [OF s] placed(8) by auto
    have "lob_inv e'" using lob_inv_changed [OF ne wf placed(5,3,4) sok' ne'] .
    moreover have "book e' s d = spec_add d price (ref, qty) (book e s d)"
      using spec_add_hit [OF sok, of i price l2 "(ref, qty)"] placed(7,8) i price changed_book [OF placed(5) s]
      by (simp add: book_def)
    ultimately have "place_outcome e e' s d ref qty price Placed"
      using slot placed(1) pin changed_other_sides [OF placed(5)] by (simp add: place_outcome_def)
    with placed(2) show ?thesis by blast
  next
    case refused
    have sok': "side_ok d (?L[i := l3])" using side_ok_update [OF sok _ refused(6)] i refused(7) by simp
    have ne': "level_queue l' \<noteq> []" if "l' \<in> set (?L[i := l3])" for l'
      using set_update_subset_insert [of ?L i l3] that ne [OF s] refused(8) lne by auto
    have "lob_inv e'" using lob_inv_changed [OF ne wf refused(5,3,4) sok' ne'] .
    moreover have "book e' s d = book e s d"
      using side_book_of_update_same [of l3 ?L i] refused(7,8) i changed_book [OF refused(5) s] by (simp add: book_def)
    ultimately have "place_outcome e e' s d ref qty price MapRefused"
      using slot refused(1,9) pin changed_other_sides [OF refused(5)] by (simp add: place_outcome_def)
    with refused(2) show ?thesis by blast
  qed
qed

lemma alloc_fresh: "alloc_slot (fresh_level p) \<noteq> None"
  using alloc_slot_None [OF fresh_level_wf(1), of p] fresh_level_wf(2) [of p] by (simp add: level_queue_def)

lemma place_new:
  assumes inv: "lob_inv e" and s: "s < 512" "d < 2" and c: "level_count e s d < 1024"
    and absent: "\<And>i. i < level_count e s d \<Longrightarrow> lvl_price (lv e s d i) \<noteq> price" and vp: "is_valid_price price"
    and ins: "insert_level_impl e s d price = (pos, e1)"
    and free: "om_lookup (le_order_map e) ref = None" and q: "is_valid_quantity qty"
  shows "0 \<le> pos \<and> (\<exists>e' res. place_in_level e1 s d (nat pos) ref qty = Some (e', res) \<and>
    place_outcome e e' s d ref qty price res)"
proof -
  let ?L = "side_levels e s d" and ?p = "insert_position e s d price" and ?f = "fresh_level price"
  let ?L1 = "take ?p ?L @ ?f # drop ?p ?L"
  note wf = lob_invD(1) [OF inv] and ne = lob_invD(2) [OF inv]
  note sok = lob_wfD(3) [OF wf s]
  note sp = insert_level_spec [OF lob_wfD(1,2) [OF wf] s c ins refl]
  have pc: "?p \<le> length ?L" using insert_position_le by simp
  note ord = insert_position_spec [OF sok absent refl]
  have lohi: "side_ok d (take ?p ?L @ l # drop ?p ?L)" if "level_wf l" "lvl_price l = price" for l
    using side_ok_insert [OF sok pc, of l] ord vp that by simp
  have wf1: "lob_wf e1" using lob_wf_changed [OF wf sp(5,2,3) lohi] fresh_level_wf by simp
  have L1: "side_levels e1 s d = ?L1" using side_changedD [OF sp(5) s] by simp
  have i1: "?p < level_count e1 s d" unfolding level_count_side L1 using pc by simp
  have lent: "length (take ?p ?L) = ?p" using pc by simp
  have lv1: "lv e1 s d ?p = ?f"
    using nth_side_levels [OF i1] nth_append_length [of "take ?p ?L" ?f "drop ?p ?L"] unfolding L1 lent by simp
  have free1: "om_lookup (le_order_map e1) ref = None" using sp(4) free unfolding same_keys_def by (metis domIff)
  have nolev: "price \<notin> fst ` set (book e s d)" "length (book e s d) < 1024"
    using absent_book [OF absent] c by (simp_all add: book_length)
  then have noslot: "\<not> (\<exists>os. (price, os) \<in> set (book e s d) \<and> length os = 16)" by force
  from place_in_level_spec [OF wf1 s i1 free1 q refl refl, unfolded lv1 L1] alloc_fresh [of price] consider
      (placed) e' l2 where "place_in_level e1 s d ?p ref qty = Some (e', Placed)" "arena_ok e'" "map_ok e'"
       "side_changed e1 e' s d (?L1[?p := l2])" "level_wf l2" "lvl_price l2 = price" "level_queue l2 = [(ref, qty)]"
    | (refused) e' where "place_in_level e1 s d ?p ref qty = Some (e', MapRefused)" "arena_ok e'" "map_ok e'"
       "side_changed e1 e' s d (take ?p ?L1 @ drop (Suc ?p) ?L1)" "\<not> om_can_insert (le_order_map e1) ref"
    by (auto simp: fresh_level_wf)
  then have "\<exists>e' res. place_in_level e1 s d ?p ref qty = Some (e', res) \<and> place_outcome e e' s d ref qty price res"
  proof cases
    case placed
    have "?L1[?p := l2] = take ?p ?L @ l2 # drop ?p ?L" using pc by (simp add: list_update_append min_def)
    then have ch: "side_changed e e' s d (take ?p ?L @ l2 # drop ?p ?L)"
      using side_changed_trans [OF sp(5)] placed(4) by simp
    have ne': "level_queue l' \<noteq> []" if "l' \<in> set (take ?p ?L @ l2 # drop ?p ?L)" for l'
      using that ne [OF s] placed(7) set_take_subset [of ?p ?L] set_drop_subset [of ?p ?L] by auto
    have "lob_inv e'" using lob_inv_changed [OF ne wf ch placed(2,3) lohi [OF placed(5,6)] ne'] .
    moreover have "book e' s d = spec_add d price (ref, qty) (book e s d)"
      using spec_add_miss [OF pc, of d price l2 "(ref, qty)"] ord placed(6,7) changed_book [OF ch s]
      by (simp add: book_def)
    ultimately have "place_outcome e e' s d ref qty price Placed"
      using nolev noslot changed_other_sides [OF ch] by (simp add: place_outcome_def)
    with placed(1) show ?thesis by blast
  next
    case refused
    have "take ?p ?L1 @ drop (Suc ?p) ?L1 = ?L" using pc by simp
    then have ch: "side_changed e e' s d ?L" using side_changed_trans [OF sp(5)] refused(4) by simp
    have "lob_inv e'" using lob_inv_changed [OF ne wf ch refused(2,3) sok ne [OF s]] .
    moreover have "book e' s d = book e s d" using changed_book [OF ch s] by (simp add: book_def)
    moreover have "\<not> om_can_insert (le_order_map e) ref" using refused(5) sp(4) by (simp add: same_keys_def)
    ultimately have "place_outcome e e' s d ref qty price MapRefused"
      using nolev noslot changed_other_sides [OF ch] by (simp add: place_outcome_def)
    with refused(1) show ?thesis by blast
  qed
  then show ?thesis using sp(1) by simp
qed

lemma place_order_spec:
  assumes inv: "lob_inv e" and s: "s < 512" "d < 2" and vp: "is_valid_price price"
    and free: "om_lookup (le_order_map e) ref = None" and q: "is_valid_quantity qty"
  shows "\<exists>e' res. place_order e s d ref qty price = Some (e', res) \<and> place_outcome e e' s d ref qty price res"
proof (cases "find_level e s d price < 0")
  case False
  note fl = find_level_spec(2) [OF lob_invD(1) [OF inv] s, of price]
  then have f: "nat (find_level e s d price) < level_count e s d"
    "lvl_price (lv e s d (nat (find_level e s d price))) = price" using False by simp_all
  have "place_order e s d ref qty price = place_in_level e s d (nat (find_level e s d price)) ref qty"
    using False by (simp add: place_order_def Let_def)
  with place_existing [OF inv s f free q] show ?thesis by simp
next
  case True
  have absent: "lvl_price (lv e s d i) \<noteq> price" if "i < level_count e s d" for i
    using find_level_spec(1) [OF lob_invD(1) [OF inv] s True] that by blast
  obtain pos e1 where ins: "insert_level_impl e s d price = (pos, e1)" by fastforce
  show ?thesis
  proof (cases "level_count e s d < 1024")
    case lt: True
    from place_new [OF inv s lt absent vp ins free q]
    have "0 \<le> pos" "\<exists>e' res. place_in_level e1 s d (nat pos) ref qty = Some (e', res) \<and>
      place_outcome e e' s d ref qty price res" by blast+
    then show ?thesis using True ins by (simp add: place_order_def Let_def)
  next
    case False
    then have c: "level_count e s d = 1024" using arena_okD(2) [OF lob_wfD(1) [OF lob_invD(1) [OF inv]] s] by simp
    then have res: "place_order e s d ref qty price = Some (e, NoLevel)"
      using True by (simp add: place_order_def insert_level_impl_def Let_def)
    have "price \<notin> fst ` set (book e s d)" "length (book e s d) = 1024"
      using absent_book [OF absent] c by (simp_all add: book_length)
    then have "place_outcome e e s d ref qty price NoLevel"
      using inv by (force simp: place_outcome_def other_sides_kept_def)
    with res show ?thesis by blast
  qed
qed

section \<open>Taking quantity from an order\<close>

lemma queue_active:
  assumes "level_wf l"
  shows "r \<in> fst ` set (level_queue l) \<longleftrightarrow> (\<exists>k. active_id l k = Some r)"
proof -
  have sub: "k < 16" if "k \<in> set (level_chain l)" for k using assms that by (auto simp: level_wf_def chain_def)
  have "active_id l k = Some r \<longleftrightarrow> k \<in> set (level_chain l) \<and> slot_order_id (lvl_orders l ! k) = r" for k
    using assms sub [of k] by (auto simp: active_id_def level_wf_def)
  then show ?thesis by (auto simp: level_queue_def slot_entry_def image_iff)
qed

lemma take_queue_map:
  assumes "\<And>j. j \<in> set xs \<Longrightarrow> slot_order_id (lvl_orders l ! j) = ref \<longleftrightarrow> j = k"
  shows "spec_take_queue ref x (map (slot_entry l) xs) =
    (if x < slot_qty (lvl_orders l ! k)
     then map (\<lambda>j. if j = k then (slot_order_id (lvl_orders l ! k), slot_qty (lvl_orders l ! k) - x) else slot_entry l j) xs
     else map (slot_entry l) (filter (\<lambda>j. j \<noteq> k) xs))"
  using assms
proof (induction xs)
  case Nil
  then show ?case by (simp add: spec_take_queue_def)
next
  case (Cons a xs)
  have IH: "spec_take_queue ref x (map (slot_entry l) xs) =
    (if x < slot_qty (lvl_orders l ! k)
     then map (\<lambda>j. if j = k then (slot_order_id (lvl_orders l ! k), slot_qty (lvl_orders l ! k) - x) else slot_entry l j) xs
     else map (slot_entry l) (filter (\<lambda>j. j \<noteq> k) xs))"
    using Cons by simp
  have "slot_order_id (lvl_orders l ! a) = ref \<longleftrightarrow> a = k" using Cons.prems [of a] by simp
  then have "spec_take_order ref x (slot_entry l a) =
      (if a \<noteq> k then [slot_entry l a]
       else if x < slot_qty (lvl_orders l ! k) then [(slot_order_id (lvl_orders l ! k), slot_qty (lvl_orders l ! k) - x)] else [])"
    by (auto simp: spec_take_order_def slot_entry_def)
  moreover have "spec_take_queue ref x (map (slot_entry l) (a # xs)) =
      spec_take_order ref x (slot_entry l a) @ spec_take_queue ref x (map (slot_entry l) xs)"
    by (simp add: spec_take_queue_def)
  ultimately show ?case unfolding IH by simp
qed

lemma spec_take_other:
  assumes "\<And>l. l \<in> set M \<Longrightarrow> ref \<notin> fst ` set (level_queue l) \<and> level_queue l \<noteq> []"
  shows "spec_take ref x (side_book_of M) = side_book_of M"
proof -
  have "spec_take_queue ref x q = q" if "ref \<notin> fst ` set q" for q
    using that by (induction q) (auto simp: spec_take_queue_def spec_take_order_def)
  with assms show ?thesis by (induction M) (auto simp: spec_take_def side_book_of_def)
qed

lemma spec_take_append: "spec_take ref x (a @ b) = spec_take ref x a @ spec_take ref x b"
  by (simp add: spec_take_def)

lemma spec_take_at:
  assumes i: "i < length L"
    and others: "\<And>j. j < length L \<Longrightarrow> j \<noteq> i \<Longrightarrow> ref \<notin> fst ` set (level_queue (L ! j)) \<and> level_queue (L ! j) \<noteq> []"
  shows "spec_take ref x (side_book_of L) = side_book_of (take i L) @
    (let q = spec_take_queue ref x (level_queue (L ! i)) in if q = [] then [] else [(lvl_price (L ! i), q)]) @
    side_book_of (drop (Suc i) L)"
proof -
  have "side_book_of L = side_book_of (take i L) @ [(lvl_price (L ! i), level_queue (L ! i))] @ side_book_of (drop (Suc i) L)"
    using id_take_nth_drop [OF i] by (metis (no_types, lifting) append_Cons append_Nil list.simps(9) map_append side_book_of_def)
  moreover have "spec_take ref x (side_book_of (take i L)) = side_book_of (take i L)"
  proof (rule spec_take_other)
    fix l assume "l \<in> set (take i L)"
    then obtain j where "j < i" "j < length L" "l = L ! j" using i by (auto simp: in_set_conv_nth)
    with others [of j] show "ref \<notin> fst ` set (level_queue l) \<and> level_queue l \<noteq> []" by simp
  qed
  moreover have "spec_take ref x (side_book_of (drop (Suc i) L)) = side_book_of (drop (Suc i) L)"
  proof (rule spec_take_other)
    fix l assume "l \<in> set (drop (Suc i) L)"
    then obtain j where "j < length L - Suc i" "l = drop (Suc i) L ! j" by (auto simp: in_set_conv_nth)
    with others [of "Suc i + j"] show "ref \<notin> fst ` set (level_queue l) \<and> level_queue l \<noteq> []" by simp
  qed
  moreover have "spec_take ref x [(lvl_price (L ! i), level_queue (L ! i))] =
      (let q = spec_take_queue ref x (level_queue (L ! i)) in if q = [] then [] else [(lvl_price (L ! i), q)])"
    by (simp add: spec_take_def Let_def)
  ultimately show ?thesis by (simp only: spec_take_append)
qed

lemma side_book_of_update:
  "i < length L \<Longrightarrow> side_book_of (L[i := l]) =
   side_book_of (take i L) @ [(lvl_price l, level_queue l)] @ side_book_of (drop (Suc i) L)"
  by (simp add: upd_conv_take_nth_drop side_book_of_def)

text \<open>What is known of an order that the map knows.\<close>

definition order_at :: "LOBEngine \<Rightarrow> u64 \<Rightarrow> nat \<Rightarrow> nat \<Rightarrow> nat \<Rightarrow> nat \<Rightarrow> bool" where
  "order_at e ref s d i k \<longleftrightarrow> s < 512 \<and> d < 2 \<and> i < level_count e s d \<and> active_id (lv e s d i) k = Some ref"

lemma order_atD:
  assumes inv: "lob_inv e" and at: "order_at e ref s d i k"
  shows "k \<in> set (level_chain (lv e s d i))" "k < 16" "slot_order_id (lvl_orders (lv e s d i) ! k) = ref"
    "is_valid_quantity (slot_qty (lvl_orders (lv e s d i) ! k))" "level_wf (lv e s d i)"
    "j \<in> set (level_chain (lv e s d i)) \<Longrightarrow> slot_order_id (lvl_orders (lv e s d i) ! j) = ref \<longleftrightarrow> j = k"
    "j < level_count e s d \<Longrightarrow> j \<noteq> i \<Longrightarrow> ref \<notin> fst ` set (level_queue (side_levels e s d ! j))"
proof -
  let ?l = "lv e s d i"
  note wf = lob_invD(1) [OF inv]
  have s: "s < 512" "d < 2" "i < level_count e s d" and act: "active_id ?l k = Some ref"
    using at by (simp_all add: order_at_def)
  show lwf: "level_wf ?l" using side_okD(1) [OF lob_wfD(3) [OF wf s(1,2)] lv_in_side [OF s(3)]] .
  show k16: "k < 16" and id: "slot_order_id (lvl_orders ?l ! k) = ref"
    using act by (simp_all add: active_id_def split: if_splits)
  have "is_active (lvl_orders ?l ! k)" using act by (simp add: active_id_def split: if_splits)
  then show kin: "k \<in> set (level_chain ?l)" using lwf k16 by (simp add: level_wf_def)
  then show "is_valid_quantity (slot_qty (lvl_orders ?l ! k))" using lwf by (simp add: level_wf_def)
  have here: "loc_ref e (mk_loc s d i k) = Some ref" using s act by (simp add: loc_ref_mk_loc)
  show "slot_order_id (lvl_orders ?l ! j) = ref \<longleftrightarrow> j = k" if j: "j \<in> set (level_chain ?l)"
  proof
    assume "slot_order_id (lvl_orders ?l ! j) = ref"
    moreover have "j < 16" "is_active (lvl_orders ?l ! j)" using lwf j by (auto simp: level_wf_def chain_def)
    ultimately have "loc_ref e (mk_loc s d i j) = Some ref" using s by (simp add: loc_ref_mk_loc active_id_def)
    with loc_ref_unique [OF lob_wfD(2) [OF wf] here] show "j = k" by fastforce
  qed (simp add: id)
  show "ref \<notin> fst ` set (level_queue (side_levels e s d ! j))" if j: "j < level_count e s d" "j \<noteq> i"
  proof
    assume "ref \<in> fst ` set (level_queue (side_levels e s d ! j))"
    moreover have "level_wf (side_levels e s d ! j)"
      using side_okD(1) [OF lob_wfD(3) [OF wf s(1,2)] lv_in_side [OF j(1)]] j by simp
    ultimately obtain k' where "active_id (side_levels e s d ! j) k' = Some ref" using queue_active by blast
    then have "loc_ref e (mk_loc s d j k') = Some ref" using s j by (simp add: loc_ref_mk_loc)
    with loc_ref_unique [OF lob_wfD(2) [OF wf] here] j show False by fastforce
  qed
qed

lemma book_take:
  assumes inv: "lob_inv e" and at: "order_at e ref s d i k"
  shows "spec_take ref x (book e s d) = side_book_of (take i (side_levels e s d)) @
    (let q = spec_take_queue ref x (level_queue (lv e s d i)) in if q = [] then [] else [(lvl_price (lv e s d i), q)]) @
    side_book_of (drop (Suc i) (side_levels e s d))"
proof -
  have s: "s < 512" "d < 2" and i: "i < length (side_levels e s d)" using at by (simp_all add: order_at_def)
  have "ref \<notin> fst ` set (level_queue (side_levels e s d ! j)) \<and> level_queue (side_levels e s d ! j) \<noteq> []"
    if "j < length (side_levels e s d)" "j \<noteq> i" for j
    using order_atD(7) [OF inv at, of j] lob_invD(2) [OF inv s lv_in_side, of j] that by simp
  moreover have Li: "side_levels e s d ! i = lv e s d i" using i by simp
  ultimately show ?thesis using spec_take_at [OF i, of ref x] unfolding book_def Li by blast
qed

text \<open>The common end of execute, cancel, delete and replace: the order's slot has been dropped.\<close>

lemma forget_order_spec:
  assumes inv: "lob_inv e" and at: "order_at e ref s d i k" and x: "slot_qty (lvl_orders (lv e s d i) ! k) \<le> x"
    and l2: "level_wf l2" "level_queue l2 = map (slot_entry (lv e s d i)) (filter (\<lambda>j. j \<noteq> k) (level_chain (lv e s d i)))"
    "active_id l2 = (active_id (lv e s d i))(k := None)" "lvl_price l2 = lvl_price (lv e s d i)"
    and e': "e' = forget_order ref (mk_loc s d i k) (put_lv s d i l2 e)"
  shows "lob_inv e' \<and> other_sides_kept e e' s d \<and> book e' s d = spec_take ref x (book e s d) \<and>
    dom (om_lookup (le_order_map e')) = dom (om_lookup (le_order_map e)) - {ref} \<and>
    (\<forall>r. om_can_insert (le_order_map e) r \<longrightarrow> om_can_insert (le_order_map e') r)"
proof -
  let ?l = "lv e s d i" and ?L = "side_levels e s d" and ?m = "om_remove (le_order_map e) ref"
  note wf = lob_invD(1) [OF inv] and ne = lob_invD(2) [OF inv]
  note a = lob_wfD(1) [OF wf] and ok = lob_wfD(2) [OF wf]
  have s: "s < 512" "d < 2" and i: "i < level_count e s d" and act: "active_id ?l k = Some ref"
    using at by (simp_all add: order_at_def)
  note sok = lob_wfD(3) [OF wf s]
  have i1024: "i < 1024" using arena_okD(2) [OF a s] i by simp
  define e2 where "e2 = (put_lv s d i l2 e)\<lparr>le_order_map := ?m\<rparr>"
  have m: "om_inv ?m" "om_lookup ?m = (om_lookup (le_order_map e))(ref := None)"
    using om_remove_spec [OF map_okD(1) [OF ok]] by blast+
  have can: "om_can_insert ?m r" if "om_can_insert (le_order_map e) r" for r
    using can_insert_remove [OF map_okD(1) [OF ok] that] .
  have ok2: "map_ok e2" unfolding e2_def by (rule map_ok_removed [OF ok a s i act l2(3) m])
  have a2: "arena_ok e2" unfolding e2_def using arena_ok_put [OF a s(2) i1024 level_len [OF l2(1)]] by simp
  have ch2: "side_changed e e2 s d (?L[i := l2])" unfolding e2_def using side_changed_put [OF a s i] by simp
  have lv2: "lv e2 s d i = l2"
    using lv_put_lv [OF arena_okD(1) [OF a] s(2) s(2) i1024 i1024, of s l2 s] by (simp add: e2_def)
  have e': "e' = remove_level_if_empty s d i e2" by (simp add: e' forget_order_def mk_loc_def e2_def)
  have q: "spec_take_queue ref x (level_queue ?l) = level_queue l2"
    unfolding level_queue_def [of ?l] using take_queue_map [of "level_chain ?l" ?l ref k x] order_atD(6) [OF inv at] x l2(2)
    by simp
  have L2: "side_levels e2 s d = ?L[i := l2]" using side_changedD [OF ch2 s] by simp
  show ?thesis
  proof (cases "level_queue l2 = []")
    case True
    have i2: "i < level_count e2 s d" using i by (simp add: e2_def)
    have cnt: "lvl_order_count (lv e2 s d i) \<le> 0" and emp: "active_id (lv e2 s d i) = Map.empty"
      using level_empty [OF l2(1) True] lv2 by simp_all
    note rm = remove_level_spec [OF a2 ok2 s i2 cnt emp e']
    have "take i (?L[i := l2]) @ drop (Suc i) (?L[i := l2]) = take i ?L @ drop (Suc i) ?L" by simp
    then have ch: "side_changed e e' s d (take i ?L @ drop (Suc i) ?L)"
      using side_changed_trans [OF ch2 rm(4)] by (simp only: L2)
    have ne': "level_queue l' \<noteq> []" if "l' \<in> set (take i ?L @ drop (Suc i) ?L)" for l'
      using that ne [OF s] set_take_subset [of i ?L] set_drop_subset [of "Suc i" ?L] by auto
    have "lob_inv e'" using lob_inv_changed [OF ne wf ch rm(1,2) side_ok_remove [OF sok] ne'] .
    moreover have "book e' s d = spec_take ref x (book e s d)"
      using book_take [OF inv at, of x] q True changed_book [OF ch s] by (simp add: side_book_of_def)
    moreover have "same_keys ?m (le_order_map e')" using rm(3) by (simp add: e2_def)
    ultimately show ?thesis using changed_other_sides [OF ch] m(2) can by (auto simp: same_keys_def)
  next
    case False
    then have e'2: "e' = e2" unfolding e' using level_nonempty [OF l2(1)] lv2 by (intro remove_level_keep) simp
    have ne': "level_queue l' \<noteq> []" if "l' \<in> set (?L[i := l2])" for l'
      using that ne [OF s] False set_update_subset_insert [of ?L i l2] by auto
    have sok2: "side_ok d (?L[i := l2])" using side_ok_update [OF sok _ l2(1)] i l2(4) by simp
    have "lob_inv e'" unfolding e'2 by (rule lob_inv_changed [OF ne wf ch2 a2 ok2 sok2 ne'])
    moreover have "book e' s d = spec_take ref x (book e s d)"
      using book_take [OF inv at, of x] q False changed_book [OF ch2 s] i l2(4) by (simp add: e'2 side_book_of_update)
    ultimately show ?thesis using changed_other_sides [OF ch2] m(2) can by (auto simp: e'2 e2_def)
  qed
qed

lemma level_consume:
  assumes wf: "level_wf l" and k: "k \<in> set (level_chain l)"
    and l1: "lvl_orders l1 = (lvl_orders l)[k := (lvl_orders l ! k)\<lparr>slot_qty := z\<rparr>]" "lvl_head l1 = lvl_head l"
      "lvl_price l1 = lvl_price l" "lvl_total_qty l1 = lvl_total_qty l - slot_qty (lvl_orders l ! k)"
      "lvl_order_count l1 = lvl_order_count l"
    and l2: "l2 = (drop_slot l1 k)\<lparr>lvl_order_count := lvl_order_count (drop_slot l1 k) - 1\<rparr>"
  shows "level_wf l2" "level_queue l2 = map (slot_entry l) (filter (\<lambda>j. j \<noteq> k) (level_chain l))"
    "active_id l2 = (active_id l)(k := None)" "lvl_price l2 = lvl_price l"
proof -
  let ?xs = "level_chain l" and ?ys = "filter (\<lambda>j. j \<noteq> k) (level_chain l)"
  have c: "chain l ?xs" and len: "length (lvl_orders l) = 16" and dist: "distinct ?xs" and k16: "k < 16"
    using wf k by (auto simp: level_wf_def chain_def)
  have "chain (set_slot k (\<lambda>s. s\<lparr>slot_qty := z\<rparr>) l) ?xs" using c by (subst chain_set_slot) simp_all
  then have c1: "chain l1 ?xs" by (simp add: chain_def l1)
  have ord: "lvl_orders l1 ! j = (if j = k then (lvl_orders l ! k)\<lparr>slot_qty := z\<rparr> else lvl_orders l ! j)" for j
    using len k16 by (simp add: l1 nth_list_update)
  have act: "is_active (lvl_orders l1 ! j) = is_active (lvl_orders l ! j)" for j by (simp add: ord is_active_def)
  have act1: "is_active (lvl_orders l1 ! j) \<longleftrightarrow> j \<in> set ?xs" if "j < 16" for j
    using wf that by (simp add: act level_wf_def)
  have val1: "is_valid_quantity (slot_qty (lvl_orders l1 ! j))" if "j \<in> set ?xs" "j \<noteq> k" for j
    using wf that by (simp add: ord level_wf_def)
  have "sum_list (map (\<lambda>j. slot_qty (lvl_orders l1 ! j)) ?ys) = sum_list (map (\<lambda>j. slot_qty (lvl_orders l ! j)) ?ys)"
    by (intro arg_cong [of _ _ sum_list] map_cong) (auto simp: ord)
  also have "\<dots> = sum_list (map (\<lambda>j. slot_qty (lvl_orders l ! j)) ?xs) - slot_qty (lvl_orders l ! k)"
    by (rule sum_list_remove [OF dist k])
  also have "\<dots> = lvl_total_qty l1"
    using wf by (simp add: l1 level_wf_def level_queue_def slot_entry_def o_def)
  finally have tot: "lvl_total_qty l1 = sum_list (map (\<lambda>j. slot_qty (lvl_orders l1 ! j)) ?ys)" by simp
  have len1: "length (lvl_orders l1) = 16" using len by (simp add: l1)
  have lenu: "length (lvl_orders (unlink_slot l1 k)) = 16" using chain_unlink [OF c1 k] by (simp add: chain_def)
  note fr = drop_slot_frame(3,4,5) [OF len1 k16 lenu]
  have "lvl_order_count l = int (length ?xs)" using wf by (simp add: level_wf_def)
  then have l2': "l2 = (drop_slot l1 k)\<lparr>lvl_total_qty := lvl_total_qty l1, lvl_order_count := int (length ?xs) - 1\<rparr>"
    using fr l1(5) by (simp add: l2)
  note dr = level_drop [OF c1 k act1 val1 tot l2']
  show "level_wf l2" by (rule dr(1))
  have "map (slot_entry l1) ?ys = map (slot_entry l) ?ys"
    by (rule map_cong [OF refl]) (auto simp: slot_entry_def ord)
  then show "level_queue l2 = map (slot_entry l) ?ys" using dr(3) by simp
  have "active_id l1 = active_id l" by (auto simp: active_id_def fun_eq_iff ord is_active_def)
  then show "active_id l2 = (active_id l)(k := None)" using dr(4) by simp
  show "lvl_price l2 = lvl_price l" using fr(1) l1(3) by (simp add: l2)
qed

lemma mk_loc_fields [simp]:
  "loc_symbol_idx (mk_loc s d i k) = s" "loc_side (mk_loc s d i k) = d"
  "loc_level_idx (mk_loc s d i k) = i" "loc_slot_idx (mk_loc s d i k) = int k"
  by (simp_all add: mk_loc_def)

text \<open>The effect of removing an order, on everything the handlers look at.\<close>

definition took :: "LOBEngine \<Rightarrow> LOBEngine \<Rightarrow> u64 \<Rightarrow> nat \<Rightarrow> nat \<Rightarrow> int \<Rightarrow> bool" where
  "took e e' ref s d x \<longleftrightarrow> lob_inv e' \<and> other_sides_kept e e' s d \<and> book e' s d = spec_take ref x (book e s d)"

lemma erase_order_spec:
  assumes inv: "lob_inv e" and at: "order_at e ref s d i k"
    and x: "slot_qty (lvl_orders (lv e s d i) ! k) \<le> x" and e': "e' = erase_order e ref (mk_loc s d i k)"
  shows "took e e' ref s d x" "dom (om_lookup (le_order_map e')) = dom (om_lookup (le_order_map e)) - {ref}"
    "om_can_insert (le_order_map e) r \<Longrightarrow> om_can_insert (le_order_map e') r"
proof -
  let ?l = "lv e s d i"
  let ?q = "slot_qty (lvl_orders ?l ! k)"
  note od = order_atD [OF inv at]
  have wf: "level_wf ?l" and k: "k \<in> set (level_chain ?l)" using od by simp_all
  have dist: "distinct (level_chain ?l)" using wf by (simp add: level_wf_def chain_def)
  have pos: "\<And>j. j \<in> set (level_chain ?l) \<Longrightarrow> 0 \<le> slot_qty (lvl_orders ?l ! j)"
    using wf by (auto simp: level_wf_def numeric_valid)
  have q: "0 < ?q" using od(4) by (simp add: numeric_valid)
  have "?q \<le> lvl_total_qty ?l"
  proof -
    have "lvl_total_qty ?l = (\<Sum>j\<in>set (level_chain ?l). slot_qty (lvl_orders ?l ! j))"
      using wf dist by (simp add: level_wf_def level_queue_def slot_entry_def o_def sum_list_distinct_conv_sum_set)
    then show ?thesis using member_le_sum [OF k, of "\<lambda>j. slot_qty (lvl_orders ?l ! j)"] pos by simp
  qed
  then have "clamped_qty ?q (lvl_total_qty ?l) = ?q" using q by (simp add: clamped_qty_def)
  moreover have "s64 (lvl_total_qty ?l - ?q) = lvl_total_qty ?l - ?q"
    using level_total_bounds [OF wf] \<open>?q \<le> lvl_total_qty ?l\<close> q by (simp add: s64_id i64_bounds kMaxQuantity_def)
  ultimately have e'': "e' = forget_order ref (mk_loc s d i k) (put_lv s d i
      ((drop_slot (?l\<lparr>lvl_total_qty := lvl_total_qty ?l - ?q\<rparr>) k)
        \<lparr>lvl_order_count := lvl_order_count (drop_slot (?l\<lparr>lvl_total_qty := lvl_total_qty ?l - ?q\<rparr>) k) - 1\<rparr>) e)"
    by (simp add: e' erase_order_def Let_def)
  note lc = level_consume [OF wf k, of "?l\<lparr>lvl_total_qty := lvl_total_qty ?l - ?q\<rparr>" ?q, OF _ _ _ _ _ refl]
  have l1: "lvl_orders (?l\<lparr>lvl_total_qty := lvl_total_qty ?l - ?q\<rparr>) = (lvl_orders ?l)[k := (lvl_orders ?l ! k)\<lparr>slot_qty := ?q\<rparr>]"
    by simp
  from forget_order_spec [OF inv at x lc(1-4) [OF l1] e'']
  show "took e e' ref s d x" "dom (om_lookup (le_order_map e')) = dom (om_lookup (le_order_map e)) - {ref}"
    "om_can_insert (le_order_map e) r \<Longrightarrow> om_can_insert (le_order_map e') r"
    by (simp_all add: took_def)
qed

lemma reduce_order_spec:
  assumes inv: "lob_inv e" and at: "order_at e ref s d i k" and vq: "is_valid_quantity qty"
    and e': "e' = reduce_order e ref (mk_loc s d i k) qty"
  shows "took e e' ref s d qty"
proof -
  let ?l = "lv e s d i"
  let ?q = "slot_qty (lvl_orders ?l ! k)"
  note od = order_atD [OF inv at]
  have wf: "level_wf ?l" and k: "k \<in> set (level_chain ?l)" and k16: "k < 16" using od by simp_all
  have q: "0 < ?q" "?q \<le> kMaxQuantity" and qty: "0 < qty" "qty \<le> kMaxQuantity"
    using od(4) vq by (simp_all add: numeric_valid)
  note tb = level_total_bounds [OF wf] and len = level_len [OF wf]
  show ?thesis
  proof (cases "qty < ?q")
    case True
    define l1 where "l1 = (set_slot k (\<lambda>s. s\<lparr>slot_qty := s64 (slot_qty s - qty)\<rparr>) ?l)\<lparr>lvl_total_qty := s64 (lvl_total_qty ?l - qty)\<rparr>"
    have w: "s64 (?q - qty) = ?q - qty" "s64 (lvl_total_qty ?l - qty) = lvl_total_qty ?l - qty"
      using True qty q tb by (simp_all add: s64_id i64_bounds kMaxQuantity_def)
    have dl: "clamped_qty qty ?q = qty" using True qty q by (simp add: clamped_qty_def)
    have l1: "l1 = (set_slot k (\<lambda>s. s\<lparr>slot_qty := slot_qty s - qty\<rparr>) ?l)\<lparr>lvl_total_qty := lvl_total_qty ?l - qty\<rparr>"
      by (simp add: l1_def set_slot_def w)
    have "\<not> slot_qty (lvl_orders l1 ! k) \<le> 0" using True k16 len by (simp add: l1)
    then have e'': "e' = put_lv s d i l1 e" by (simp add: e' reduce_order_def Let_def dl l1_def)
    note lr = level_reduce [OF wf k qty(1) True l1]
    note iw = lob_invD(1) [OF inv] and ne = lob_invD(2) [OF inv]
    have s: "s < 512" "d < 2" and i: "i < level_count e s d" using at by (simp_all add: order_at_def)
    note a = lob_wfD(1) [OF iw] and ok = lob_wfD(2) [OF iw] and sok = lob_wfD(3) [OF iw s]
    have i1024: "i < 1024" using arena_okD(2) [OF a s] i by simp
    have ch: "side_changed e e' s d ((side_levels e s d)[i := l1])" unfolding e'' by (rule side_changed_put [OF a s i])
    have pr: "lvl_price l1 = lvl_price ?l" by (simp add: l1)
    have q1: "spec_take_queue ref qty (level_queue ?l) = level_queue l1"
      unfolding level_queue_def [of ?l] using take_queue_map [of "level_chain ?l" ?l ref k qty] od(6) True lr(3) by simp
    have q1ne: "level_queue l1 \<noteq> []" using lr(2) k by (auto simp: level_queue_def)
    have ne': "level_queue l' \<noteq> []" if "l' \<in> set ((side_levels e s d)[i := l1])" for l'
      using that ne [OF s] q1ne set_update_subset_insert [of "side_levels e s d" i l1] by auto
    have a': "arena_ok e'" unfolding e'' by (rule arena_ok_put [OF a s(2) i1024 level_len [OF lr(1)]])
    have ok': "map_ok e'" unfolding e'' by (rule map_ok_same [OF ok a s i lr(4)])
    have sok': "side_ok d ((side_levels e s d)[i := l1])" using side_ok_update [OF sok _ lr(1)] i pr by simp
    have "lob_inv e'" by (rule lob_inv_changed [OF ne iw ch a' ok' sok' ne'])
    moreover have "book e' s d = spec_take ref qty (book e s d)"
      using book_take [OF inv at, of qty] q1 q1ne changed_book [OF ch s] i pr by (simp add: side_book_of_update)
    ultimately show ?thesis using changed_other_sides [OF ch] by (simp add: took_def)
  next
    case False
    define l1 where "l1 = (set_slot k (\<lambda>s. s\<lparr>slot_qty := s64 (slot_qty s - ?q)\<rparr>) ?l)\<lparr>lvl_total_qty := s64 (lvl_total_qty ?l - ?q)\<rparr>"
    have dl: "clamped_qty qty ?q = ?q" using False qty q by (simp add: clamped_qty_def)
    have w: "s64 (lvl_total_qty ?l - ?q) = lvl_total_qty ?l - ?q" "s64 (?q - ?q) = 0"
      using q tb by (simp_all add: s64_id i64_bounds kMaxQuantity_def)
    have zero: "slot_qty (lvl_orders l1 ! k) \<le> 0" using k16 len w by (simp add: l1_def)
    have e'': "e' = forget_order ref (mk_loc s d i k) (put_lv s d i
        ((drop_slot l1 k)\<lparr>lvl_order_count := lvl_order_count (drop_slot l1 k) - 1\<rparr>) e)"
      using zero by (simp add: e' reduce_order_def Let_def dl l1_def)
    have l1: "lvl_orders l1 = (lvl_orders ?l)[k := (lvl_orders ?l ! k)\<lparr>slot_qty := 0\<rparr>]" "lvl_head l1 = lvl_head ?l"
      "lvl_price l1 = lvl_price ?l" "lvl_total_qty l1 = lvl_total_qty ?l - ?q" "lvl_order_count l1 = lvl_order_count ?l"
      using w by (simp_all add: l1_def)
    from forget_order_spec [OF inv at _ level_consume [OF wf k l1 refl] e'', of qty] False
    show ?thesis by (simp add: took_def)
  qed
qed

end
