(* ===== verification/LOB_Process.thy ===== *)
theory LOB_Process
  imports LOB_Refine
begin

text \<open>
  The message dispatcher against the abstract book: one specification step per message, the
  refinement theorem, runs of the feed from initialisation, and the meaning of the queries.
\<close>

section \<open>The specification step\<close>

type_synonym books = "nat \<Rightarrow> nat \<Rightarrow> side_book"

definition books_of :: "LOBEngine \<Rightarrow> books" where
  "books_of e = (\<lambda>s d. if s < kSymbols \<and> d < 2 then book e s d else [])"

definition refs :: "side_book \<Rightarrow> u64 set" where
  "refs bk = fst ` set (concat (map snd bk))"

text \<open>The side that holds an order.\<close>

definition holder :: "books \<Rightarrow> u64 \<Rightarrow> (nat \<times> nat) option" where
  "holder B ref = find (\<lambda>(s, d). ref \<in> refs (B s d)) (List.product [0..<kSymbols] [0..<2])"

definition update_side :: "nat \<Rightarrow> nat \<Rightarrow> (side_book \<Rightarrow> side_book) \<Rightarrow> books \<Rightarrow> books" where
  "update_side s d f B = (\<lambda>s' d'. if s' = s \<and> d' = d then f (B s' d') else B s' d')"

text \<open>Whether an order fits: its price has a free slot, or a new price has a free level.\<close>

definition fits :: "int \<Rightarrow> side_book \<Rightarrow> bool" where
  "fits price bk \<longleftrightarrow>
     (if price \<in> fst ` set bk then \<forall>x\<in>set bk. fst x = price \<longrightarrow> length (snd x) \<noteq> kMaxOrdersPerLevel
      else length bk \<noteq> kLevelsPerSide)"

definition spec_place :: "bool \<Rightarrow> nat \<Rightarrow> nat \<Rightarrow> u64 \<Rightarrow> int \<Rightarrow> int \<Rightarrow> books \<Rightarrow> books" where
  "spec_place ok s d ref qty price B =
     (if ok \<and> fits price (B s d) then update_side s d (spec_add d price (ref, qty)) B else B)"

definition spec_take_all :: "u64 \<Rightarrow> int \<Rightarrow> books \<Rightarrow> books" where
  "spec_take_all ref x B = (\<lambda>s d. spec_take ref x (B s d))"

text \<open>
  One message.  \<open>ok\<close> is whether the reference map takes the new reference.  No order is larger
  than \<open>kMaxQuantity\<close>, so taking that much deletes it.
\<close>

definition spec_step :: "bool \<Rightarrow> books \<Rightarrow> TickMsg \<Rightarrow> books" where
  "spec_step ok B tick =
     (let t = tk_msg_type tick; ref = tk_order_ref tick; qty = tk_qty tick; price = tk_price tick in
      if tk_symbol_idx tick \<ge> kSymbols then B
      else if t = kAddOrder \<or> t = kAddOrderMPID then
        (if ref = 0 \<or> \<not> is_valid_quantity qty \<or> \<not> is_valid_price price \<or> holder B ref \<noteq> None then B
         else spec_place ok (tk_symbol_idx tick) (if tk_flags tick AND kBuy \<noteq> 0 then 0 else 1) ref qty price B)
      else if t = kOrderExecuted \<or> t = kOrderExecPrice \<or> t = kOrderCancel then
        (if ref = 0 \<or> \<not> is_valid_quantity qty then B else spec_take_all ref qty B)
      else if t = kOrderDelete then
        (if ref = 0 then B else spec_take_all ref kMaxQuantity B)
      else if t = kOrderReplace then
        (if ref = 0 \<or> tk_match_num tick = 0 \<or> ref = tk_match_num tick \<or> \<not> is_valid_quantity qty \<or>
            \<not> is_valid_price price then B
         else case holder B ref of
                None \<Rightarrow> B
              | Some (s, d) \<Rightarrow>
                  if ok then spec_place True s d (tk_match_num tick) qty price (spec_take_all ref kMaxQuantity B)
                  else B)
      else B)"

text \<open>The reference a message would add to the book.\<close>

definition new_ref :: "TickMsg \<Rightarrow> u64" where
  "new_ref tick = (if tk_msg_type tick = kOrderReplace then tk_match_num tick else tk_order_ref tick)"

section \<open>References in the book and in the map\<close>

lemma ref_in_book:
  assumes inv: "lob_inv e" and s: "s < 512" "d < 2"
  shows "ref \<in> refs (book e s d) \<longleftrightarrow> (\<exists>i k. order_at e ref s d i k)"
proof -
  have "ref \<in> refs (book e s d) \<longleftrightarrow> (\<exists>l\<in>set (side_levels e s d). ref \<in> fst ` set (level_queue l))"
    by (auto simp: refs_def book_def side_book_of_def image_iff)
  also have "\<dots> \<longleftrightarrow> (\<exists>l\<in>set (side_levels e s d). \<exists>k. active_id l k = Some ref)"
    using queue_active side_okD(1) [OF lob_wfD(3) [OF lob_invD(1) [OF inv] s]] by blast
  also have "\<dots> \<longleftrightarrow> (\<exists>i k. order_at e ref s d i k)"
    using s by (auto simp: order_at_def side_levels_def)
  finally show ?thesis .
qed

lemma lookup_order_at:
  assumes inv: "lob_inv e"
  shows "om_lookup (le_order_map e) ref = Some loc \<longleftrightarrow> (\<exists>s d i k. loc = mk_loc s d i k \<and> order_at e ref s d i k)"
proof -
  have "loc_ref e (mk_loc s d i k) = Some ref \<longleftrightarrow> order_at e ref s d i k" for s d i k
    by (auto simp: loc_ref_mk_loc order_at_def)
  then show ?thesis
    using map_okD(2) [OF lob_wfD(2) [OF lob_invD(1) [OF inv]]] loc_ref_not_mk by metis
qed

lemma lookup_None_iff:
  assumes inv: "lob_inv e"
  shows "om_lookup (le_order_map e) ref = None \<longleftrightarrow> (\<forall>s d i k. \<not> order_at e ref s d i k)"
  using lookup_order_at [OF inv, of ref] by (metis not_None_eq)

lemma order_at_unique:
  assumes inv: "lob_inv e" and "order_at e ref s d i k" "order_at e ref s' d' i' k'"
  shows "s' = s" "d' = d"
proof -
  have "om_lookup (le_order_map e) ref = Some (mk_loc s d i k)" "om_lookup (le_order_map e) ref = Some (mk_loc s' d' i' k')"
    using lookup_order_at [OF inv] assms(2,3) by blast+
  then show "s' = s" "d' = d" by simp_all
qed

lemma holder_eq:
  assumes inv: "lob_inv e"
  shows "holder (books_of e) ref = None \<longleftrightarrow> om_lookup (le_order_map e) ref = None"
    and "order_at e ref s d i k \<Longrightarrow> holder (books_of e) ref = Some (s, d)"
proof -
  let ?P = "\<lambda>(s, d). ref \<in> refs (books_of e s d)"
  have P: "?P (s, d) \<longleftrightarrow> (\<exists>i k. order_at e ref s d i k)" if "s < 512" "d < 2" for s d
    using ref_in_book [OF inv that] that by (simp add: books_of_def)
  have rng: "(s, d) \<in> set (List.product [0..<512] [0..<2]) \<longleftrightarrow> s < 512 \<and> d < 2" for s d
    by (simp only: set_product set_upt mem_Sigma_iff atLeastLessThan_iff) simp
  have at_rng: "s < 512 \<and> d < 2" if "order_at e ref s d i k" for s d i k
    using that by (simp add: order_at_def)
  show "holder (books_of e) ref = None \<longleftrightarrow> om_lookup (le_order_map e) ref = None"
    unfolding holder_def find_None_iff lookup_None_iff [OF inv] using P rng at_rng by (metis (no_types, lifting) case_prodI2' surj_pair)
  assume at: "order_at e ref s d i k"
  show "holder (books_of e) ref = Some (s, d)"
  proof (cases "holder (books_of e) ref")
    case None
    then have "\<not> ?P (s, d)" using rng at_rng [OF at] unfolding holder_def find_None_iff by (metis (no_types, lifting))
    with P at at_rng [OF at] show ?thesis by blast
  next
    case (Some x)
    obtain s' d' where x: "x = (s', d')" by (cases x)
    have "?P x" "x \<in> set (List.product [0..<512] [0..<2])"
      using Some unfolding holder_def by (metis (no_types, lifting) find_Some_iff nth_mem)+
    then obtain i' k' where "order_at e ref s' d' i' k'" using P rng x by blast
    from order_at_unique [OF inv at this] Some x show ?thesis by simp
  qed
qed

section \<open>Counters and timestamps do not matter\<close>

lemma view_cong:
  assumes "le_arena e' = le_arena e" "le_order_map e' = le_order_map e" "level_count e' = level_count e"
  shows "lob_inv e' = lob_inv e" "books_of e' = books_of e"
proof -
  have l: "lv e' = lv e" by (simp add: lv_def fun_eq_iff assms(1))
  have sl: "side_levels e' = side_levels e" by (simp add: side_levels_def fun_eq_iff l assms(3))
  have "arena_ok e' = arena_ok e" by (simp add: arena_ok_def assms l)
  moreover have "loc_ref e' = loc_ref e" by (simp add: loc_ref_def fun_eq_iff sl assms(3))
  then have "map_ok e' = map_ok e" by (simp add: map_ok_def assms(2))
  ultimately show "lob_inv e' = lob_inv e" by (simp add: lob_inv_def lob_wf_def sl)
  show "books_of e' = books_of e" by (simp add: books_of_def book_def fun_eq_iff sl)
qed

lemma stats_view [simp]:
  "lob_inv (reject e) = lob_inv e" "books_of (reject e) = books_of e"
  "lob_inv (e\<lparr>stat_adds := n\<rparr>) = lob_inv e" "books_of (e\<lparr>stat_adds := n\<rparr>) = books_of e"
  "lob_inv (e\<lparr>stat_executes := n\<rparr>) = lob_inv e" "books_of (e\<lparr>stat_executes := n\<rparr>) = books_of e"
  "lob_inv (e\<lparr>stat_cancels := n\<rparr>) = lob_inv e" "books_of (e\<lparr>stat_cancels := n\<rparr>) = books_of e"
  "lob_inv (e\<lparr>stat_deletes := n\<rparr>) = lob_inv e" "books_of (e\<lparr>stat_deletes := n\<rparr>) = books_of e"
  "lob_inv (e\<lparr>stat_replaces := n\<rparr>) = lob_inv e" "books_of (e\<lparr>stat_replaces := n\<rparr>) = books_of e"
  "lob_inv (e\<lparr>stat_trades := n\<rparr>) = lob_inv e" "books_of (e\<lparr>stat_trades := n\<rparr>) = books_of e"
  by (rule view_cong; simp add: level_count_def fun_eq_iff reject_def)+

definition touch :: "TickMsg \<Rightarrow> LOBEngine \<Rightarrow> LOBEngine" where
  "touch tick e = (if tk_timestamp tick > 0
     then e\<lparr>le_meta := (le_meta e)(tk_symbol_idx tick :=
       (le_meta e (tk_symbol_idx tick))\<lparr>last_timestamp_ns := tk_timestamp tick\<rparr>)\<rparr> else e)"

lemma touch_view: "lob_inv (touch tick e) = lob_inv e" "books_of (touch tick e) = books_of e"
  "le_order_map (touch tick e) = le_order_map e"
  by (rule view_cong; simp add: touch_def level_count_def fun_eq_iff)+ (simp add: touch_def)

section \<open>Handlers\<close>

lemma absent_take:
  assumes inv: "lob_inv e" and s: "s < 512" "d < 2" and no: "ref \<notin> refs (book e s d)"
  shows "spec_take ref x (book e s d) = book e s d"
  unfolding book_def
proof (rule spec_take_other)
  fix l assume l: "l \<in> set (side_levels e s d)"
  have "ref \<notin> fst ` set (level_queue l)"
    using no l by (auto simp: refs_def book_def side_book_of_def image_iff)
  with lob_invD(2) [OF inv s l] show "ref \<notin> fst ` set (level_queue l) \<and> level_queue l \<noteq> []" by blast
qed

lemma absent_take_all:
  assumes inv: "lob_inv e" and no: "om_lookup (le_order_map e) ref = None"
  shows "spec_take_all ref x (books_of e) = books_of e"
proof -
  have "spec_take ref x (book e s d) = book e s d" if "s < 512" "d < 2" for s d
    using absent_take [OF inv that] ref_in_book [OF inv that] no lookup_None_iff [OF inv] by blast
  then show ?thesis by (auto simp: spec_take_all_def books_of_def fun_eq_iff spec_take_def)
qed

lemma took_books:
  assumes inv: "lob_inv e" and at: "order_at e ref s d i k" and took: "took e e' ref s d x"
  shows "books_of e' = spec_take_all ref x (books_of e)"
proof -
  have "book e' s' d' = spec_take ref x (book e s' d')" if sd: "s' < 512" "d' < 2" for s' d'
  proof (cases "s' = s \<and> d' = d")
    case True
    with took show ?thesis by (simp add: took_def)
  next
    case False
    then have "book e' s' d' = book e s' d'" using took sd by (auto simp: took_def other_sides_kept_def)
    moreover have "ref \<notin> refs (book e s' d')"
      using ref_in_book [OF inv sd] order_at_unique [OF inv at] False by blast
    ultimately show ?thesis using absent_take [OF inv sd] by simp
  qed
  then show ?thesis by (auto simp: spec_take_all_def books_of_def fun_eq_iff spec_take_def)
qed

lemma place_books:
  assumes out: "place_outcome e e' s d ref qty price res" and s: "s < 512" "d < 2"
  shows "books_of e' = spec_place (res \<noteq> MapRefused) s d ref qty price (books_of e)"
proof -
  have bk: "books_of e s d = book e s d" using s by (simp add: books_of_def)
  have full: "(\<exists>os. (price, os) \<in> set (book e s d) \<and> length os = 16) \<longleftrightarrow>
      price \<in> fst ` set (book e s d) \<and> \<not> (\<forall>x\<in>set (book e s d). fst x = price \<longrightarrow> length (snd x) \<noteq> 16)"
    by force
  have "fits price (book e s d) \<longleftrightarrow> res \<noteq> NoLevel \<and> res \<noteq> NoSlot"
    using out full by (auto simp: fits_def place_outcome_def)
  then have "res \<noteq> MapRefused \<and> fits price (books_of e s d) \<longleftrightarrow> res = Placed"
    using out by (cases res) (simp_all add: bk place_outcome_def)
  moreover have "books_of e' = (if res = Placed then update_side s d (spec_add d price (ref, qty)) (books_of e) else books_of e)"
  proof (intro ext)
    fix s' d'
    show "books_of e' s' d' = (if res = Placed then update_side s d (spec_add d price (ref, qty)) (books_of e) else books_of e) s' d'"
      using out s by (cases "s' = s \<and> d' = d") (auto simp: books_of_def update_side_def place_outcome_def other_sides_kept_def)
  qed
  ultimately show ?thesis by (simp add: spec_place_def)
qed

lemma valid_location_at:
  assumes inv: "lob_inv e" and at: "order_at e ref s d i k"
  shows "valid_location e ref (mk_loc s d i k)"
proof -
  note od = order_atD [OF inv at]
  have s: "s < 512" "d < 2" "i < level_count e s d" and act: "active_id (lv e s d i) k = Some ref"
    using at by (simp_all add: order_at_def)
  have "level_queue (lv e s d i) \<noteq> []" using lob_invD(2) [OF inv s(1,2) lv_in_side [OF s(3)]] .
  then have "lvl_order_count (lv e s d i) > 0" using level_nonempty [OF od(5)] by simp
  moreover have "is_active (lvl_orders (lv e s d i) ! k)" using act by (simp add: active_id_def split: if_splits)
  ultimately show ?thesis
    using s od(2,3,4) level_total_bounds [OF od(5)] by (simp add: valid_location_def Let_def numeric_valid)
qed

lemma erase_books:
  assumes inv: "lob_inv e" and at: "order_at e ref s d i k"
  shows "lob_inv (erase_order e ref (mk_loc s d i k)) \<and>
    books_of (erase_order e ref (mk_loc s d i k)) = spec_take_all ref kMaxQuantity (books_of e) \<and>
    (\<forall>r. om_can_insert (le_order_map e) r \<longrightarrow> om_can_insert (le_order_map (erase_order e ref (mk_loc s d i k))) r) \<and>
    (\<forall>r. om_lookup (le_order_map e) r = None \<longrightarrow> om_lookup (le_order_map (erase_order e ref (mk_loc s d i k))) r = None)"
proof -
  have "slot_qty (lvl_orders (lv e s d i) ! k) \<le> kMaxQuantity"
    using order_atD(4) [OF inv at] by (simp add: numeric_valid)
  note er = erase_order_spec [OF inv at this refl]
  have "lob_inv (erase_order e ref (mk_loc s d i k))" using er(1) by (simp add: took_def)
  moreover have "om_lookup (le_order_map (erase_order e ref (mk_loc s d i k))) r = None"
    if "om_lookup (le_order_map e) r = None" for r
    using that er(2) by (metis Diff_iff domIff)
  ultimately show ?thesis using took_books [OF inv at er(1)] er(3) by blast
qed

lemma executed_books:
  assumes inv: "lob_inv e" and vq: "is_valid_quantity (tk_qty tick)"
  shows "lob_inv (on_order_executed e tick) \<and>
    books_of (on_order_executed e tick) = spec_take_all (tk_order_ref tick) (tk_qty tick) (books_of e)"
proof -
  let ?e = "e\<lparr>stat_executes := stat_executes e + 1\<rparr>"
  have inv': "lob_inv ?e" using inv by simp
  show ?thesis
  proof (cases "om_lookup (le_order_map ?e) (tk_order_ref tick)")
    case None
    with absent_take_all [OF inv'] inv' show ?thesis by (simp add: on_order_executed_def Let_def)
  next
    case (Some loc)
    then obtain s d i k where loc: "loc = mk_loc s d i k" and at: "order_at ?e (tk_order_ref tick) s d i k"
      using lookup_order_at [OF inv'] by blast
    then have "on_order_executed e tick = reduce_order ?e (tk_order_ref tick) (mk_loc s d i k) (tk_qty tick)"
      using Some valid_location_at [OF inv' at] by (simp add: on_order_executed_def Let_def)
    moreover note tk = reduce_order_spec [OF inv' at vq refl]
    ultimately show ?thesis using took_books [OF inv' at tk] tk by (simp add: took_def)
  qed
qed

lemma cancel_books:
  assumes inv: "lob_inv e" and vq: "is_valid_quantity (tk_qty tick)"
  shows "lob_inv (on_order_cancel e tick) \<and>
    books_of (on_order_cancel e tick) = spec_take_all (tk_order_ref tick) (tk_qty tick) (books_of e)"
proof -
  let ?e = "e\<lparr>stat_cancels := stat_cancels e + 1\<rparr>"
  have inv': "lob_inv ?e" using inv by simp
  show ?thesis
  proof (cases "om_lookup (le_order_map ?e) (tk_order_ref tick)")
    case None
    with absent_take_all [OF inv'] inv' show ?thesis by (simp add: on_order_cancel_def Let_def)
  next
    case (Some loc)
    then obtain s d i k where loc: "loc = mk_loc s d i k" and at: "order_at ?e (tk_order_ref tick) s d i k"
      using lookup_order_at [OF inv'] by blast
    then have "on_order_cancel e tick = reduce_order ?e (tk_order_ref tick) (mk_loc s d i k) (tk_qty tick)"
      using Some valid_location_at [OF inv' at] by (simp add: on_order_cancel_def Let_def)
    moreover note tk = reduce_order_spec [OF inv' at vq refl]
    ultimately show ?thesis using took_books [OF inv' at tk] tk by (simp add: took_def)
  qed
qed

lemma delete_books:
  assumes inv: "lob_inv e"
  shows "lob_inv (on_order_delete e tick) \<and>
    books_of (on_order_delete e tick) = spec_take_all (tk_order_ref tick) kMaxQuantity (books_of e)"
proof -
  let ?e = "e\<lparr>stat_deletes := stat_deletes e + 1\<rparr>"
  have inv': "lob_inv ?e" using inv by simp
  show ?thesis
  proof (cases "om_lookup (le_order_map ?e) (tk_order_ref tick)")
    case None
    with absent_take_all [OF inv'] inv' show ?thesis by (simp add: on_order_delete_def Let_def)
  next
    case (Some loc)
    then obtain s d i k where loc: "loc = mk_loc s d i k" and at: "order_at ?e (tk_order_ref tick) s d i k"
      using lookup_order_at [OF inv'] by blast
    then have "on_order_delete e tick = erase_order ?e (tk_order_ref tick) (mk_loc s d i k)"
      using Some valid_location_at [OF inv' at] by (simp add: on_order_delete_def Let_def)
    with erase_books [OF inv' at] show ?thesis by simp
  qed
qed

lemma place_order_books:
  assumes inv: "lob_inv e" and s: "s < 512" "d < 2" and vp: "is_valid_price price"
    and free: "om_lookup (le_order_map e) ref = None" and q: "is_valid_quantity qty"
  obtains e' res where "place_order e s d ref qty price = Some (e', res)" "lob_inv e'"
    "books_of e' = spec_place (res \<noteq> MapRefused) s d ref qty price (books_of e)"
    "om_can_insert (le_order_map e) ref \<Longrightarrow> res \<noteq> MapRefused"
proof -
  from place_order_spec [OF assms] obtain e' res
    where p: "place_order e s d ref qty price = Some (e', res)" "place_outcome e e' s d ref qty price res" by blast
  show ?thesis
    by (rule that [OF p(1) _ place_books [OF p(2) s]]) (use p(2) in \<open>auto simp: place_outcome_def\<close>)
qed

lemma add_books:
  assumes inv: "lob_inv e" and s: "tk_symbol_idx tick < 512" and vp: "is_valid_price (tk_price tick)"
    and q: "is_valid_quantity (tk_qty tick)"
  shows "\<exists>e' ok. on_add_order e tick = Some e' \<and> lob_inv e' \<and>
    (om_can_insert (le_order_map e) (tk_order_ref tick) \<longrightarrow> ok) \<and>
    books_of e' = (if holder (books_of e) (tk_order_ref tick) \<noteq> None then books_of e
      else spec_place ok (tk_symbol_idx tick) (if tk_flags tick AND kBuy \<noteq> 0 then 0 else 1)
        (tk_order_ref tick) (tk_qty tick) (tk_price tick) (books_of e))"
proof -
  let ?e = "e\<lparr>stat_adds := stat_adds e + 1\<rparr>" and ?d = "if tk_flags tick AND kBuy \<noteq> 0 then 0 else 1 :: nat"
  have inv': "lob_inv ?e" using inv by simp
  show ?thesis
  proof (cases "om_lookup (le_order_map e) (tk_order_ref tick)")
    case (Some loc)
    then have "on_add_order e tick = Some (reject ?e)" by (simp add: on_add_order_def Let_def)
    moreover have "holder (books_of e) (tk_order_ref tick) \<noteq> None" using holder_eq(1) [OF inv] Some by simp
    ultimately show ?thesis using inv' by (intro exI [of _ "reject ?e"] exI [of _ True]) simp
  next
    case None
    then have free: "om_lookup (le_order_map ?e) (tk_order_ref tick) = None" by simp
    have d: "?d < 2" by simp
    obtain e' res where p: "place_order ?e (tk_symbol_idx tick) ?d (tk_order_ref tick) (tk_qty tick) (tk_price tick) = Some (e', res)"
      "lob_inv e'" "books_of e' = spec_place (res \<noteq> MapRefused) (tk_symbol_idx tick) ?d (tk_order_ref tick) (tk_qty tick) (tk_price tick) (books_of ?e)"
      "om_can_insert (le_order_map ?e) (tk_order_ref tick) \<Longrightarrow> res \<noteq> MapRefused"
      using place_order_books [OF inv' s d vp free q] by blast
    have "on_add_order e tick = Some (if res = Placed then e' else reject e')"
      using p(1) None by (cases res) (simp_all add: on_add_order_def Let_def)
    moreover have "holder (books_of e) (tk_order_ref tick) = None" using holder_eq(1) [OF inv] None by simp
    ultimately show ?thesis
      using p by (intro exI [of _ "if res = Placed then e' else reject e'"] exI [of _ "res \<noteq> MapRefused"]) auto
  qed
qed

lemma replace_books:
  assumes inv: "lob_inv e" and vp: "is_valid_price (tk_price tick)" and q: "is_valid_quantity (tk_qty tick)"
  shows "\<exists>e' ok. on_order_replace e tick = Some e' \<and> lob_inv e' \<and>
    (om_can_insert (le_order_map e) (tk_match_num tick) \<longrightarrow> ok) \<and>
    books_of e' = (case holder (books_of e) (tk_order_ref tick) of
        None \<Rightarrow> books_of e
      | Some (s, d) \<Rightarrow>
          if ok then spec_place True s d (tk_match_num tick) (tk_qty tick) (tk_price tick)
              (spec_take_all (tk_order_ref tick) kMaxQuantity (books_of e))
          else books_of e)"
proof -
  let ?e = "e\<lparr>stat_replaces := stat_replaces e + 1\<rparr>" and ?ref = "tk_order_ref tick" and ?new = "tk_match_num tick"
  have inv': "lob_inv ?e" using inv by simp
  show ?thesis
  proof (cases "om_lookup (le_order_map ?e) ?ref")
    case None
    then have "on_order_replace e tick = Some (reject ?e)" by (simp add: on_order_replace_def Let_def)
    moreover have "holder (books_of e) ?ref = None" using holder_eq(1) [OF inv] None by simp
    ultimately show ?thesis using inv' by (intro exI [of _ "reject ?e"] exI [of _ True]) simp
  next
    case (Some loc)
    then obtain s d i k where loc: "loc = mk_loc s d i k" and at: "order_at ?e ?ref s d i k"
      using lookup_order_at [OF inv'] by blast
    have h: "holder (books_of e) ?ref = Some (s, d)" using holder_eq(2) [OF inv' at] by simp
    note vl = valid_location_at [OF inv' at]
    show ?thesis
    proof (cases "om_can_insert (le_order_map e) ?new")
      case False
      then have "on_order_replace e tick = Some (reject ?e)"
        using Some vl loc by (simp add: on_order_replace_def Let_def)
      then show ?thesis using inv' False h by (intro exI [of _ "reject ?e"] exI [of _ False]) simp
    next
      case True
      let ?e1 = "erase_order ?e ?ref (mk_loc s d i k)"
      note er = erase_books [OF inv' at]
      have s: "s < 512" "d < 2" using at by (simp_all add: order_at_def)
      have "om_lookup (le_order_map e) ?new = None"
        using can_insert_absent [OF map_okD(1) [OF lob_wfD(2) [OF lob_invD(1) [OF inv]]] True] .
      then have free: "om_lookup (le_order_map ?e1) ?new = None" using er by simp
      have inv1: "lob_inv ?e1" using er by blast
      obtain e' res where p: "place_order ?e1 s d ?new (tk_qty tick) (tk_price tick) = Some (e', res)"
        "lob_inv e'" "books_of e' = spec_place (res \<noteq> MapRefused) s d ?new (tk_qty tick) (tk_price tick) (books_of ?e1)"
        "om_can_insert (le_order_map ?e1) ?new \<Longrightarrow> res \<noteq> MapRefused"
        using place_order_books [OF inv1 s vp free q] by blast
      have nr: "res \<noteq> MapRefused" using p(4) er True by simp
      have "on_order_replace e tick = Some (if res = Placed then e' else reject e')"
        using p(1) nr Some vl loc True by (cases res) (simp_all add: on_order_replace_def Let_def)
      then show ?thesis
        using p(2,3) nr h er by (intro exI [of _ "if res = Placed then e' else reject e'"] exI [of _ True]) auto
    qed
  qed
qed

section \<open>The dispatcher\<close>

lemma process_unlocked_touch:
  "tk_symbol_idx tick < 512 \<Longrightarrow> process_unlocked e tick =
     (let e = touch tick e; t = tk_msg_type tick in
      if t = kAddOrder \<or> t = kAddOrderMPID then
        (if tk_order_ref tick = 0 \<or> \<not> is_valid_quantity (tk_qty tick) \<or> \<not> is_valid_price (tk_price tick)
         then Some (reject e) else on_add_order e tick)
      else if t = kOrderExecuted \<or> t = kOrderExecPrice then
        (if tk_order_ref tick = 0 \<or> \<not> is_valid_quantity (tk_qty tick)
         then Some (reject e) else Some (on_order_executed e tick))
      else if t = kOrderCancel then
        (if tk_order_ref tick = 0 \<or> \<not> is_valid_quantity (tk_qty tick)
         then Some (reject e) else Some (on_order_cancel e tick))
      else if t = kOrderDelete then
        (if tk_order_ref tick = 0 then Some (reject e) else Some (on_order_delete e tick))
      else if t = kOrderReplace then
        (if tk_order_ref tick = 0 \<or> tk_match_num tick = 0 \<or> tk_order_ref tick = tk_match_num tick \<or>
            \<not> is_valid_quantity (tk_qty tick) \<or> \<not> is_valid_price (tk_price tick)
         then Some (reject e) else on_order_replace e tick)
      else if t = kTrade then
        (if \<not> is_valid_quantity (tk_qty tick) \<or> \<not> is_valid_price (tk_price tick)
         then Some (reject e) else Some (on_trade e tick))
      else Some (reject e))"
  by (simp add: process_unlocked_def touch_def Let_def)

definition step_ok :: "LOBEngine \<Rightarrow> TickMsg \<Rightarrow> LOBEngine \<Rightarrow> bool \<Rightarrow> bool" where
  "step_ok e tick e' ok \<longleftrightarrow> process_unlocked e tick = Some e' \<and> lob_inv e' \<and>
     (om_can_insert (le_order_map e) (new_ref tick) \<longrightarrow> ok) \<and> books_of e' = spec_step ok (books_of e) tick"

lemma itch_distinct:
  "kOrderReplace \<noteq> kAddOrder" "kOrderReplace \<noteq> kAddOrderMPID" "kOrderReplace \<noteq> kOrderExecuted"
  "kOrderReplace \<noteq> kOrderExecPrice" "kOrderReplace \<noteq> kOrderCancel" "kOrderReplace \<noteq> kOrderDelete"
  "kTrade \<noteq> kAddOrder" "kTrade \<noteq> kAddOrderMPID" "kTrade \<noteq> kOrderExecuted" "kTrade \<noteq> kOrderExecPrice"
  "kTrade \<noteq> kOrderCancel" "kTrade \<noteq> kOrderDelete" "kTrade \<noteq> kOrderReplace"
  "kOrderDelete \<noteq> kAddOrder" "kOrderDelete \<noteq> kAddOrderMPID" "kOrderDelete \<noteq> kOrderExecuted"
  "kOrderDelete \<noteq> kOrderExecPrice" "kOrderDelete \<noteq> kOrderCancel"
  "kOrderCancel \<noteq> kAddOrder" "kOrderCancel \<noteq> kAddOrderMPID" "kOrderCancel \<noteq> kOrderExecuted"
  "kOrderCancel \<noteq> kOrderExecPrice"
  "kOrderExecuted \<noteq> kAddOrder" "kOrderExecuted \<noteq> kAddOrderMPID"
  "kOrderExecPrice \<noteq> kAddOrder" "kOrderExecPrice \<noteq> kAddOrderMPID"
  by (simp_all add: itch_types)

lemma process_refines:
  assumes inv: "lob_inv e"
  shows "\<exists>e' ok. step_ok e tick e' ok"
proof (cases "tk_symbol_idx tick < 512")
  case False
  then have "process_unlocked e tick = Some (reject e)" by (simp add: process_unlocked_def)
  with False inv have "step_ok e tick (reject e) True" by (simp add: step_ok_def spec_step_def Let_def)
  then show ?thesis by blast
next
  case s: True
  let ?e = "touch tick e" and ?t = "tk_msg_type tick"
  have inv': "lob_inv ?e" using inv by (simp add: touch_view)
  note pr = process_unlocked_touch [OF s, of e] and sp = spec_step_def [of _ "books_of e" tick]
  note defs = step_ok_def pr sp Let_def touch_view new_ref_def itch_distinct
  have trivial: "\<exists>e' ok. step_ok e tick e' ok"
    if "process_unlocked e tick = Some e1" "lob_inv e1" "books_of e1 = books_of e" "spec_step True (books_of e) tick = books_of e" for e1
    using that by (intro exI [of _ e1] exI [of _ True]) (simp add: step_ok_def)
  consider (add) "?t = kAddOrder \<or> ?t = kAddOrderMPID" | (exec) "?t = kOrderExecuted \<or> ?t = kOrderExecPrice"
    | (cancel) "?t = kOrderCancel" | (del) "?t = kOrderDelete" | (rep) "?t = kOrderReplace" | (trade) "?t = kTrade"
    | (other) "?t \<notin> {kAddOrder, kAddOrderMPID, kOrderExecuted, kOrderExecPrice, kOrderCancel, kOrderDelete, kOrderReplace, kTrade}"
    by blast
  then show ?thesis
  proof cases
    case add
    show ?thesis
    proof (cases "tk_order_ref tick = 0 \<or> \<not> is_valid_quantity (tk_qty tick) \<or> \<not> is_valid_price (tk_price tick)")
      case True
      with add s inv' show ?thesis by (intro trivial [of "reject ?e"]) (auto simp: pr sp Let_def touch_view)
    next
      case False
      then have "is_valid_price (tk_price tick)" "is_valid_quantity (tk_qty tick)" by simp_all
      from add_books [OF inv' s this] obtain e' ok where "on_add_order ?e tick = Some e'" "lob_inv e'"
        "om_can_insert (le_order_map ?e) (tk_order_ref tick) \<longrightarrow> ok"
        "books_of e' = (if holder (books_of ?e) (tk_order_ref tick) \<noteq> None then books_of ?e
          else spec_place ok (tk_symbol_idx tick) (if tk_flags tick AND kBuy \<noteq> 0 then 0 else 1)
            (tk_order_ref tick) (tk_qty tick) (tk_price tick) (books_of ?e))" by blast
      with add False s show ?thesis
        by (intro exI [of _ e'] exI [of _ ok]) (auto simp: defs itch_types)
    qed
  next
    case exec
    show ?thesis
    proof (cases "tk_order_ref tick = 0 \<or> \<not> is_valid_quantity (tk_qty tick)")
      case True
      with exec s inv' show ?thesis by (intro trivial [of "reject ?e"]) (auto simp: pr sp Let_def touch_view itch_types)
    next
      case False
      with exec s executed_books [OF inv', of tick] show ?thesis
        by (intro exI [of _ "on_order_executed ?e tick"] exI [of _ True]) (auto simp: defs itch_types)
    qed
  next
    case cancel
    show ?thesis
    proof (cases "tk_order_ref tick = 0 \<or> \<not> is_valid_quantity (tk_qty tick)")
      case True
      with cancel s inv' show ?thesis by (intro trivial [of "reject ?e"]) (auto simp: pr sp Let_def touch_view itch_types)
    next
      case False
      with cancel s cancel_books [OF inv', of tick] show ?thesis
        by (intro exI [of _ "on_order_cancel ?e tick"] exI [of _ True]) (auto simp: defs itch_types)
    qed
  next
    case del
    show ?thesis
    proof (cases "tk_order_ref tick = 0")
      case True
      with del s inv' show ?thesis by (intro trivial [of "reject ?e"]) (auto simp: pr sp Let_def touch_view itch_types)
    next
      case False
      with del s delete_books [OF inv', of tick] show ?thesis
        by (intro exI [of _ "on_order_delete ?e tick"] exI [of _ True]) (auto simp: defs itch_types)
    qed
  next
    case rep
    show ?thesis
    proof (cases "tk_order_ref tick = 0 \<or> tk_match_num tick = 0 \<or> tk_order_ref tick = tk_match_num tick \<or>
        \<not> is_valid_quantity (tk_qty tick) \<or> \<not> is_valid_price (tk_price tick)")
      case True
      with rep s inv' show ?thesis by (intro trivial [of "reject ?e"]) (auto simp: pr sp Let_def touch_view itch_types)
    next
      case False
      then have "is_valid_price (tk_price tick)" "is_valid_quantity (tk_qty tick)" by simp_all
      from replace_books [OF inv' this, unfolded touch_view] obtain e' ok where "on_order_replace ?e tick = Some e'" "lob_inv e'"
        "om_can_insert (le_order_map e) (tk_match_num tick) \<longrightarrow> ok"
        "books_of e' = (case holder (books_of e) (tk_order_ref tick) of
            None \<Rightarrow> books_of e
          | Some (s, d) \<Rightarrow>
              if ok then spec_place True s d (tk_match_num tick) (tk_qty tick) (tk_price tick)
                  (spec_take_all (tk_order_ref tick) kMaxQuantity (books_of e))
              else books_of e)" by blast
      with rep False s show ?thesis
        by (intro exI [of _ e'] exI [of _ ok]) (simp add: defs)
    qed
  next
    case trade
    with s inv' show ?thesis
      by (intro trivial [of "if is_valid_quantity (tk_qty tick) \<and> is_valid_price (tk_price tick) then on_trade ?e tick else reject ?e"])
        (auto simp: pr sp Let_def touch_view itch_types on_trade_def)
  next
    case other
    with s inv' show ?thesis by (intro trivial [of "reject ?e"]) (auto simp: pr sp Let_def touch_view)
  qed
qed

section \<open>Runs of the feed\<close>

text \<open>The engine as a machine that keeps its invariant; processing never fails to return.\<close>

definition lob_step :: "LOBEngine \<Rightarrow> TickMsg \<Rightarrow> LOBEngine" where
  "lob_step e tick = (case process_unlocked e tick of None \<Rightarrow> e | Some e' \<Rightarrow> e')"

interpretation lobm: invariant_machine lob_step lob_inv
proof
  fix e tick assume "lob_inv e"
  then show "lob_inv (lob_step e tick)" using process_refines [of e tick] by (auto simp: step_ok_def lob_step_def)
qed

lemma process_all_run: "lob_inv e \<Longrightarrow> process_all e ts = Some (foldl lob_step e ts)"
proof (induction ts arbitrary: e)
  case (Cons t ts)
  from process_refines [OF Cons.prems, of t] obtain e' where "process_unlocked e t = Some e'" "lob_inv e'"
    by (auto simp: step_ok_def)
  with Cons.IH show ?case by (simp add: lob_step_def)
qed simp

fun spec_run :: "bool list \<Rightarrow> books \<Rightarrow> TickMsg list \<Rightarrow> books" where
  "spec_run (ok # oks) B (t # ts) = spec_run oks (spec_step ok B t) ts"
| "spec_run oks B ts = B"

lemma run_refines:
  "lob_inv e \<Longrightarrow> \<exists>oks. length oks = length ts \<and> books_of (foldl lob_step e ts) = spec_run oks (books_of e) ts \<and>
     (\<forall>i<length ts. om_can_insert (le_order_map (foldl lob_step e (take i ts))) (new_ref (ts ! i)) \<longrightarrow> oks ! i)"
proof (induction ts arbitrary: e)
  case (Cons t ts)
  from process_refines [OF Cons.prems, of t] obtain e' ok where st: "step_ok e t e' ok" by blast
  then have e': "lob_step e t = e'" "lob_inv e'" "books_of e' = spec_step ok (books_of e) t"
    "om_can_insert (le_order_map e) (new_ref t) \<longrightarrow> ok"
    by (simp_all add: step_ok_def lob_step_def)
  from Cons.IH [OF e'(2)] obtain oks where "length oks = length ts"
    "books_of (foldl lob_step e' ts) = spec_run oks (books_of e') ts"
    "\<forall>i<length ts. om_can_insert (le_order_map (foldl lob_step e' (take i ts))) (new_ref (ts ! i)) \<longrightarrow> oks ! i" by blast
  with e' show ?case by (intro exI [of _ "ok # oks"]) (auto simp: less_Suc_eq_0_disj)
qed simp

lemma lob_init_inv:
  assumes "lob_init True ar e0 = (True, e)" and len: "\<And>i. length (lvl_orders (lob_flat ar i)) = kMaxOrdersPerLevel"
  shows "lob_inv e \<and> books_of e = (\<lambda>_ _. [])"
proof -
  obtain m where m: "om_init True (le_order_map e0) = (True, m)" "le_order_map e = m" and ar: "le_arena e = Some ar"
    and meta: "le_meta e = (\<lambda>_. empty_meta)"
    using assms(1) by (auto simp: lob_init_def Let_def split: if_splits prod.splits bool.splits)
  note mi = om_init_inv [OF m(1)]
  have cnt: "level_count e = (\<lambda>_ _. 0)" by (simp add: level_count_def fun_eq_iff meta empty_meta_def)
  then have sl: "side_levels e = (\<lambda>_ _. [])" by (simp add: side_levels_def fun_eq_iff)
  have "loc_ref e = (\<lambda>_. None)" by (simp add: loc_ref_def fun_eq_iff cnt)
  then have "map_ok e" using mi m by (simp add: map_ok_def)
  moreover have "arena_ok e" using len by (simp add: arena_ok_def ar cnt lv_def level_def)
  ultimately have "lob_inv e" by (simp add: lob_inv_def lob_wf_def sl side_ok_def prices_sorted_def)
  then show ?thesis by (simp add: books_of_def book_def side_book_of_def sl fun_eq_iff)
qed

lemma arena_init_levels:
  "arena_init mm ml a = (True, ar) \<Longrightarrow> length (lvl_orders (lob_flat ar i)) = kMaxOrdersPerLevel"
  by (auto simp: arena_init_def zero_level_def split: if_splits option.splits prod.splits)

section \<open>Queries\<close>

lemma books_sorted:
  assumes "lob_inv e" "s < 512" "d < 2"
  shows "sorted_wrt (\<lambda>x y. before d (fst x) (fst y)) (books_of e s d)"
  using lob_wfD(3) [OF lob_invD(1) [OF assms(1)] assms(2,3)] assms
  by (simp add: books_of_def book_def side_book_of_def side_ok_def prices_sorted_def sorted_wrt_map)

lemma first_level:
  assumes "s < 512" "d < 2" "level_count e s d \<noteq> 0"
  shows "fst (hd (books_of e s d)) = lvl_price (lv e s d 0)"
proof -
  have "side_levels e s d \<noteq> []" using assms(3) by (simp add: side_levels_def)
  then have "hd (side_levels e s d) = lv e s d 0" using assms(3) by (simp add: hd_conv_nth)
  with \<open>side_levels e s d \<noteq> []\<close> assms show ?thesis by (simp add: books_of_def book_def side_book_of_def hd_map)
qed

lemma best_first:
  assumes inv: "lob_inv e" and s: "s < 512" "d < 2" and ne: "books_of e s d \<noteq> []"
  shows "fst (hd (books_of e s d)) = (if d = 0 then Max else Min) (fst ` set (books_of e s d))"
proof -
  obtain x xs where x: "books_of e s d = x # xs" using ne by (cases "books_of e s d") auto
  with books_sorted [OF inv s] have "\<forall>y\<in>set xs. before d (fst x) (fst y)" by simp
  then show ?thesis
    unfolding x by (cases "d = 0") (auto simp: before_def intro!: Max_eqI [symmetric] Min_eqI [symmetric])
qed

lemma level_count_zero: "s < 512 \<Longrightarrow> d < 2 \<Longrightarrow> level_count e s d = 0 \<longleftrightarrow> books_of e s d = []"
  by (simp add: books_of_def book_def side_book_of_def side_levels_def)

lemma best_bid_eq:
  assumes "lob_inv e" "s < 512"
  shows "best_bid_price e s = (if books_of e s 0 = [] then 0 else Max (fst ` set (books_of e s 0)))"
  using assms first_level [of s 0 e] best_first [of e s 0] level_count_zero [of s 0 e]
  by (auto simp: best_bid_price_def level_count_def)

lemma best_ask_eq:
  assumes "lob_inv e" "s < 512"
  shows "best_ask_price e s = (if books_of e s 1 = [] then 0 else Min (fst ` set (books_of e s 1)))"
  using assms first_level [of s 1 e] best_first [of e s 1] level_count_zero [of s 1 e]
  by (auto simp: best_ask_price_def level_count_def)

lemma books_valid_price:
  assumes "lob_inv e" "s < 512" "d < 2" "x \<in> set (books_of e s d)"
  shows "is_valid_price (fst x)"
  using assms side_okD(2) [OF lob_wfD(3) [OF lob_invD(1) [OF assms(1)] assms(2,3)]]
  by (auto simp: books_of_def book_def side_book_of_def)

lemma level_total_book:
  assumes inv: "lob_inv e" and s: "s < 512" "d < 2" and i: "i < level_count e s d"
  shows "lvl_total_qty (lv e s d i) = sum_list (map snd (snd (books_of e s d ! i))) \<and>
    0 \<le> lvl_total_qty (lv e s d i) \<and> lvl_total_qty (lv e s d i) \<le> 16 * kMaxQuantity"
proof -
  have wf: "level_wf (lv e s d i)"
    using side_okD(1) [OF lob_wfD(3) [OF lob_invD(1) [OF inv] s] lv_in_side [OF i]] .
  have "snd (books_of e s d ! i) = level_queue (lv e s d i)"
    using s i by (simp add: books_of_def book_def side_book_of_def)
  with wf level_total_bounds [OF wf] show ?thesis by (simp add: level_wf_def)
qed

lemma depth_qty_eq:
  assumes inv: "lob_inv e" and s: "s < 512" "d < 2" and n: "n \<le> level_count e s d"
  shows "depth_qty e s d n = sum_list (map (\<lambda>x. sum_list (map snd (snd x))) (take n (books_of e s d))) \<and>
    0 \<le> depth_qty e s d n \<and> depth_qty e s d n \<le> int n * (16 * kMaxQuantity)"
  using n
proof (induction n)
  case 0
  then show ?case by (simp add: depth_qty_def)
next
  case (Suc n)
  let ?t = "lvl_total_qty (lv e s d n)"
  have IH: "depth_qty e s d n = sum_list (map (\<lambda>x. sum_list (map snd (snd x))) (take n (books_of e s d)))"
    "0 \<le> depth_qty e s d n" "depth_qty e s d n \<le> int n * (16 * kMaxQuantity)" using Suc by simp_all
  have t: "?t = sum_list (map snd (snd (books_of e s d ! n)))" "0 \<le> ?t" "?t \<le> 16 * kMaxQuantity"
    using level_total_book [OF inv s, of n] Suc.prems by simp_all
  have c: "level_count e s d \<le> 1024" using arena_okD(2) [OF lob_wfD(1) [OF lob_invD(1) [OF inv]] s] .
  have "depth_qty e s d n + ?t \<le> 1024 * (16 * kMaxQuantity)"
    using IH(3) t(3) Suc.prems c by (simp add: kMaxQuantity_def)
  then have "i64 (depth_qty e s d n + ?t)" using IH(2) t(2) by (simp add: i64_bounds kMaxQuantity_def)
  moreover have "depth_qty e s d (Suc n) = s64 (depth_qty e s d n + ?t)" by (simp add: depth_qty_def)
  ultimately have d: "depth_qty e s d (Suc n) = depth_qty e s d n + ?t" by (simp add: s64_id)
  have len: "n < length (books_of e s d)" using Suc.prems s by (simp add: books_of_def book_length)
  show ?case
    unfolding d take_Suc_conv_app_nth [OF len] using IH t by (simp add: algebra_simps)
qed

lemma active_count_eq:
  assumes inv: "lob_inv e"
  shows "unat (active_order_count e) = card {r. holder (books_of e) r \<noteq> None}"
proof -
  let ?m = "le_order_map e"
  have om: "om_inv ?m" using map_okD(1) [OF lob_wfD(2) [OF lob_invD(1) [OF inv]]] .
  have "{r. holder (books_of e) r \<noteq> None} = om_key ?m ` om_used ?m"
    unfolding holder_eq(1) [OF inv] om_lookup_None [OF om] by blast
  moreover have "inj_on (om_key ?m) (om_used ?m)" "unat (om_count ?m) = card (om_used ?m)"
    using om by (simp_all add: om_inv_def)
  ultimately show ?thesis by (simp add: active_order_count_def card_image)
qed

section \<open>A replace that cannot be placed\<close>

lemma holder_take_all: "holder (spec_take_all ref kMaxQuantity B) ref = None"
  if "\<And>s d x y. s < 512 \<Longrightarrow> d < 2 \<Longrightarrow> x \<in> set (B s d) \<Longrightarrow> y \<in> set (snd x) \<Longrightarrow> snd y \<le> kMaxQuantity"
proof -
  have "ref \<notin> refs (spec_take ref kMaxQuantity (B s d))" if sd: "s < 512" "d < 2" for s d
  proof
    assume "ref \<in> refs (spec_take ref kMaxQuantity (B s d))"
    then obtain x y z where x: "x \<in> set (B s d)" "y \<in> set (snd x)" "z \<in> set (spec_take_order ref kMaxQuantity y)" "fst z = ref"
      by (auto simp: refs_def spec_take_def spec_take_queue_def)
    with \<open>\<And>s d x y. s < 512 \<Longrightarrow> d < 2 \<Longrightarrow> x \<in> set (B s d) \<Longrightarrow> y \<in> set (snd x) \<Longrightarrow> snd y \<le> kMaxQuantity\<close> [OF sd x(1,2)]
    show False by (auto simp: spec_take_order_def split: if_splits)
  qed
  then show ?thesis by (auto simp: holder_def find_None_iff spec_take_all_def)
qed

lemma books_quantity:
  assumes "lob_inv e" "s < 512" "d < 2" "x \<in> set (books_of e s d)" "y \<in> set (snd x)"
  shows "is_valid_quantity (snd y)"
  using assms side_okD(1) [OF lob_wfD(3) [OF lob_invD(1) [OF assms(1)] assms(2,3)]]
  by (fastforce simp: books_of_def book_def side_book_of_def level_queue_def slot_entry_def level_wf_def)

text \<open>
  When the new price has no room, the original order is gone although the pre-flight check of the
  reference map succeeded: the handler deletes before it looks for a level and a slot.
\<close>

lemma replace_loses_original:
  assumes inv: "lob_inv e" and t: "tk_msg_type tick = kOrderReplace" "tk_symbol_idx tick < 512"
    "tk_order_ref tick \<noteq> 0" "tk_match_num tick \<noteq> 0" "tk_order_ref tick \<noteq> tk_match_num tick"
    "is_valid_quantity (tk_qty tick)" "is_valid_price (tk_price tick)"
    and h: "holder (books_of e) (tk_order_ref tick) = Some (s, d)"
    and can: "om_can_insert (le_order_map e) (tk_match_num tick)"
    and full: "\<not> fits (tk_price tick) (spec_take (tk_order_ref tick) kMaxQuantity (books_of e s d))"
  shows "\<exists>e'. process_unlocked e tick = Some e' \<and> holder (books_of e') (tk_order_ref tick) = None \<and>
    books_of e' = spec_take_all (tk_order_ref tick) kMaxQuantity (books_of e)"
proof -
  from process_refines [OF inv, of tick] obtain e' ok where st: "step_ok e tick e' ok" by blast
  have ok using st can t(1) by (simp add: step_ok_def new_ref_def)
  then have "books_of e' = spec_take_all (tk_order_ref tick) kMaxQuantity (books_of e)"
    using st t h full by (simp add: step_ok_def spec_step_def itch_distinct Let_def spec_place_def spec_take_all_def)
  moreover have "holder (spec_take_all (tk_order_ref tick) kMaxQuantity (books_of e)) (tk_order_ref tick) = None"
    using books_quantity [OF inv] by (intro holder_take_all) (simp add: numeric_valid)
  ultimately show ?thesis using st by (auto simp: step_ok_def)
qed

end
