(* ===== verification/LOB_Properties.thy ===== *)
theory LOB_Properties
  imports LOB_Process
begin

text \<open>
  The properties of the order book engine: refinement of the price-time priority book for one
  message and for whole feeds, correctness of the level search, the meaning of the quotes, the
  depth and the order count, and what a replace that cannot be placed does.
\<close>

section \<open>A concrete engine\<close>

definition zero_arena :: Arena where
  "zero_arena = \<lparr>ar_base = None, ar_total_size = 0, ar_capacity_mode = kFull, ar_initialised = False,
     ar_mlocked = False, ar_ai_region = None, ar_ai_region_size = 0, lob_flat = (\<lambda>_. zero_level),
     exec_states = (\<lambda>_. zero_exec_state),
     tick_ring = \<lparr>rg_head = 0, rg_tail = 0, rg_slots = None\<rparr>\<rparr>"

definition zero_engine :: LOBEngine where
  "zero_engine = \<lparr>le_arena = None, le_order_map = empty_map\<lparr>om_keys := None\<rparr>, le_meta = (\<lambda>_. empty_meta),
     stat_adds = 0, stat_executes = 0, stat_cancels = 0, stat_deletes = 0, stat_replaces = 0,
     stat_trades = 0, stat_rejected = 0\<rparr>"

definition sample_arena :: Arena where
  "sample_arena = snd (arena_init (\<lambda>_. Some 4096) True zero_arena)"

definition sample_engine :: LOBEngine where
  "sample_engine = snd (lob_init True sample_arena zero_engine)"

definition sample_add :: "u64 \<Rightarrow> int \<Rightarrow> int \<Rightarrow> TickMsg" where
  "sample_add ref qty price = empty_tick\<lparr>tk_msg_type := kAddOrder, tk_flags := kBuy, tk_symbol_idx := 3,
     tk_order_ref := ref, tk_qty := qty, tk_price := price\<rparr>"

lemma sample_arena_init: "arena_init (\<lambda>_. Some 4096) True zero_arena = (True, sample_arena)"
proof -
  have "can_align_up (of_nat kInfraRaw) kHugePage" "kGrandTotal \<noteq> 0"
    by (simp_all add: can_align_up_def kHugePage_def kInfraRaw_def kLOB_def kTickRing_def kTickCapacity_def
        kFeatures_def kSignals_def kExecState_def kTelemetry_def kTelemCapacity_def kWebSocketControlPlane_def
        kGrandTotal_def kAIRegion_def word_le_nat_alt)
  then show ?thesis by (simp add: sample_arena_def arena_init_def zero_arena_def)
qed

lemma arena_init_initialised: "arena_init mm ml a = (True, ar) \<Longrightarrow> ar_initialised ar"
  by (auto simp: arena_init_def split: if_splits option.splits prod.splits)

lemma sample_engine_init: "lob_init True sample_arena zero_engine = (True, sample_engine)"
proof -
  have "ar_initialised sample_arena"
    by (rule arena_init_initialised [OF sample_arena_init])
  then show ?thesis
    using empty_map_init by (simp add: sample_engine_def lob_init_def Let_def zero_engine_def)
qed

lemma sample_engine_inv: "lob_inv sample_engine" "books_of sample_engine = (\<lambda>_ _. [])"
  using lob_init_inv [OF sample_engine_init arena_init_levels [OF sample_arena_init]] by simp_all

section \<open>Refinement\<close>

text \<open>
  C1: Processing one message in any reachable state returns (the walk along a level's list ends),
  keeps the engine's invariant, and changes the book exactly as the price-time priority
  specification prescribes for that message: adds join the tail of their price, executions and
  cancels take quantity and drop exhausted orders and prices, deletes and replaces act on the
  order named, everything else leaves the book alone.  The only freedom is whether the reference
  map accepts a new reference, and a reference that passes \<open>can_insert\<close> is always accepted.
\<close>

theorem lob_step_refines:
  assumes "lob_inv e"
  shows "\<exists>e' ok. process_unlocked e tick = Some e' \<and> lob_inv e' \<and>
    (om_can_insert (le_order_map e) (new_ref tick) \<longrightarrow> ok) \<and> books_of e' = spec_step ok (books_of e) tick"
  using process_refines [OF assms, of tick] by (simp add: step_ok_def)

theorem lob_step_refines_witness:
  "\<exists>e' ok. process_unlocked sample_engine (sample_add 7 100 5000) = Some e' \<and> lob_inv e' \<and>
    (om_can_insert (le_order_map sample_engine) (new_ref (sample_add 7 100 5000)) \<longrightarrow> ok) \<and>
    books_of e' = spec_step ok (\<lambda>_ _. []) (sample_add 7 100 5000)"
  using lob_step_refines [OF sample_engine_inv(1), of "sample_add 7 100 5000"] by (simp add: sample_engine_inv(2))

text \<open>
  C2: From a successful \<open>Arena::init\<close> and \<open>LOBEngine::init\<close>, every feed of messages is processed
  to the end, the engine's invariant holds after it, and the book is the one the specification
  computes from the empty book, message by message.  The specification leaves open only whether the
  reference map takes the reference of an add or replace; it does whenever the reference is not a
  marker and not in the map, the map is below its limit, and one of the 256 slots on the probe of the
  reference was never used, in the state the engine is in when the message arrives.
\<close>

theorem lob_feed_refines:
  assumes "arena_init mm ml a = (True, ar)" and "lob_init True ar e0 = (True, e)"
  shows "\<exists>e' oks. process_all e ts = Some e' \<and> lob_inv e' \<and> length oks = length ts \<and>
    books_of e' = spec_run oks (\<lambda>_ _. []) ts \<and>
    (\<forall>i<length ts. \<exists>ei. process_all e (take i ts) = Some ei \<and> (om_room (le_order_map ei) (new_ref (ts ! i)) \<longrightarrow> oks ! i))"
proof -
  have inv: "lob_inv e" and empty: "books_of e = (\<lambda>_ _. [])"
    using lob_init_inv [OF assms(2) arena_init_levels [OF assms(1)]] by simp_all
  let ?e = "\<lambda>i. foldl lob_step e (take i ts)"
  obtain oks where oks: "length oks = length ts" "books_of (foldl lob_step e ts) = spec_run oks (\<lambda>_ _. []) ts"
    "\<forall>i<length ts. om_can_insert (le_order_map (?e i)) (new_ref (ts ! i)) \<longrightarrow> oks ! i"
    using run_refines [OF inv, of ts] unfolding empty by blast
  have "om_can_insert (le_order_map (?e i)) k" if "om_room (le_order_map (?e i)) k" for i k
    using lobm.inv_run [OF inv, of "take i ts"] that by (intro room_can_insert) (simp_all add: lob_inv_def lob_wf_def map_ok_def)
  then show ?thesis
    using oks process_all_run [OF inv] lobm.inv_run [OF inv, of ts] by (intro exI [of _ "foldl lob_step e ts"] exI [of _ oks]) auto
qed

lemma sample_room: "om_room (le_order_map sample_engine) 7"
proof -
  have m: "le_order_map sample_engine = empty_map"
    using arena_init_initialised [OF sample_arena_init] empty_map_init
    by (simp add: sample_engine_def lob_init_def Let_def zero_engine_def)
  have "om_used empty_map = {}" by (simp add: om_used_def real_key_def)
  then show ?thesis
    unfolding m om_room_def by (auto simp: real_key_def kEmptyKey_def kTombstone_def kMaxEntries_def kCapacity_def kMaxProbeLength_def
        intro: exI [of _ 0])
qed

theorem lob_feed_refines_witness:
  "\<exists>e'. process_all sample_engine [sample_add 7 100 5000] = Some e' \<and> books_of e' 3 0 = [(5000, [(7, 100)])]"
proof -
  let ?t = "sample_add 7 100 5000"
  obtain e' oks where r: "process_all sample_engine [?t] = Some e'" "length oks = 1" "books_of e' = spec_run oks (\<lambda>_ _. []) [?t]"
    "om_room (le_order_map sample_engine) (new_ref ?t) \<longrightarrow> oks ! 0"
    using lob_feed_refines [OF sample_arena_init sample_engine_init, of "[?t]"] by auto
  have "new_ref ?t = 7" by (simp add: new_ref_def sample_add_def empty_tick_def itch_distinct [symmetric])
  then have "oks = [True]" using r(2,4) sample_room by (cases oks) auto
  moreover have "holder (\<lambda>_ _. []) 7 = None" by (auto simp: holder_def find_None_iff refs_def)
  ultimately show ?thesis
    using r(1,3) by (simp add: spec_step_def Let_def sample_add_def empty_tick_def spec_place_def fits_def update_side_def numeric_valid kBuy_def)
qed

section \<open>Level search and queue linking\<close>

text \<open>
  C26: The binary search \<open>find_level\<close> agrees with a linear scan of the active levels: it returns the
  index of the level with the price, and -1 exactly when no active level has it.
\<close>

theorem find_level_linear:
  assumes "lob_inv e" and "s < kSymbols" and "d < 2"
  shows "find_level e s d price =
    (case find (\<lambda>i. lvl_price (lv e s d i) = price) [0..<level_count e s d] of None \<Rightarrow> -1 | Some i \<Rightarrow> int i)"
proof -
  note wf = lob_invD(1) [OF assms(1)]
  let ?r = "find_level e s d price" and ?P = "\<lambda>i. lvl_price (lv e s d i) = price"
  show ?thesis
  proof (cases "?r < 0")
    case True
    then have "?r = -1" "find ?P [0..<level_count e s d] = None"
      using find_level_spec(1) [OF wf assms(2,3), of price] by (simp_all add: find_upt_None)
    then show ?thesis by simp
  next
    case False
    then have r: "nat ?r < level_count e s d" "?P (nat ?r)"
      using find_level_spec(2) [OF wf assms(2,3), of price] by simp_all
    have "\<not> ?P j" if "j < nat ?r" for j
    proof
      assume "?P j"
      moreover have "before d (lvl_price (lv e s d j)) (lvl_price (lv e s d (nat ?r)))"
        using side_okD(3) [OF lob_wfD(3) [OF wf assms(2,3)] that] r that by simp
      ultimately show False using r by simp
    qed
    with r have "find ?P [0..<level_count e s d] = Some (nat ?r)" by (simp add: find_upt_Some)
    with False show ?thesis by simp
  qed
qed

theorem find_level_linear_witness: "find_level sample_engine 3 0 5000 = -1"
proof -
  have "level_count sample_engine 3 0 = 0"
    using level_count_zero [of 3 0 sample_engine] by (simp add: sample_engine_inv(2))
  then show ?thesis using find_level_linear [OF sample_engine_inv(1), of 3 0 5000] by simp
qed

text \<open>
  C27: On a well-formed level with a free slot the walk of \<open>link_slot\<close> to the tail of the intrusive
  list terminates within the sixteen hops, and the new slot becomes the last of the chain while
  the chain before it is unchanged.
\<close>

theorem link_slot_terminates:
  assumes "level_wf l" and "alloc_slot l = Some i"
  shows "\<exists>l'. link_slot (init_slot i ref qty side l) i = Some l' \<and> level_chain l' = level_chain l @ [i]"
proof -
  have "chain (init_slot i ref qty side l) (level_chain l)"
    using assms(1) unfolding init_slot_def by (subst chain_set_slot) (simp_all add: level_wf_def)
  moreover have "i < 16" "i \<notin> set (level_chain l)"
    using alloc_slot_Some [OF assms(2)] assms(1) by (auto simp: level_wf_def)
  ultimately show ?thesis using chain_link chain_level_chain by blast
qed

theorem link_slot_terminates_witness:
  "\<exists>l'. link_slot (init_slot 0 7 100 0 (fresh_level 5000)) 0 = Some l' \<and> level_chain l' = [0]"
proof -
  have "alloc_slot (fresh_level 5000) = Some 0"
    by (simp add: alloc_slot_def fresh_level_def empty_slot_def is_active_def upt_conv_Cons)
  moreover have "level_chain (fresh_level 5000) = []" using fresh_level_wf(2) [of 5000] by (simp add: level_queue_def)
  ultimately show ?thesis using link_slot_terminates [OF fresh_level_wf(1), of 5000 0 7 100 0] by simp
qed

section \<open>Queries\<close>

text \<open>
  C29: The quotes are those of the abstract book: the best bid is the highest bid price and the best
  ask the lowest ask price (0 for an empty side), the spread is their difference, and the book
  is reported crossed exactly when both sides have orders and the best bid is at or above the
  best ask.
\<close>

theorem lob_quotes:
  assumes "lob_inv e" and "s < kSymbols"
  shows "best_bid_price e s = (if books_of e s 0 = [] then 0 else Max (fst ` set (books_of e s 0))) \<and>
    best_ask_price e s = (if books_of e s 1 = [] then 0 else Min (fst ` set (books_of e s 1))) \<and>
    spread e s = (if books_of e s 0 = [] \<or> books_of e s 1 = [] then 0
      else Min (fst ` set (books_of e s 1)) - Max (fst ` set (books_of e s 0))) \<and>
    (is_crossed e s \<longleftrightarrow> books_of e s 0 \<noteq> [] \<and> books_of e s 1 \<noteq> [] \<and>
       Max (fst ` set (books_of e s 0)) \<ge> Min (fst ` set (books_of e s 1)))"
proof -
  define hi lo where "hi = Max (fst ` set (books_of e s 0))" and "lo = Min (fst ` set (books_of e s 1))"
  note bid = best_bid_eq [OF assms, folded hi_def] and ask = best_ask_eq [OF assms, folded lo_def]
  have valid: "0 < p \<and> p \<le> 0xFFFFFFFF" if "p \<in> fst ` set (books_of e s d)" "d < 2" for p d
    using that books_valid_price [OF assms that(2)] by (fastforce simp: numeric_valid)
  have b: "0 < hi \<and> hi \<le> 0xFFFFFFFF" if "books_of e s 0 \<noteq> []"
    unfolding hi_def using that by (intro valid [of _ 0] Max_in) simp_all
  have a: "0 < lo \<and> lo \<le> 0xFFFFFFFF" if "books_of e s 1 \<noteq> []"
    unfolding lo_def using that by (intro valid [of _ 1] Min_in) simp_all
  have "s64 (lo - hi) = lo - hi" if "books_of e s 0 \<noteq> []" "books_of e s 1 \<noteq> []"
    using a b that by (simp add: s64_id i64_bounds)
  with a b assms(2) show ?thesis
    unfolding hi_def [symmetric] lo_def [symmetric] spread_def is_crossed_def Let_def bid ask by auto
qed

theorem lob_quotes_witness: "best_bid_price sample_engine 3 = 0 \<and> \<not> is_crossed sample_engine 3"
  using lob_quotes [OF sample_engine_inv(1), of 3] by (simp add: sample_engine_inv(2))

text \<open>
  C30: The depth queries return the sum of the quantities of all orders on the best levels asked
  for, and nothing wraps: the accumulation stays below 2 to the 63rd for all 1024 levels.
\<close>

theorem lob_depth:
  assumes "lob_inv e" and "s < kSymbols"
  shows "bid_depth_qty e s n = sum_list (map (\<lambda>x. sum_list (map snd (snd x))) (take n (books_of e s 0))) \<and>
    ask_depth_qty e s n = sum_list (map (\<lambda>x. sum_list (map snd (snd x))) (take n (books_of e s 1))) \<and>
    0 \<le> bid_depth_qty e s n \<and> bid_depth_qty e s n \<le> 1024 * (16 * kMaxQuantity)"
proof -
  have len: "length (books_of e s d) = level_count e s d" if "d < 2" for d
    using that assms(2) by (simp add: books_of_def book_length)
  have tk: "take (if n < level_count e s d then n else level_count e s d) (books_of e s d) = take n (books_of e s d)"
    if "d < 2" for d
    using len [OF that] by simp
  let ?n = "\<lambda>d. if n < level_count e s d then n else level_count e s d"
  have dq: "depth_qty e s d (?n d) = sum_list (map (\<lambda>x. sum_list (map snd (snd x))) (take n (books_of e s d)))"
    "0 \<le> depth_qty e s d (?n d)" "depth_qty e s d (?n d) \<le> int (?n d) * (16 * kMaxQuantity)" if "d < 2" for d
  proof -
    have "?n d \<le> level_count e s d" by simp
    from depth_qty_eq [OF assms that this, unfolded tk [OF that]]
    show "depth_qty e s d (?n d) = sum_list (map (\<lambda>x. sum_list (map snd (snd x))) (take n (books_of e s d)))"
      "0 \<le> depth_qty e s d (?n d)" "depth_qty e s d (?n d) \<le> int (?n d) * (16 * kMaxQuantity)" by blast+
  qed
  have "?n 0 \<le> 1024" using arena_okD(2) [OF lob_wfD(1) [OF lob_invD(1) [OF assms(1)]] assms(2), of 0] by auto
  then have "int (?n 0) * (16 * kMaxQuantity) \<le> 1024 * (16 * kMaxQuantity)" by (simp add: kMaxQuantity_def)
  with dq(3) [of 0] have "depth_qty e s 0 (?n 0) \<le> 1024 * (16 * kMaxQuantity)" by (rule order_trans) simp
  moreover have "bid_depth_qty e s n = depth_qty e s 0 (?n 0)" "ask_depth_qty e s n = depth_qty e s 1 (?n 1)"
    using assms(2) by (simp_all add: bid_depth_qty_def ask_depth_qty_def level_count_def)
  ultimately show ?thesis using dq(1,2) [of 0] dq(1) [of 1] by simp
qed

theorem lob_depth_witness: "bid_depth_qty sample_engine 3 10 = 0"
  using lob_depth [OF sample_engine_inv(1), of 3 10] by (simp add: sample_engine_inv(2))

text \<open>
  \<open>active_order_count\<close> is the number of references that rest in some side of the book: the
  map and the slots never disagree about which orders are live.
\<close>

theorem lob_active_count:
  assumes "lob_inv e"
  shows "unat (active_order_count e) = card {r. holder (books_of e) r \<noteq> None}"
  using assms by (rule active_count_eq)

theorem lob_active_count_example:
  "unat (active_order_count sample_engine) = card {r. holder (\<lambda>_ _. []) r \<noteq> None}"
  using lob_active_count [OF sample_engine_inv(1)] by (simp add: sample_engine_inv(2))

end
