(* ===== verification/Sequence_Tracker.thy ===== *)
theory Sequence_Tracker
  imports Prelude
begin

text \<open>
  \<open>SequenceTracker\<close> of \<open>luv_safety.hpp\<close>: the gap detector of a numbered feed.  The theory
  shows that the tracker accounts for every sequence number between the first one and the
  highest one seen, and what it forgets when a second gap follows a first one.
\<close>

section \<open>The tracker\<close>

datatype SequenceResult = kFirst | kNext | kDuplicate | kGap | kOutOfOrder

datatype SequenceGapClass = kNone | kRecoverable | kFatal

record SequenceTracker =
  sq_initialized :: bool
  sq_next :: u64
  sq_last :: u64
  sq_gaps :: u64
  sq_gap_size :: u64
  sq_gap_class :: SequenceGapClass
  sq_gap_pending :: bool
  sq_invalid :: bool

definition kMaxRecoverableGap :: u64 where
  "kMaxRecoverableGap = 100"

definition sq_reset :: "SequenceTracker \<Rightarrow> SequenceTracker" where
  "sq_reset t = t\<lparr>sq_initialized := False, sq_next := 0, sq_last := 0, sq_gaps := 0, sq_gap_size := 0,
     sq_gap_class := kNone, sq_gap_pending := False, sq_invalid := False\<rparr>"

definition new_tracker :: SequenceTracker where
  "new_tracker = \<lparr>sq_initialized = False, sq_next = 0, sq_last = 0, sq_gaps = 0, sq_gap_size = 0,
     sq_gap_class = kNone, sq_gap_pending = False, sq_invalid = False\<rparr>"

definition observe :: "SequenceTracker \<Rightarrow> u64 \<Rightarrow> SequenceResult \<times> SequenceTracker" where
  "observe t sequence =
     (if \<not> sq_initialized t then
        (kFirst, t\<lparr>sq_initialized := True, sq_next := sequence + 1, sq_last := sequence\<rparr>)
      else if sequence = sq_next t then
        (kNext, t\<lparr>sq_next := sq_next t + 1, sq_last := sequence\<rparr>)
      else if sequence < sq_next t then
        (if sequence + 1 = sq_next t then kDuplicate else kOutOfOrder, t)
      else
        let gap = sequence - sq_next t;
            cls = (if gap \<le> kMaxRecoverableGap then kRecoverable else kFatal)
        in (kGap, t\<lparr>sq_gaps := sq_gaps t + gap, sq_last := sequence, sq_gap_size := gap,
              sq_gap_class := cls, sq_gap_pending := (cls = kRecoverable),
              sq_invalid := (cls = kFatal), sq_next := sequence + 1\<rparr>))"

definition acknowledge_retransmit :: "SequenceTracker \<Rightarrow> u64 \<Rightarrow> u64 \<Rightarrow> bool \<times> SequenceTracker" where
  "acknowledge_retransmit t first_missing last_missing =
     (if \<not> sq_gap_pending t \<or> first_missing > last_missing \<or>
         last_missing - first_missing + 1 \<noteq> sq_gap_size t
      then (False, t)
      else (True, t\<lparr>sq_gap_pending := False, sq_gap_class := kNone, sq_gap_size := 0\<rparr>))"

text \<open>A feed of sequence numbers, and the verdicts it gets.\<close>

definition observe_all :: "SequenceTracker \<Rightarrow> u64 list \<Rightarrow> SequenceTracker" where
  "observe_all t xs = foldl (\<lambda>t x. snd (observe t x)) t xs"

primrec verdicts :: "SequenceTracker \<Rightarrow> u64 list \<Rightarrow> SequenceResult list" where
  "verdicts t [] = []"
| "verdicts t (x # xs) = fst (observe t x) # verdicts (snd (observe t x)) xs"

section \<open>Accounting\<close>

text \<open>
  The reference reading of a feed: \<open>seq_maxima m xs\<close> are the numbers that advance the
  running maximum \<open>m\<close>, \<open>seq_verdict m x\<close> is the class of a number against that maximum.
\<close>

primrec seq_maxima :: "nat \<Rightarrow> nat list \<Rightarrow> nat list" where
  "seq_maxima m [] = []"
| "seq_maxima m (x # xs) = (if m < x then x # seq_maxima x xs else seq_maxima m xs)"

definition seq_verdict :: "nat \<Rightarrow> nat \<Rightarrow> SequenceResult" where
  "seq_verdict m x =
     (if x = m + 1 then kNext else if x = m then kDuplicate else if x < m then kOutOfOrder else kGap)"

primrec seq_verdicts :: "nat \<Rightarrow> nat list \<Rightarrow> SequenceResult list" where
  "seq_verdicts m [] = []"
| "seq_verdicts m (x # xs) = seq_verdict m x # seq_verdicts (max m x) xs"

text \<open>
  The tracker after \<open>m\<close> was the highest number, with \<open>g\<close> numbers skipped so far.
\<close>

definition tracks :: "SequenceTracker \<Rightarrow> nat \<Rightarrow> nat \<Rightarrow> bool" where
  "tracks t m g \<longleftrightarrow> sq_initialized t \<and> unat (sq_next t) = m + 1 \<and> unat (sq_last t) = m \<and> unat (sq_gaps t) = g"

lemma unat_succ: "x \<noteq> - 1 \<Longrightarrow> unat (x + 1) = unat x + 1"
  for x :: "'a::len word"
  by (metis Suc_eq_plus1 add.commute unatSuc word_not_simps(3) diff_0 eq_diff_eq)

lemma tracks_first: "\<not> sq_initialized t \<Longrightarrow> sq_gaps t = 0 \<Longrightarrow> x \<noteq> - 1 \<Longrightarrow> tracks (snd (observe t x)) (unat x) 0"
  by (simp add: observe_def tracks_def unat_succ)

lemma tracks_step:
  assumes t: "tracks t m g" and x: "x \<noteq> - 1" and g: "g \<le> m"
  shows "tracks (snd (observe t x)) (max m (unat x)) (g + (unat x - (m + 1))) \<and>
    fst (observe t x) = seq_verdict m (unat x)"
proof -
  have n: "unat (sq_next t) = m + 1" and i: "sq_initialized t" and l: "unat (sq_last t) = m"
    and gs: "unat (sq_gaps t) = g"
    using t by (simp_all add: tracks_def)
  have eq: "x = sq_next t \<longleftrightarrow> unat x = m + 1" "x < sq_next t \<longleftrightarrow> unat x < m + 1"
    "x + 1 = sq_next t \<longleftrightarrow> unat x = m"
    using n unat_succ [OF x] by (simp_all add: word_unat_eq_iff word_less_nat_alt)
  consider "unat x = m + 1" | "unat x < m + 1" | "m + 1 < unat x" by linarith
  then show ?thesis
  proof cases
    case 1
    then show ?thesis using i n gs eq unat_succ [OF x]
      by (simp add: observe_def tracks_def seq_verdict_def)
  next
    case 2
    then show ?thesis using i n l gs eq
      by (auto simp: observe_def tracks_def seq_verdict_def)
  next
    case 3
    have sub: "unat (x - sq_next t) = unat x - (m + 1)"
      using 3 n by (simp add: unat_sub word_le_nat_alt)
    have "g + (unat x - (m + 1)) < 2 ^ 64"
      using g 3 unsigned_less [of x, where ?'a = nat] by simp
    then have "unat (sq_gaps t + (x - sq_next t)) = g + (unat x - (m + 1))"
      using gs sub by (simp add: unat_word_ariths)
    then show ?thesis using i 3 eq unat_succ [OF x]
      by (simp add: observe_def tracks_def seq_verdict_def Let_def)
  qed
qed

lemma seq_maxima_bounds: "y \<in> set (seq_maxima m xs) \<Longrightarrow> m < y \<and> y \<in> set xs"
  by (induction xs arbitrary: m) (fastforce split: if_splits)+

lemma seq_maxima_distinct: "distinct (seq_maxima m xs)"
  by (induction xs arbitrary: m) (auto dest: seq_maxima_bounds)

lemma tracks_run:
  assumes "tracks t m g" "- 1 \<notin> set xs" "g \<le> m"
  shows "verdicts t xs = seq_verdicts m (map unat xs) \<and>
    (\<exists>g'. tracks (observe_all t xs) (Max (insert m (unat ` set xs))) g' \<and>
      g' + length (seq_maxima m (map unat xs)) + m = g + Max (insert m (unat ` set xs)))"
  using assms
proof (induction xs arbitrary: t m g)
  case Nil
  then show ?case by (auto simp: observe_all_def)
next
  case (Cons x xs)
  let ?t = "snd (observe t x)" and ?m = "max m (unat x)" and ?g = "g + (unat x - (m + 1))"
  have st: "tracks ?t ?m ?g" "fst (observe t x) = seq_verdict m (unat x)"
    using tracks_step [OF Cons.prems(1) _ Cons.prems(3), of x] Cons.prems(2) by auto
  have "?g \<le> ?m" using Cons.prems(3) by auto
  with Cons.IH [OF st(1)] Cons.prems(2) obtain g' where
    v: "verdicts ?t xs = seq_verdicts ?m (map unat xs)" and
    g: "tracks (observe_all ?t xs) (Max (insert ?m (unat ` set xs))) g'"
      "g' + length (seq_maxima ?m (map unat xs)) + ?m = ?g + Max (insert ?m (unat ` set xs))"
    by auto
  have mx: "Max (insert ?m (unat ` set xs)) = Max (insert m (unat ` set (x # xs)))"
    by (cases "xs = []") (simp_all add: max.assoc)
  have "observe_all t (x # xs) = observe_all ?t xs" by (simp add: observe_all_def)
  moreover have "g' + length (seq_maxima m (map unat (x # xs))) + m = g + Max (insert m (unat ` set (x # xs)))"
    using g(2) unfolding mx by (auto split: if_splits)
  ultimately show ?case using g(1) v st(2) unfolding mx by auto
qed

section \<open>Properties\<close>

text \<open>
  C31: After any feed that does not contain the top sequence number, the tracker expects the
  number after the highest one seen, and its gap counter is the number of sequence numbers
  between the first and the highest that did not arrive in order; every verdict it gave is the
  class of the number against the running maximum.
\<close>

theorem tracker_accounting:
  assumes "- 1 \<notin> set (x # xs)"
  defines "t \<equiv> observe_all new_tracker (x # xs)" and "hi \<equiv> Max (unat ` set (x # xs))"
  shows "unat (sq_next t) = hi + 1 \<and>
    unat (sq_gaps t) = card ({unat x..hi} - set (unat x # seq_maxima (unat x) (map unat xs))) \<and>
    verdicts new_tracker (x # xs) = kFirst # seq_verdicts (unat x) (map unat xs)"
proof -
  let ?t = "snd (observe new_tracker x)" and ?s = "seq_maxima (unat x) (map unat xs)"
  have f: "tracks ?t (unat x) 0" "fst (observe new_tracker x) = kFirst"
    using assms(1) tracks_first [of new_tracker x] by (auto simp: new_tracker_def observe_def)
  have "observe_all ?t xs = t" by (simp add: t_def observe_all_def)
  moreover have hi: "hi = Max (insert (unat x) (unat ` set xs))" by (simp add: hi_def)
  ultimately obtain g where g: "tracks t hi g" "g + length ?s + unat x = hi"
    and v: "verdicts ?t xs = seq_verdicts (unat x) (map unat xs)"
    using tracks_run [OF f(1), of xs] assms(1) by auto
  have sub: "set (unat x # ?s) \<subseteq> {unat x..hi}"
    using seq_maxima_bounds [of _ "unat x" "map unat xs"] unfolding hi
    by (fastforce intro: Max_ge dest: less_imp_le)
  have "distinct (unat x # ?s)"
    using seq_maxima_distinct [of "unat x" "map unat xs"] seq_maxima_bounds [of "unat x" "unat x" "map unat xs"]
    by auto
  then have "card (set (unat x # ?s)) = Suc (length ?s)" using distinct_card by fastforce
  then have "card ({unat x..hi} - set (unat x # ?s)) = g"
    using card_Diff_subset [OF _ sub] g(2) by simp
  then show ?thesis using g(1) f(2) v by (simp add: tracks_def)
qed

theorem tracker_accounting_witness:
  "unat (sq_next (observe_all new_tracker [5, 6, 9, 9, 7, 12])) = 13 \<and>
   unat (sq_gaps (observe_all new_tracker [5, 6, 9, 9, 7, 12])) = 4 \<and>
   verdicts new_tracker [5, 6, 9, 9, 7, 12] = [kFirst, kNext, kGap, kDuplicate, kOutOfOrder, kGap]"
proof -
  have "- 1 \<notin> set [5, 6, 9, 9, 7, 12 :: u64]" by simp
  moreover have "{5..12} - set [5, 6, 9, 12] = {7, 8, 10, 11 :: nat}" by auto
  ultimately show ?thesis
    using tracker_accounting [of 5 "[6, 9, 9, 7, 12]"] by (simp add: seq_verdict_def)
qed

text \<open>
  C39: The tracker keeps the size of the last gap only.  After two recoverable gaps an
  acknowledgement that covers just the second one clears the pending state, and a recoverable
  gap after a fatal one clears the invalid state, although the earlier numbers never arrived.
\<close>

theorem tracker_forgets_gap:
  assumes "sq_initialized t" "sq_next t < a" "a < - 1" "a + 1 < b" "b - (a + 1) \<le> kMaxRecoverableGap"
  defines "t2 \<equiv> snd (observe (snd (observe t a)) b)"
  shows "\<not> sq_invalid t2 \<and> sq_gap_pending t2 \<and> sq_gap_size t2 = b - (a + 1) \<and>
    fst (acknowledge_retransmit t2 (a + 1) (b - 1)) \<and>
    \<not> sq_gap_pending (snd (acknowledge_retransmit t2 (a + 1) (b - 1))) \<and>
    sq_gaps t2 = sq_gaps t + (a - sq_next t) + (b - (a + 1))"
proof -
  have ne: "a \<noteq> sq_next t" "\<not> a < sq_next t" "b \<noteq> a + 1" "\<not> b < a + 1" using assms(2,4) by auto
  have t2: "t2 = snd (observe (snd (observe t a)) b)" by (simp add: t2_def)
  have le: "\<not> b - 1 < a + 1"
    using assms(4) unat_dec [of b] by (cases "b = 0") (auto simp: word_less_nat_alt)
  show ?thesis using assms(1,5) ne le unfolding t2
    by (simp add: observe_def acknowledge_retransmit_def Let_def)
qed

theorem tracker_forgets_gap_witness:
  "\<not> sq_invalid (observe_all new_tracker [1, 1000, 1002]) \<and>
   sq_gap_pending (observe_all new_tracker [1, 1000, 1002]) \<and>
   fst (acknowledge_retransmit (observe_all new_tracker [1, 1000, 1002]) 1001 1001) \<and>
   sq_gaps (observe_all new_tracker [1, 1000, 1002]) = 999"
proof -
  let ?t = "snd (observe new_tracker 1)"
  have "sq_initialized ?t" "sq_next ?t = 2" "sq_gaps ?t = 0" by (simp_all add: observe_def new_tracker_def)
  then show ?thesis
    using tracker_forgets_gap [of ?t 1000 1002]
    by (simp add: observe_all_def kMaxRecoverableGap_def)
qed

end
