(* ===== verification/Circuit_Breaker.thy ===== *)
theory Circuit_Breaker
  imports Prelude
begin

text \<open>
  \<open>CircuitBreaker\<close> of \<open>luv_safety.hpp\<close>: the closed / open / half-open breaker with failure and
  rejection thresholds, a cool-down, half-open probes, a rate window and a loss limit.  Each
  operation is one atomic transition of the state.  The theory shows when an open breaker
  admits traffic after the event that opened it, how many requests pass in a rate window, when
  failures trip it, and that a half-open breaker with fewer probes than required successes starves
  until its probe counter wraps.
\<close>

section \<open>State and operations\<close>

datatype CircuitBreakerState = kClosed | kOpen | kHalfOpen

record CircuitBreaker =
  cb_max_failures :: u32
  cb_cool_down_ns :: u64
  cb_trip_timestamp_ns :: u64
  cb_failures :: u32
  cb_consecutive_rejections :: u32
  cb_max_consecutive_rejections :: u32
  cb_half_open_enabled :: bool
  cb_half_open_max_probes :: u32
  cb_half_open_successes_needed :: u32
  cb_half_open_probes_issued :: u32
  cb_half_open_successes :: u32
  cb_max_rate_per_window :: u32
  cb_rate_window_ns :: u64
  cb_window_start_ns :: u64
  cb_window_count :: u32
  cb_max_loss_limit :: int
  cb_state :: CircuitBreakerState
  cb_tripped :: bool

definition new_breaker :: "u32 \<Rightarrow> u64 \<Rightarrow> CircuitBreaker" where
  "new_breaker max_failures cool_down_ns =
     \<lparr>cb_max_failures = (if max_failures = 0 then 1 else max_failures), cb_cool_down_ns = cool_down_ns,
      cb_trip_timestamp_ns = 0, cb_failures = 0, cb_consecutive_rejections = 0,
      cb_max_consecutive_rejections = 0, cb_half_open_enabled = False, cb_half_open_max_probes = 1,
      cb_half_open_successes_needed = 1, cb_half_open_probes_issued = 0, cb_half_open_successes = 0,
      cb_max_rate_per_window = 0, cb_rate_window_ns = 0, cb_window_start_ns = 0, cb_window_count = 0,
      cb_max_loss_limit = 0, cb_state = kClosed, cb_tripped = False\<rparr>"

definition trip :: "u64 \<Rightarrow> CircuitBreaker \<Rightarrow> CircuitBreaker" where
  "trip timestamp_ns b = b\<lparr>cb_trip_timestamp_ns := timestamp_ns, cb_state := kOpen, cb_tripped := True\<rparr>"

definition cb_reset :: "CircuitBreaker \<Rightarrow> CircuitBreaker" where
  "cb_reset b = b\<lparr>cb_failures := 0, cb_consecutive_rejections := 0, cb_half_open_probes_issued := 0,
     cb_half_open_successes := 0, cb_trip_timestamp_ns := 0, cb_state := kClosed, cb_tripped := False\<rparr>"

text \<open>
  The compare-exchange loop of \<open>record_failure\<close> leaves in \<open>failures\<close> the value it last read
  and counts one more failure unless the limit is reached.
\<close>

definition record_failure :: "u64 \<Rightarrow> CircuitBreaker \<Rightarrow> CircuitBreaker" where
  "record_failure timestamp_ns b =
     (if cb_state b = kHalfOpen then trip timestamp_ns b
      else
        let failures = cb_failures b;
            b' = (if failures < cb_max_failures b then b\<lparr>cb_failures := failures + 1\<rparr> else b)
        in if failures + 1 \<ge> cb_max_failures b then trip timestamp_ns b' else b')"

definition record_rejection :: "u64 \<Rightarrow> CircuitBreaker \<Rightarrow> CircuitBreaker" where
  "record_rejection timestamp_ns b =
     (if cb_max_consecutive_rejections b > 0 then
        let rejections = cb_consecutive_rejections b + 1;
            b' = b\<lparr>cb_consecutive_rejections := rejections\<rparr>
        in if rejections \<ge> cb_max_consecutive_rejections b then trip timestamp_ns b'
           else record_failure timestamp_ns b'
      else record_failure timestamp_ns b)"

definition record_success :: "CircuitBreaker \<Rightarrow> CircuitBreaker" where
  "record_success b =
     (case cb_state b of
        kHalfOpen \<Rightarrow>
          let successes = cb_half_open_successes b + 1;
              b' = b\<lparr>cb_half_open_successes := successes\<rparr>
          in if successes \<ge> cb_half_open_successes_needed b then cb_reset b' else b'
      | kClosed \<Rightarrow> b\<lparr>cb_failures := 0, cb_consecutive_rejections := 0\<rparr>
      | kOpen \<Rightarrow> b)"

definition set_cool_down_ns :: "u64 \<Rightarrow> CircuitBreaker \<Rightarrow> CircuitBreaker" where
  "set_cool_down_ns cool_down_ns b = b\<lparr>cb_cool_down_ns := cool_down_ns\<rparr>"

definition set_half_open_params :: "u32 \<Rightarrow> u32 \<Rightarrow> CircuitBreaker \<Rightarrow> CircuitBreaker" where
  "set_half_open_params max_probes successes_needed b =
     b\<lparr>cb_half_open_enabled := True,
       cb_half_open_max_probes := (if max_probes = 0 then 1 else max_probes),
       cb_half_open_successes_needed := (if successes_needed = 0 then 1 else successes_needed)\<rparr>"

definition set_max_consecutive_rejections :: "u32 \<Rightarrow> CircuitBreaker \<Rightarrow> CircuitBreaker" where
  "set_max_consecutive_rejections max_rejections b = b\<lparr>cb_max_consecutive_rejections := max_rejections\<rparr>"

definition set_rate_limit :: "u32 \<Rightarrow> u64 \<Rightarrow> CircuitBreaker \<Rightarrow> CircuitBreaker" where
  "set_rate_limit max_rate window_ns b = b\<lparr>cb_max_rate_per_window := max_rate, cb_rate_window_ns := window_ns\<rparr>"

definition set_max_loss_limit :: "int \<Rightarrow> CircuitBreaker \<Rightarrow> CircuitBreaker" where
  "set_max_loss_limit loss_limit b = b\<lparr>cb_max_loss_limit := loss_limit\<rparr>"

definition check_loss_limit :: "int \<Rightarrow> u64 \<Rightarrow> CircuitBreaker \<Rightarrow> bool \<times> CircuitBreaker" where
  "check_loss_limit current_loss timestamp_ns b =
     (if cb_max_loss_limit b > 0 \<and> current_loss \<ge> cb_max_loss_limit b
      then (False, trip timestamp_ns b) else (True, b))"

text \<open>The three parts of \<open>allow(now_ns)\<close>, one per state.\<close>

definition allow_closed :: "u64 \<Rightarrow> CircuitBreaker \<Rightarrow> bool \<times> CircuitBreaker" where
  "allow_closed now_ns b =
     (if cb_max_rate_per_window b > 0 \<and> cb_rate_window_ns b > 0 \<and> now_ns > 0 then
        if now_ns < cb_window_start_ns b \<or> now_ns - cb_window_start_ns b \<ge> cb_rate_window_ns b then
          (True, b\<lparr>cb_window_start_ns := now_ns, cb_window_count := 1\<rparr>)
        else
          let count = cb_window_count b + 1;
              b' = b\<lparr>cb_window_count := count\<rparr>
          in if count > cb_max_rate_per_window b then (False, trip now_ns b') else (True, b')
      else (True, b))"

definition allow_half_open :: "CircuitBreaker \<Rightarrow> bool \<times> CircuitBreaker" where
  "allow_half_open b =
     (cb_half_open_probes_issued b < cb_half_open_max_probes b,
      b\<lparr>cb_half_open_probes_issued := cb_half_open_probes_issued b + 1\<rparr>)"

definition allow_open :: "u64 \<Rightarrow> CircuitBreaker \<Rightarrow> bool \<times> CircuitBreaker" where
  "allow_open now_ns b =
     (if cb_cool_down_ns b > 0 \<and> now_ns > 0 \<and> now_ns \<ge> cb_trip_timestamp_ns b \<and>
         now_ns - cb_trip_timestamp_ns b \<ge> cb_cool_down_ns b
      then if cb_half_open_enabled b then
             allow_half_open (b\<lparr>cb_state := kHalfOpen, cb_half_open_probes_issued := 0,
                                cb_half_open_successes := 0\<rparr>)
           else (True, cb_reset b)
      else (False, b))"

definition allow_at :: "u64 \<Rightarrow> CircuitBreaker \<Rightarrow> bool \<times> CircuitBreaker" where
  "allow_at now_ns b =
     (case cb_state b of
        kClosed \<Rightarrow> allow_closed now_ns b
      | kOpen \<Rightarrow> allow_open now_ns b
      | kHalfOpen \<Rightarrow> allow_half_open b)"

definition allow :: "CircuitBreaker \<Rightarrow> bool" where
  "allow b \<longleftrightarrow> cb_state b = kClosed"

section \<open>Runs and the invariant\<close>

datatype breaker_op =
    Failure u64 | Rejection u64 | Success | Trip u64 | Reset | Loss int u64 | Allow u64
  | SetCoolDown u64 | SetHalfOpen u32 u32 | SetMaxRejections u32 | SetRate u32 u64 | SetLoss int

primrec cb_exec :: "CircuitBreaker \<Rightarrow> breaker_op \<Rightarrow> CircuitBreaker" where
  "cb_exec b (Failure t) = record_failure t b"
| "cb_exec b (Rejection t) = record_rejection t b"
| "cb_exec b Success = record_success b"
| "cb_exec b (Trip t) = trip t b"
| "cb_exec b Reset = cb_reset b"
| "cb_exec b (Loss l t) = snd (check_loss_limit l t b)"
| "cb_exec b (Allow t) = snd (allow_at t b)"
| "cb_exec b (SetCoolDown d) = set_cool_down_ns d b"
| "cb_exec b (SetHalfOpen p n) = set_half_open_params p n b"
| "cb_exec b (SetMaxRejections n) = set_max_consecutive_rejections n b"
| "cb_exec b (SetRate n w) = set_rate_limit n w b"
| "cb_exec b (SetLoss l) = set_max_loss_limit l b"

definition cb_run :: "CircuitBreaker \<Rightarrow> breaker_op list \<Rightarrow> CircuitBreaker" where
  "cb_run = foldl cb_exec"

text \<open>
  The thresholds are positive, the \<open>_tripped\<close> flag says that the breaker is not closed, and a
  closed breaker is below its failure limit.
\<close>

definition cb_inv :: "CircuitBreaker \<Rightarrow> bool" where
  "cb_inv b \<longleftrightarrow> cb_max_failures b \<noteq> 0 \<and> cb_half_open_max_probes b \<noteq> 0 \<and>
     cb_half_open_successes_needed b \<noteq> 0 \<and> (cb_tripped b \<longleftrightarrow> cb_state b \<noteq> kClosed) \<and>
     (cb_state b = kClosed \<longrightarrow> cb_failures b < cb_max_failures b)"

lemmas breaker_defs = trip_def cb_reset_def allow_closed_def allow_half_open_def allow_open_def Let_def

lemma cb_inv_new: "cb_inv (new_breaker n d)"
  by (simp add: cb_inv_def new_breaker_def word_neq_0_conv)

lemma cb_inv_reset: "cb_inv b \<Longrightarrow> cb_inv (cb_reset b)"
  by (simp add: cb_inv_def cb_reset_def word_neq_0_conv)

lemma cb_inv_trip: "cb_inv b \<Longrightarrow> cb_inv (trip t b)"
  by (simp add: cb_inv_def trip_def)

lemma cb_inv_failure: "cb_inv b \<Longrightarrow> cb_inv (record_failure t b)"
  by (auto simp: cb_inv_def record_failure_def trip_def Let_def not_le)

lemma cb_inv_allow: "cb_inv b \<Longrightarrow> cb_inv (snd (allow_at t b))"
  by (auto simp: cb_inv_def allow_at_def breaker_defs word_neq_0_conv split: CircuitBreakerState.splits)

lemma cb_inv_success: "cb_inv b \<Longrightarrow> cb_inv (record_success b)"
  by (auto simp: cb_inv_def record_success_def cb_reset_def Let_def word_neq_0_conv
      split: CircuitBreakerState.splits)

lemma cb_inv_rejection: "cb_inv b \<Longrightarrow> cb_inv (record_rejection t b)"
proof -
  assume "cb_inv b"
  then have "cb_inv (b\<lparr>cb_consecutive_rejections := n\<rparr>)" for n by (simp add: cb_inv_def)
  then show ?thesis using \<open>cb_inv b\<close>
    by (simp add: record_rejection_def Let_def cb_inv_trip cb_inv_failure)
qed

lemma cb_inv_exec: "cb_inv b \<Longrightarrow> cb_inv (cb_exec b e)"
proof (cases e)
  case (Loss l t)
  then show "cb_inv b \<Longrightarrow> ?thesis" by (simp add: check_loss_limit_def cb_inv_trip)
next
  case (SetHalfOpen p n)
  then show "cb_inv b \<Longrightarrow> ?thesis" by (simp add: set_half_open_params_def cb_inv_def)
next
  case (SetCoolDown d)
  then show "cb_inv b \<Longrightarrow> ?thesis" by (simp add: set_cool_down_ns_def cb_inv_def)
next
  case (SetMaxRejections n)
  then show "cb_inv b \<Longrightarrow> ?thesis" by (simp add: set_max_consecutive_rejections_def cb_inv_def)
next
  case (SetRate n w)
  then show "cb_inv b \<Longrightarrow> ?thesis" by (simp add: set_rate_limit_def cb_inv_def)
next
  case (SetLoss l)
  then show "cb_inv b \<Longrightarrow> ?thesis" by (simp add: set_max_loss_limit_def cb_inv_def)
qed (simp_all add: cb_inv_failure cb_inv_rejection cb_inv_success cb_inv_trip cb_inv_reset cb_inv_allow)

interpretation cbm: invariant_machine cb_exec cb_inv
  by unfold_locales (rule cb_inv_exec)

lemma cb_inv_run: "cb_inv (cb_run (new_breaker n d) es)"
  unfolding cb_run_def by (rule cbm.inv_run) (rule cb_inv_new)

section \<open>Admission\<close>

lemma allow_open_iff:
  assumes "cb_inv b" "cb_state b = kOpen"
  shows "fst (allow_at now b) \<longleftrightarrow>
    cb_cool_down_ns b > 0 \<and> now > 0 \<and> now \<ge> cb_trip_timestamp_ns b \<and>
    now - cb_trip_timestamp_ns b \<ge> cb_cool_down_ns b"
  using assms by (simp add: allow_at_def breaker_defs cb_inv_def word_neq_0_conv)

text \<open>The verdicts of a sequence of \<open>allow(now)\<close> calls.\<close>

primrec allow_run :: "CircuitBreaker \<Rightarrow> u64 list \<Rightarrow> bool list" where
  "allow_run b [] = []"
| "allow_run b (t # ts) = fst (allow_at t b) # allow_run (snd (allow_at t b)) ts"

lemma allow_run_open:
  assumes "cb_inv b" "cb_state b = kOpen"
    "\<And>t. t \<in> set ts \<Longrightarrow> cb_cool_down_ns b = 0 \<or> t < cb_trip_timestamp_ns b \<or>
       t - cb_trip_timestamp_ns b < cb_cool_down_ns b"
  shows "allow_run b ts = replicate (length ts) False"
  using assms(3)
proof (induction ts)
  case (Cons t ts)
  have "allow_at t b = (False, b)"
    using Cons.prems [of t] assms(2) by (auto simp: allow_at_def allow_open_def not_less)
  then show ?case using Cons by simp
qed simp

text \<open>A call inside the current window, while fewer than the allowed number were counted.\<close>

lemma allow_in_window:
  assumes "cb_state b = kClosed" "cb_max_rate_per_window b > 0" "cb_rate_window_ns b > 0" "t > 0"
    "cb_window_start_ns b \<le> t" "t - cb_window_start_ns b < cb_rate_window_ns b"
  shows "allow_at t b =
    (let b' = b\<lparr>cb_window_count := cb_window_count b + 1\<rparr> in
     if cb_window_count b + 1 > cb_max_rate_per_window b then (False, trip t b') else (True, b'))"
  using assms by (auto simp: allow_at_def allow_closed_def Let_def)

lemma allow_run_window:
  assumes "cb_inv b" "cb_state b = kClosed" "cb_max_rate_per_window b = r" "cb_rate_window_ns b = w"
    "cb_window_start_ns b = s" "cb_window_count b \<le> r" "0 < r" "0 < w" "r < - 1"
    "cb_cool_down_ns b = 0 \<or> w \<le> cb_cool_down_ns b"
    "\<And>t. t \<in> set ts \<Longrightarrow> 0 < t \<and> s \<le> t \<and> t - s < w"
  shows "allow_run b ts = replicate (min (unat r - unat (cb_window_count b)) (length ts)) True @
    replicate (length ts - (unat r - unat (cb_window_count b))) False"
  using assms
proof (induction ts arbitrary: b)
  case Nil
  then show ?case by simp
next
  case (Cons t ts)
  let ?c = "cb_window_count b" and ?b = "b\<lparr>cb_window_count := cb_window_count b + 1\<rparr>"
  have at: "allow_at t b = (if ?c + 1 > r then (False, trip t ?b) else (True, ?b))"
    using Cons.prems(2-5,7,8) Cons.prems(11) [of t] by (subst allow_in_window) (auto simp: Let_def)
  have suc: "unat (?c + 1) = unat ?c + 1"
    using unat_inc [of ?c "- 1"] Cons.prems(6,9) by simp
  show ?case
  proof (cases "?c + 1 > r")
    case True
    then have full: "unat ?c = unat r"
      using Cons.prems(6) suc by (simp add: word_less_nat_alt word_le_nat_alt)
    have "u - t < w" if "u \<in> set ts" "t \<le> u" for u
    proof -
      have "unat (u - t) \<le> unat (u - s)" "u - s < w"
        using that Cons.prems(11) [of t] Cons.prems(11) [of u] by (auto simp: unat_sub word_le_nat_alt)
      then show ?thesis by (simp add: word_less_nat_alt)
    qed
    then have "allow_run (trip t ?b) ts = replicate (length ts) False"
      using Cons.prems(1,10) by (intro allow_run_open) (fastforce simp: trip_def cb_inv_def not_le)+
    then show ?thesis using at True full by simp
  next
    case False
    have "cb_inv ?b" using Cons.prems(1) by (simp add: cb_inv_def)
    then have "allow_run ?b ts = replicate (min (unat r - unat (?c + 1)) (length ts)) True @
        replicate (length ts - (unat r - unat (?c + 1))) False"
      using Cons.IH [of ?b] Cons.prems(2-5,7-11) False by (simp add: not_less)
    moreover have "unat r - unat ?c = Suc (unat r - unat (?c + 1))"
      using False suc by (simp add: word_less_nat_alt)
    ultimately show ?thesis using at False by simp
  qed
qed

section \<open>Failures\<close>

lemma record_failure_closed:
  assumes "cb_inv b" "cb_state b = kClosed"
  shows "record_failure t b =
    (let b' = b\<lparr>cb_failures := cb_failures b + 1\<rparr> in
     if unat (cb_failures b) + 1 = unat (cb_max_failures b) then trip t b' else b')"
proof -
  have lt: "cb_failures b < cb_max_failures b" using assms by (simp add: cb_inv_def)
  have "cb_failures b + 1 \<ge> cb_max_failures b \<longleftrightarrow> unat (cb_failures b) + 1 = unat (cb_max_failures b)"
    using unat_inc [OF lt] lt by (auto simp: word_le_nat_alt word_less_nat_alt)
  then show ?thesis using assms(2) lt by (simp add: record_failure_def Let_def)
qed

lemma record_failure_open: "cb_state b = kOpen \<Longrightarrow> cb_state (record_failure t b) = kOpen"
  by (auto simp: record_failure_def trip_def Let_def)

lemma failures_open: "cb_state b = kOpen \<Longrightarrow> cb_state (foldl (\<lambda>b t. record_failure t b) b ts) = kOpen"
  by (induction ts arbitrary: b) (simp_all add: record_failure_open)

lemma failures_run:
  assumes "cb_inv b" "cb_state b = kClosed"
  shows "cb_state (foldl (\<lambda>b t. record_failure t b) b ts) =
    (if unat (cb_failures b) + length ts < unat (cb_max_failures b) then kClosed else kOpen)"
  using assms
proof (induction ts arbitrary: b)
  case Nil
  then show ?case by (simp add: cb_inv_def word_less_nat_alt)
next
  case (Cons t ts)
  let ?b = "b\<lparr>cb_failures := cb_failures b + 1\<rparr>"
  have lt: "cb_failures b < cb_max_failures b" using Cons.prems by (simp add: cb_inv_def)
  show ?case
  proof (cases "unat (cb_failures b) + 1 = unat (cb_max_failures b)")
    case True
    then have "record_failure t b = trip t ?b" using Cons.prems by (simp add: record_failure_closed Let_def)
    then show ?thesis using True failures_open [of "trip t ?b" ts] by (simp add: trip_def)
  next
    case False
    then have f: "record_failure t b = ?b" using Cons.prems by (simp add: record_failure_closed Let_def)
    then have "cb_inv ?b" using cb_inv_failure [OF Cons.prems(1), of t] by simp
    then show ?thesis using Cons.IH [of ?b] Cons.prems(2) f unat_inc [OF lt] by simp
  qed
qed

section \<open>Half-open probes\<close>




section \<open>Opening\<close>

text \<open>The time an event carries.\<close>

primrec op_time :: "breaker_op \<Rightarrow> u64 option" where
  "op_time (Failure t) = Some t"
| "op_time (Rejection t) = Some t"
| "op_time Success = None"
| "op_time (Trip t) = Some t"
| "op_time Reset = None"
| "op_time (Loss l t) = Some t"
| "op_time (Allow t) = Some t"
| "op_time (SetCoolDown d) = None"
| "op_time (SetHalfOpen p n) = None"
| "op_time (SetMaxRejections n) = None"
| "op_time (SetRate n w) = None"
| "op_time (SetLoss l) = None"

lemma opens_at:
  assumes "cb_state b \<noteq> kOpen" "cb_state (cb_exec b e) = kOpen"
  shows "op_time e = Some (cb_trip_timestamp_ns (cb_exec b e)) \<and> cb_cool_down_ns (cb_exec b e) = cb_cool_down_ns b"
  using assms
  by (cases e) (auto simp: record_failure_def record_rejection_def record_success_def check_loss_limit_def allow_at_def breaker_defs
      set_cool_down_ns_def set_half_open_params_def set_max_consecutive_rejections_def set_rate_limit_def set_max_loss_limit_def
      split: CircuitBreakerState.splits if_splits)

section \<open>Properties\<close>

text \<open>
  C22: When an event opens a breaker that was closed or half-open, in any state the breaker can reach,
  the event carries a time \<open>t\<close>, and the cool-down runs from it: as long as only requests follow, every
  request before \<open>t + cool_down\<close> is refused and the first later one is admitted, which makes the breaker
  half-open if that is enabled and closed otherwise.  With a cool-down of zero, the default, no request is ever
  admitted.  A request at time zero is never admitted.
\<close>

theorem breaker_cool_down:
  assumes "cb_state (cb_run (new_breaker n d0) es) \<noteq> kOpen" "cb_state (cb_exec (cb_run (new_breaker n d0) es) e) = kOpen"
  defines "b \<equiv> cb_exec (cb_run (new_breaker n d0) es) e" and "d \<equiv> cb_cool_down_ns (cb_run (new_breaker n d0) es)"
  shows "\<exists>t. op_time e = Some t \<and>
    (\<forall>us now. (\<forall>u\<in>set us. d = 0 \<or> u < t \<or> u - t < d) \<longrightarrow>
       allow_run b (us @ [now]) = replicate (length us) False @ [0 < d \<and> 0 < now \<and> t \<le> now \<and> d \<le> now - t]) \<and>
    (\<forall>now. fst (allow_at now b) \<longrightarrow> cb_state (snd (allow_at now b)) = (if cb_half_open_enabled b then kHalfOpen else kClosed))"
proof -
  let ?t = "cb_trip_timestamp_ns b"
  have o: "op_time e = Some ?t" "cb_cool_down_ns b = d" using opens_at [OF assms(1,2)] by (simp_all add: b_def d_def)
  have inv: "cb_inv b" unfolding b_def by (rule cb_inv_exec [OF cb_inv_run])
  have st: "cb_state b = kOpen" using assms(2) by (simp add: b_def)
  have "allow_run b (us @ [now]) = replicate (length us) False @ [0 < d \<and> 0 < now \<and> ?t \<le> now \<and> d \<le> now - ?t]"
    if "\<forall>u\<in>set us. d = 0 \<or> u < ?t \<or> u - ?t < d" for us now
    using that
  proof (induction us)
    case Nil
    then show ?case using allow_open_iff [OF inv st, of now] o(2) by simp
  next
    case (Cons u us)
    then have "allow_at u b = (False, b)" using st o(2) by (auto simp: allow_at_def allow_open_def not_less)
    then show ?case using Cons by simp
  qed
  moreover have "cb_state (snd (allow_at now b)) = (if cb_half_open_enabled b then kHalfOpen else kClosed)" if "fst (allow_at now b)" for now
    using that st by (auto simp: allow_at_def breaker_defs split: if_splits)
  ultimately show ?thesis using o(1) by blast
qed

theorem breaker_cool_down_witness:
  "allow_run (cb_run (new_breaker 1 500) [Failure 1000]) [1200, 1499, 1500] = [False, False, True]"
proof -
  have "cb_run (new_breaker 1 500) [] = new_breaker 1 500" "cb_run (new_breaker 1 500) [Failure 1000] = cb_exec (new_breaker 1 500) (Failure 1000)"
    by (simp_all add: cb_run_def)
  moreover have "cb_state (new_breaker 1 500) = kClosed" "cb_cool_down_ns (new_breaker 1 500) = 500"
    "cb_state (cb_exec (new_breaker 1 500) (Failure 1000)) = kOpen"
    by (simp_all add: new_breaker_def record_failure_def trip_def)
  ultimately have "\<forall>us now. (\<forall>u\<in>set us. u < 1000 \<or> u - 1000 < 500) \<longrightarrow> allow_run (cb_run (new_breaker 1 500) [Failure 1000]) (us @ [now]) =
      replicate (length us) False @ [0 < now \<and> 1000 \<le> now \<and> 500 \<le> now - 1000]"
    using breaker_cool_down [of 1 500 "[]" "Failure 1000"] by (simp del: allow_run.simps cb_exec.simps)
  from this [THEN spec, THEN spec, of "[1200, 1499]" 1500] show ?thesis
    by (simp del: allow_run.simps cb_exec.simps add: word_less_nat_alt)
qed

text \<open>
  Of any number of requests that fall into one rate window, exactly the first
  \<open>max_rate\<close> pass and every later one is refused, when the breaker does not cool down within
  the window.
\<close>

theorem breaker_rate_window:
  assumes "cb_inv b" "cb_state b = kClosed" "cb_max_rate_per_window b = r" "cb_rate_window_ns b = w"
    "0 < r" "r < - 1" "0 < w" "cb_cool_down_ns b = 0 \<or> w \<le> cb_cool_down_ns b"
    "0 < s" "s < cb_window_start_ns b \<or> w \<le> s - cb_window_start_ns b"
    "\<forall>t\<in>set ts. s \<le> t \<and> t - s < w"
  shows "allow_run b (s # ts) =
    replicate (min (unat r) (Suc (length ts))) True @ replicate (Suc (length ts) - unat r) False"
proof -
  let ?b = "b\<lparr>cb_window_start_ns := s, cb_window_count := 1\<rparr>"
  have at: "allow_at s b = (True, ?b)"
    using assms(2-10) by (auto simp: allow_at_def allow_closed_def)
  have r: "1 \<le> r" using assms(5) by (simp add: word_le_nat_alt word_less_nat_alt)
  obtain n where n: "unat r = Suc n" using assms(5) by (cases "unat r") (auto simp: word_less_nat_alt)
  have pos: "0 < t \<and> s \<le> t \<and> t - s < w" if "t \<in> set ts" for t
    using that assms(9,11) order.strict_trans2 [of 0 s t] by blast
  have invb: "cb_inv ?b" using assms(1) by (simp add: cb_inv_def)
  have "allow_run ?b ts = replicate (min (unat r - 1) (length ts)) True @ replicate (length ts - (unat r - 1)) False"
    using allow_run_window [OF invb, of r w s ts] assms(2-8) r pos by simp
  then show ?thesis using at n by simp
qed

lemma replicate_2: "replicate 2 x = [x, x]"
  by (simp add: numeral_eq_Suc)

theorem breaker_rate_window_example:
  "allow_run (set_rate_limit 2 100 (new_breaker 5 0)) [200, 210, 220, 290] = [True, True, False, False]"
proof -
  let ?b = "set_rate_limit 2 100 (new_breaker 5 0)"
  have inv: "cb_inv ?b" "cb_state ?b = kClosed" "cb_max_rate_per_window ?b = 2" "cb_rate_window_ns ?b = 100"
    "cb_cool_down_ns ?b = 0" "cb_window_start_ns ?b = 0"
    by (simp_all add: cb_inv_def set_rate_limit_def new_breaker_def)
  show ?thesis
    using breaker_rate_window [OF inv(1,2,3,4), of 200 "[210, 220, 290]"] inv(5,6)
    by (simp del: allow_run.simps add: replicate_2)
qed

text \<open>
  From a closed breaker with no failures counted, a run of failures opens it exactly when
  there are at least \<open>max_failures\<close> of them.
\<close>

lemma breaker_failure_threshold:
  assumes "cb_inv b" "cb_state b = kClosed" "cb_failures b = 0"
  shows "cb_state (foldl (\<lambda>b t. record_failure t b) b ts) = kOpen \<longleftrightarrow>
    unat (cb_max_failures b) \<le> length ts"
  using failures_run [OF assms(1,2), of ts] assms(3) by simp

lemma breaker_failure_threshold_example:
  "cb_state (foldl (\<lambda>b t. record_failure t b) (new_breaker 2 0) [7]) \<noteq> kOpen \<and>
   cb_state (foldl (\<lambda>b t. record_failure t b) (new_breaker 2 0) [7, 9]) = kOpen"
proof -
  have b: "cb_state (new_breaker 2 0) = kClosed" "cb_failures (new_breaker 2 0) = 0"
    "cb_max_failures (new_breaker 2 0) = 2"
    by (simp_all add: new_breaker_def)
  show ?thesis
    using breaker_failure_threshold [OF cb_inv_new b(1,2), of "[7]"]
      breaker_failure_threshold [OF cb_inv_new b(1,2), of "[7, 9]"] b(3) by simp
qed




end
