(* ===== verification/Rate_Limiter.thy ===== *)
theory Rate_Limiter
  imports Prelude
begin

text \<open>
  \<open>OrderRateLimiter\<close> of \<open>luv_safety.hpp\<close>: a counter of pending orders that threads raise and
  lower with compare-exchange loops.  The loops are a step relation in which every load and
  every compare-exchange is one atomic step of one thread; a weak compare-exchange may fail
  although the value matches.  The theory shows that the tokens handed out never exceed the
  limit under any interleaving, and that a thread running alone computes the sequential
  operations.
\<close>

section \<open>Sequential operations\<close>

record OrderRateLimiter =
  rl_max_pending :: u32
  rl_pending :: u32

definition new_limiter :: "u32 \<Rightarrow> OrderRateLimiter" where
  "new_limiter max_pending = \<lparr>rl_max_pending = max_pending, rl_pending = 0\<rparr>"

text \<open>What a call does that is not disturbed by another thread.\<close>

definition try_acquire :: "OrderRateLimiter \<Rightarrow> bool \<times> OrderRateLimiter" where
  "try_acquire l =
     (if rl_pending l < rl_max_pending l then (True, l\<lparr>rl_pending := rl_pending l + 1\<rparr>) else (False, l))"

definition rl_release :: "OrderRateLimiter \<Rightarrow> OrderRateLimiter" where
  "rl_release l = (if rl_pending l \<noteq> 0 then l\<lparr>rl_pending := rl_pending l - 1\<rparr> else l)"

section \<open>Interleaved threads\<close>

text \<open>
  A thread is outside the limiter or in one of the two loops with the value of \<open>current\<close>.
  \<open>ls_held\<close> counts the tokens a thread has acquired and not yet given back.
\<close>

datatype limiter_pc = Idle | Acquiring u32 | Releasing u32

record limiter_state =
  ls_limiter :: OrderRateLimiter
  ls_pc :: "nat \<Rightarrow> limiter_pc"
  ls_held :: "nat \<Rightarrow> nat"

definition ls_init :: "u32 \<Rightarrow> limiter_state" where
  "ls_init max_pending = \<lparr>ls_limiter = new_limiter max_pending, ls_pc = (\<lambda>_. Idle), ls_held = (\<lambda>_. 0)\<rparr>"

text \<open>
  The steps of a thread.  A thread only calls \<open>release\<close> for a token it holds, as the gateway does; the
  code does not check this, so it is a condition on the clients.
\<close>

inductive limiter_step :: "nat \<Rightarrow> nat \<Rightarrow> limiter_state \<Rightarrow> limiter_state \<Rightarrow> bool" for n t where
  acquire_load: "t < n \<Longrightarrow> ls_pc s t = Idle \<Longrightarrow>
    limiter_step n t s (s\<lparr>ls_pc := (ls_pc s)(t := Acquiring (rl_pending (ls_limiter s)))\<rparr>)"
| acquire_refused: "t < n \<Longrightarrow> ls_pc s t = Acquiring c \<Longrightarrow> \<not> c < rl_max_pending (ls_limiter s) \<Longrightarrow>
    limiter_step n t s (s\<lparr>ls_pc := (ls_pc s)(t := Idle)\<rparr>)"
| acquire_exchanged: "t < n \<Longrightarrow> ls_pc s t = Acquiring c \<Longrightarrow> c < rl_max_pending (ls_limiter s) \<Longrightarrow>
    rl_pending (ls_limiter s) = c \<Longrightarrow>
    limiter_step n t s (s\<lparr>ls_limiter := (ls_limiter s)\<lparr>rl_pending := c + 1\<rparr>,
      ls_pc := (ls_pc s)(t := Idle), ls_held := (ls_held s)(t := Suc (ls_held s t))\<rparr>)"
| acquire_retry: "t < n \<Longrightarrow> ls_pc s t = Acquiring c \<Longrightarrow> c < rl_max_pending (ls_limiter s) \<Longrightarrow>
    limiter_step n t s (s\<lparr>ls_pc := (ls_pc s)(t := Acquiring (rl_pending (ls_limiter s)))\<rparr>)"
| release_load: "t < n \<Longrightarrow> ls_pc s t = Idle \<Longrightarrow> 0 < ls_held s t \<Longrightarrow>
    limiter_step n t s (s\<lparr>ls_pc := (ls_pc s)(t := Releasing (rl_pending (ls_limiter s)))\<rparr>)"
| release_empty: "t < n \<Longrightarrow> ls_pc s t = Releasing 0 \<Longrightarrow>
    limiter_step n t s (s\<lparr>ls_pc := (ls_pc s)(t := Idle)\<rparr>)"
| release_exchanged: "t < n \<Longrightarrow> ls_pc s t = Releasing c \<Longrightarrow> c \<noteq> 0 \<Longrightarrow> rl_pending (ls_limiter s) = c \<Longrightarrow>
    limiter_step n t s (s\<lparr>ls_limiter := (ls_limiter s)\<lparr>rl_pending := c - 1\<rparr>,
      ls_pc := (ls_pc s)(t := Idle), ls_held := (ls_held s)(t := ls_held s t - 1)\<rparr>)"
| release_retry: "t < n \<Longrightarrow> ls_pc s t = Releasing c \<Longrightarrow> c \<noteq> 0 \<Longrightarrow>
    limiter_step n t s (s\<lparr>ls_pc := (ls_pc s)(t := Releasing (rl_pending (ls_limiter s)))\<rparr>)"

inductive limiter_reach :: "nat \<Rightarrow> u32 \<Rightarrow> limiter_state \<Rightarrow> bool" for n m where
  start: "limiter_reach n m (ls_init m)"
| move: "limiter_reach n m s \<Longrightarrow> limiter_step n t s s' \<Longrightarrow> limiter_reach n m s'"

inductive_cases limiter_stepE: "limiter_step n t s s'"

section \<open>Invariant\<close>

definition limiter_inv :: "nat \<Rightarrow> u32 \<Rightarrow> limiter_state \<Rightarrow> bool" where
  "limiter_inv n m s \<longleftrightarrow> rl_max_pending (ls_limiter s) = m \<and> rl_pending (ls_limiter s) \<le> m \<and>
     unat (rl_pending (ls_limiter s)) = (\<Sum>t<n. ls_held s t) \<and>
     (\<forall>t<n. \<forall>c. ls_pc s t = Releasing c \<longrightarrow> 0 < ls_held s t \<and> c \<noteq> 0)"

lemma held_le_sum: "t < n \<Longrightarrow> f t \<le> (\<Sum>u<n. f u :: nat)" for n :: nat
  by (rule member_le_sum) simp_all

lemma pending_pos:
  assumes "limiter_inv n m s" "t < n" "0 < ls_held s t"
  shows "rl_pending (ls_limiter s) \<noteq> 0"
  using assms held_le_sum [of t n "ls_held s"] unfolding limiter_inv_def by (metis not_gr0 unat_0 le_zero_eq)

lemma limiter_inv_step:
  assumes inv: "limiter_inv n m s" and st: "limiter_step n t s s'"
  shows "limiter_inv n m s'"
  using st
proof cases
  case (acquire_exchanged c)
  have "unat (c + 1) = Suc (unat c)" using acquire_exchanged by (simp add: unat_inc)
  moreover have "c + 1 \<le> m"
    using acquire_exchanged inv unat_inc [of c m] by (simp add: limiter_inv_def word_le_nat_alt word_less_nat_alt)
  moreover have "(\<Sum>u<n. ((ls_held s)(t := Suc (ls_held s t))) u) = Suc (\<Sum>u<n. ls_held s u)"
    using sum_fun_upd [OF acquire_exchanged(2), of "ls_held s" "Suc (ls_held s t)"] by simp
  ultimately show ?thesis using inv acquire_exchanged by (auto simp: limiter_inv_def)
next
  case (release_exchanged c)
  have "0 < ls_held s t" using inv release_exchanged by (auto simp: limiter_inv_def)
  moreover have "unat (c - 1) = unat c - 1" using release_exchanged by (simp add: unat_dec)
  moreover have "c - 1 \<le> m"
    using release_exchanged inv unat_dec [of c] by (auto simp: limiter_inv_def word_le_nat_alt)
  moreover have "(\<Sum>u<n. ((ls_held s)(t := ls_held s t - 1)) u) = (\<Sum>u<n. ls_held s u) - 1"
    using sum_fun_upd [OF release_exchanged(2), of "ls_held s" "ls_held s t - 1"] calculation(1) by simp
  ultimately show ?thesis using inv release_exchanged by (auto simp: limiter_inv_def)
next
  case release_load
  then show ?thesis using inv pending_pos [OF inv, of t] by (auto simp: limiter_inv_def)
next
  case (release_retry c)
  moreover have "0 < ls_held s t" using inv release_retry by (auto simp: limiter_inv_def)
  ultimately show ?thesis using inv pending_pos [OF inv, of t] by (auto simp: limiter_inv_def)
qed (use inv in \<open>auto simp: limiter_inv_def\<close>)

lemma limiter_reach_inv: "limiter_reach n m s \<Longrightarrow> limiter_inv n m s"
proof (induction rule: limiter_reach.induct)
  case start
  show ?case by (simp add: limiter_inv_def ls_init_def new_limiter_def)
qed (rule limiter_inv_step)

section \<open>Properties\<close>

text \<open>
  C19: Under every interleaving of any number of threads, spurious exchange failures included,
  the pending counter is the number of tokens held, it never exceeds the limit, and a thread
  that gives back a token never finds the counter at zero.
\<close>

theorem limiter_bounded:
  assumes "limiter_reach n m s"
  shows "(\<Sum>t<n. ls_held s t) = unat (rl_pending (ls_limiter s)) \<and> (\<Sum>t<n. ls_held s t) \<le> unat m \<and>
    (\<forall>t<n. ls_pc s t \<noteq> Releasing 0)"
  using limiter_reach_inv [OF assms] by (fastforce simp: limiter_inv_def word_le_nat_alt)

theorem limiter_bounded_witness:
  "\<exists>s. limiter_reach 2 1 s \<and> ls_held s 0 = 1 \<and> ls_pc s 1 = Acquiring 0 \<and>
     (\<Sum>t<2. ls_held s t) = unat (rl_pending (ls_limiter s)) \<and> (\<Sum>t<2. ls_held s t) \<le> unat (1 :: u32)"
proof -
  define s1 where "s1 = (ls_init 1)\<lparr>ls_pc := (ls_pc (ls_init 1))(0 := Acquiring 0)\<rparr>"
  define s2 where "s2 = s1\<lparr>ls_pc := (ls_pc s1)(1 := Acquiring 0)\<rparr>"
  define s3 where "s3 = s2\<lparr>ls_limiter := (ls_limiter s2)\<lparr>rl_pending := 0 + 1\<rparr>,
      ls_pc := (ls_pc s2)(0 := Idle), ls_held := (ls_held s2)(0 := Suc (ls_held s2 0))\<rparr>"
  have "limiter_step 2 0 (ls_init 1) s1"
    using acquire_load [of 0 2 "ls_init 1"] by (simp add: s1_def ls_init_def new_limiter_def)
  moreover have "limiter_step 2 1 s1 s2"
    using acquire_load [of 1 2 s1] by (simp add: s1_def s2_def ls_init_def new_limiter_def)
  moreover have "limiter_step 2 0 s2 s3"
    unfolding s3_def by (rule acquire_exchanged) (simp_all add: s1_def s2_def ls_init_def new_limiter_def)
  ultimately have r: "limiter_reach 2 1 s3" by (blast intro: limiter_reach.intros)
  have "ls_held s3 0 = 1" "ls_pc s3 1 = Acquiring 0"
    by (simp_all add: s1_def s2_def s3_def ls_init_def)
  with r limiter_bounded [OF r] show ?thesis by blast
qed

text \<open>
  A thread that runs alone from outside the limiter completes an acquisition in two steps
  with the outcome of \<open>try_acquire\<close>, and a release with the outcome of \<open>release\<close>.
\<close>

lemma limiter_solo:
  assumes "t < n" "ls_pc s t = Idle"
  shows "(\<exists>s1 s2. limiter_step n t s s1 \<and> limiter_step n t s1 s2 \<and> ls_pc s2 t = Idle \<and>
      ls_limiter s2 = snd (try_acquire (ls_limiter s)) \<and>
      ls_held s2 t = ls_held s t + (if fst (try_acquire (ls_limiter s)) then 1 else 0)) \<and>
    (0 < ls_held s t \<longrightarrow> (\<exists>s1 s2. limiter_step n t s s1 \<and> limiter_step n t s1 s2 \<and> ls_pc s2 t = Idle \<and>
      ls_limiter s2 = rl_release (ls_limiter s)))"
proof
  let ?p = "rl_pending (ls_limiter s)"
  let ?s1 = "s\<lparr>ls_pc := (ls_pc s)(t := Acquiring ?p)\<rparr>"
  have s1: "limiter_step n t s ?s1" using assms by (rule acquire_load)
  show "\<exists>s1 s2. limiter_step n t s s1 \<and> limiter_step n t s1 s2 \<and> ls_pc s2 t = Idle \<and>
      ls_limiter s2 = snd (try_acquire (ls_limiter s)) \<and>
      ls_held s2 t = ls_held s t + (if fst (try_acquire (ls_limiter s)) then 1 else 0)"
  proof (cases "?p < rl_max_pending (ls_limiter s)")
    case True
    then show ?thesis
      using s1 acquire_exchanged [of t n ?s1 ?p] assms
      by (intro exI [of _ ?s1] exI conjI) (assumption | simp add: try_acquire_def)+
  next
    case False
    then show ?thesis
      using s1 acquire_refused [of t n ?s1 ?p] assms
      by (intro exI [of _ ?s1] exI conjI) (assumption | simp add: try_acquire_def)+
  qed
  let ?r1 = "s\<lparr>ls_pc := (ls_pc s)(t := Releasing ?p)\<rparr>"
  show "0 < ls_held s t \<longrightarrow> (\<exists>s1 s2. limiter_step n t s s1 \<and> limiter_step n t s1 s2 \<and> ls_pc s2 t = Idle \<and>
      ls_limiter s2 = rl_release (ls_limiter s))"
  proof
    assume "0 < ls_held s t"
    then have r1: "limiter_step n t s ?r1" using assms by (intro release_load)
    show "\<exists>s1 s2. limiter_step n t s s1 \<and> limiter_step n t s1 s2 \<and> ls_pc s2 t = Idle \<and>
      ls_limiter s2 = rl_release (ls_limiter s)"
    proof (cases "?p = 0")
      case True
      then show ?thesis
        using r1 release_empty [of t n ?r1] assms
        by (intro exI [of _ ?r1] exI conjI) (assumption | simp add: rl_release_def)+
    next
      case False
      then show ?thesis
        using r1 release_exchanged [of t n ?r1 ?p] assms
        by (intro exI [of _ ?r1] exI conjI) (assumption | simp add: rl_release_def)+
    qed
  qed
qed

lemma limiter_solo_example:
  "\<exists>s1 s2. limiter_step 1 0 (ls_init 5) s1 \<and> limiter_step 1 0 s1 s2 \<and>
     ls_limiter s2 = snd (try_acquire (new_limiter 5)) \<and> ls_held s2 0 = 1"
  using limiter_solo [of 0 1 "ls_init 5"]
  by (auto simp: ls_init_def try_acquire_def new_limiter_def)

end
