(* ===== verification/Linear_Probing.thy ===== *)
theory Linear_Probing
  imports Prelude
begin

text \<open>
  Facts about open addressing without tombstones that the symbol table and the reconciliation
  ledger share.  A table is a function from slots to the key they hold, \<open>None\<close> for an empty
  slot; \<open>home\<close> is the hash.  A key is reachable when no slot between its home and its place is
  empty.
\<close>

section \<open>Reachable keys\<close>

definition reach :: "nat \<Rightarrow> ('k \<Rightarrow> nat) \<Rightarrow> (nat \<Rightarrow> 'k option) \<Rightarrow> 'k \<Rightarrow> nat \<Rightarrow> bool" where
  "reach cap home K k i \<longleftrightarrow>
     (\<exists>p<cap. i = probe cap (home k) p \<and> (\<forall>q<p. K (probe cap (home k) q) \<noteq> None))"

definition table_used :: "nat \<Rightarrow> (nat \<Rightarrow> 'k option) \<Rightarrow> nat set" where
  "table_used cap K = {i. i < cap \<and> K i \<noteq> None}"

definition table_inj :: "nat \<Rightarrow> (nat \<Rightarrow> 'k option) \<Rightarrow> bool" where
  "table_inj cap K \<longleftrightarrow> (\<forall>i<cap. \<forall>j<cap. \<forall>k. K i = Some k \<longrightarrow> K j = Some k \<longrightarrow> i = j)"

definition table_wf :: "nat \<Rightarrow> ('k \<Rightarrow> nat) \<Rightarrow> (nat \<Rightarrow> 'k option) \<Rightarrow> bool" where
  "table_wf cap home K \<longleftrightarrow> table_inj cap K \<and> (\<forall>i<cap. \<forall>k. K i = Some k \<longrightarrow> reach cap home K k i)"

text \<open>Where a probe for \<open>k\<close> stops: at an empty slot or at the key.\<close>

definition stop :: "nat \<Rightarrow> ('k \<Rightarrow> nat) \<Rightarrow> (nat \<Rightarrow> 'k option) \<Rightarrow> 'k \<Rightarrow> nat \<Rightarrow> bool" where
  "stop cap home K k p \<longleftrightarrow> K (probe cap (home k) p) = None \<or> K (probe cap (home k) p) = Some k"

lemma finite_table_used [simp]: "finite (table_used cap K)"
  by (simp add: table_used_def)

lemma table_used_le: "card (table_used cap K) \<le> cap"
  using card_mono [of "{..<cap}" "table_used cap K"] by (auto simp: table_used_def)

lemma table_used_less:
  assumes "i < cap" "K i = None"
  shows "card (table_used cap K) < cap"
proof -
  have "table_used cap K \<subseteq> {..<cap} - {i}" using assms(2) by (auto simp: table_used_def)
  then have "card (table_used cap K) \<le> card ({..<cap} - {i})" by (intro card_mono) simp_all
  also have "\<dots> < cap" using assms(1) by simp
  finally show ?thesis .
qed

lemma table_injD: "table_inj cap K \<Longrightarrow> i < cap \<Longrightarrow> j < cap \<Longrightarrow> K i = Some k \<Longrightarrow> K j = Some k \<Longrightarrow> i = j"
  unfolding table_inj_def by blast

lemma table_wf_reach: "table_wf cap home K \<Longrightarrow> i < cap \<Longrightarrow> K i = Some k \<Longrightarrow> reach cap home K k i"
  unfolding table_wf_def by blast

lemma table_wf_inj: "table_wf cap home K \<Longrightarrow> table_inj cap K"
  unfolding table_wf_def by blast

text \<open>An occupied stretch of a probe sequence is no longer than the number of occupied slots.\<close>

lemma occupied_prefix:
  assumes "p \<le> cap" "0 < cap" "\<And>q. q < p \<Longrightarrow> K (probe cap h q) \<noteq> None"
  shows "p \<le> card (table_used cap K)"
proof -
  have "inj_on (probe cap h) {..<p}"
    using assms(1) probe_inj [of cap h] by (auto intro!: inj_onI)
  moreover have "probe cap h ` {..<p} \<subseteq> table_used cap K"
    using assms by (auto simp: table_used_def probe_less)
  ultimately have "card {..<p} \<le> card (table_used cap K)"
    by (metis card_image card_mono finite_table_used)
  then show ?thesis by simp
qed

lemma empty_on_path:
  assumes "card (table_used cap K) < cap"
  shows "\<exists>p\<le>card (table_used cap K). K (probe cap h p) = None"
proof (rule ccontr)
  let ?n = "card (table_used cap K)"
  assume "\<not> ?thesis"
  then have "\<And>q. q < Suc ?n \<Longrightarrow> K (probe cap h q) \<noteq> None" by auto
  then have "Suc ?n \<le> card (table_used cap K)"
    using assms by (intro occupied_prefix [of "Suc ?n"]) auto
  then show False by simp
qed

section \<open>Searching\<close>

lemma search_reach:
  assumes inj: "table_inj cap K" and i: "i < cap" "K i = Some k"
    and p: "p < cap" "i = probe cap (home k) p" "\<forall>q<p. K (probe cap (home k) q) \<noteq> None" and n: "p < n"
  shows "find (stop cap home K k) [0..<n] = Some p"
proof -
  have "\<not> stop cap home K k q" if "q < p" for q
  proof -
    have "K (probe cap (home k) q) \<noteq> Some k"
    proof
      assume "K (probe cap (home k) q) = Some k"
      then have "probe cap (home k) q = i"
        using table_injD [OF inj _ i(1) _ i(2)] probe_less [of cap] i(1) by blast
      then show False using probe_inj [of cap "home k" q p] p that by simp
    qed
    then show ?thesis using p(3) that by (simp add: stop_def)
  qed
  then show ?thesis using n p(2) i(2) by (auto simp: find_upt_Some stop_def)
qed

lemma search_hit:
  assumes wf: "table_wf cap home K" and i: "i < cap" "K i = Some k" and n: "card (table_used cap K) \<le> n"
  shows "\<exists>p<n. find (stop cap home K k) [0..<n] = Some p \<and> probe cap (home k) p = i"
proof -
  obtain p where p: "p < cap" "i = probe cap (home k) p" "\<forall>q<p. K (probe cap (home k) q) \<noteq> None"
    using table_wf_reach [OF wf i] unfolding reach_def by blast
  have "Suc p \<le> card (table_used cap K)"
    using p i(2) by (intro occupied_prefix [of "Suc p" cap K "home k"]) (auto simp: less_Suc_eq)
  then have "p < n" using n by simp
  then show ?thesis using search_reach [of cap K i k p home n] table_wf_inj [OF wf] i p by blast
qed

lemma search_absent:
  assumes "0 < cap" "\<And>i. i < cap \<Longrightarrow> K i \<noteq> Some k" "find (stop cap home K k) [0..<n] = Some p"
  shows "p < n \<and> K (probe cap (home k) p) = None \<and> (\<forall>q<p. K (probe cap (home k) q) \<noteq> None)"
  using assms probe_less [of cap "home k"] unfolding find_upt_Some stop_def by metis

lemma search_room:
  assumes "card (table_used cap K) < cap" "card (table_used cap K) < n"
  shows "\<exists>p. find (stop cap home K k) [0..<n] = Some p"
proof -
  obtain p where "p \<le> card (table_used cap K)" "K (probe cap (home k) p) = None"
    using empty_on_path [OF assms(1)] by blast
  then have "p < n" "stop cap home K k p" using assms(2) by (simp_all add: stop_def)
  then show ?thesis using find_upt_None [of "stop cap home K k" n] by (metis not_None_eq)
qed

section \<open>Emptying a slot\<close>

text \<open>How far a slot is from a home, and whether a probe from there meets slot \<open>i\<close> before slot \<open>j\<close>.\<close>

definition probe_distance :: "nat \<Rightarrow> nat \<Rightarrow> nat \<Rightarrow> nat" where
  "probe_distance cap h i = (i + cap - h) mod cap"

definition passes :: "nat \<Rightarrow> nat \<Rightarrow> nat \<Rightarrow> nat \<Rightarrow> bool" where
  "passes cap h i j \<longleftrightarrow> probe_distance cap h i < probe_distance cap h j"

lemma probe_distance_less: "0 < cap \<Longrightarrow> probe_distance cap h i < cap"
  by (simp add: probe_distance_def)

lemma probe_dist:
  assumes "h < cap" "p < cap"
  shows "probe_distance cap h (probe cap h p) = p"
proof (cases "h + p < cap")
  case True
  then show ?thesis using assms by (simp add: probe_def probe_distance_def)
next
  case False
  then have "(h + p) mod cap = h + p - cap" using assms by (simp add: mod_if)
  then show ?thesis using assms False by (simp add: probe_def probe_distance_def)
qed

lemma probe_of_dist: "h < cap \<Longrightarrow> i < cap \<Longrightarrow> probe cap h (probe_distance cap h i) = i"
  by (simp add: probe_def probe_distance_def mod_simps)

text \<open>
  A key of a well-formed table whose probe passes an emptied slot is no longer found, and every other
  key is found where it was.
\<close>

lemma removed_hidden:
  assumes wf: "table_wf cap home K" and i: "i < cap" and j: "j < cap" "K j = Some k" "j \<noteq> i" and h: "home k < cap"
    and pass: "passes cap (home k) i j"
  shows "\<exists>p. find (stop cap home (K(i := None)) k) [0..<cap] = Some p \<and> (K(i := None)) (probe cap (home k) p) = None"
proof -
  let ?p = "probe_distance cap (home k) i" and ?K = "K(i := None)"
  have "stop cap home ?K k ?p" using probe_of_dist [OF h i] by (simp add: stop_def)
  then obtain p where f: "find (stop cap home ?K k) [0..<cap] = Some p" "p \<le> ?p"
    using find_upt_None [of "stop cap home ?K k" cap] probe_distance_less [of cap "home k" i] i
    by (metis find_upt_Some leI less_nat_zero_code not_None_eq not_gr_zero)
  have "?K (probe cap (home k) p) \<noteq> Some k"
  proof
    assume k: "?K (probe cap (home k) p) = Some k"
    then have "probe cap (home k) p = j"
      using table_injD [OF table_wf_inj [OF wf] _ j(1) _ j(2), of "probe cap (home k) p"] probe_less [of cap] i
      by (auto split: if_splits)
    moreover have "p < cap" using f(1) by (simp add: find_upt_Some)
    ultimately have "probe_distance cap (home k) j = p" using probe_dist [OF h] by blast
    then show False using pass f(2) by (simp add: passes_def)
  qed
  moreover have "stop cap home ?K k p" using f(1) by (simp add: find_upt_Some)
  ultimately have "?K (probe cap (home k) p) = None" unfolding stop_def by blast
  with f(1) show ?thesis by blast
qed

lemma removed_reach:
  assumes wf: "table_wf cap home K" and i: "i < cap" and j: "j < cap" "K j = Some k" "j \<noteq> i" and h: "home k < cap"
    and pass: "\<not> passes cap (home k) i j"
  shows "reach cap home (K(i := None)) k j"
proof -
  obtain p where p: "p < cap" "j = probe cap (home k) p" "\<And>q. q < p \<Longrightarrow> K (probe cap (home k) q) \<noteq> None"
    using table_wf_reach [OF wf j(1,2)] unfolding reach_def by blast
  have "(K(i := None)) (probe cap (home k) q) \<noteq> None" if "q < p" for q
  proof -
    have "probe cap (home k) q \<noteq> i"
      using pass probe_dist [OF h, of q] probe_dist [OF h p(1)] p(1,2) that by (auto simp: passes_def)
    then show ?thesis using p(3) [OF that] by simp
  qed
  then show ?thesis using p(1,2) unfolding reach_def by blast
qed

lemma table_inj_removed: "table_inj cap K \<Longrightarrow> table_inj cap (K(i := None))"
  unfolding table_inj_def by (auto split: if_splits)

section \<open>Insertion\<close>

lemma table_wf_insert:
  assumes wf: "table_wf cap home K" and k: "\<And>i. i < cap \<Longrightarrow> K i \<noteq> Some k"
    and p: "p < cap" "K (probe cap (home k) p) = None" "\<forall>q<p. K (probe cap (home k) q) \<noteq> None"
  shows "table_wf cap home (K(probe cap (home k) p \<mapsto> k))"
proof -
  let ?d = "probe cap (home k) p"
  have mono: "reach cap home (K(?d \<mapsto> k)) k' i" if "reach cap home K k' i" for k' i
    using that unfolding reach_def by auto
  have "reach cap home (K(?d \<mapsto> k)) k ?d" using p unfolding reach_def by auto
  then have "\<forall>i<cap. \<forall>k'. (K(?d \<mapsto> k)) i = Some k' \<longrightarrow> reach cap home (K(?d \<mapsto> k)) k' i"
    using table_wf_reach [OF wf] mono by auto
  moreover have "table_inj cap (K(?d \<mapsto> k))"
    unfolding table_inj_def
  proof (intro allI impI)
    fix i j k' assume ij: "i < cap" "j < cap" "(K(?d \<mapsto> k)) i = Some k'" "(K(?d \<mapsto> k)) j = Some k'"
    then show "i = j"
      using k [OF ij(1)] k [OF ij(2)] table_injD [OF table_wf_inj [OF wf] ij(1,2)] by (auto split: if_splits)
  qed
  ultimately show ?thesis by (simp add: table_wf_def)
qed

lemma table_used_insert: "d < cap \<Longrightarrow> K d = None \<Longrightarrow> table_used cap (K(d \<mapsto> k)) = insert d (table_used cap K)"
  by (auto simp: table_used_def)

text \<open>
  The association of a table with values: writing a key and its value into a slot that held
  the key, or was empty and the key absent, updates the association at that key.
\<close>

lemma table_assoc_put:
  assumes inj: "table_inj cap K'" and d: "d < cap" "K' d = Some k" "vals' d = v" "K d = None \<or> K d = Some k"
    and same: "\<And>i. i \<noteq> d \<Longrightarrow> K' i = K i \<and> vals' i = vals i"
  shows "(\<exists>i<cap. K' i = Some k' \<and> vals' i = w) \<longleftrightarrow>
    (if k' = k then v = w else (\<exists>i<cap. K i = Some k' \<and> vals i = w))"
proof (cases "k' = k")
  case True
  have "i = d" if "i < cap" "K' i = Some k" for i using table_injD [OF inj that(1) d(1) that(2) d(2)] .
  then have "(\<exists>i<cap. K' i = Some k \<and> vals' i = w) \<longleftrightarrow> vals' d = w" using d(1,2) by blast
  then show ?thesis unfolding True d(3) by (simp only: refl if_True)
next
  case False
  have "K' i = Some k' \<and> vals' i = w \<longleftrightarrow> K i = Some k' \<and> vals i = w" for i
    using same [of i] d(2,4) False by (cases "i = d") auto
  then have "(\<exists>i<cap. K' i = Some k' \<and> vals' i = w) \<longleftrightarrow> (\<exists>i<cap. K i = Some k' \<and> vals i = w)"
    by blast
  then show ?thesis using False by (simp only: if_False)
qed

section \<open>Repairing a table after a deletion\<close>

text \<open>
  After a slot was emptied, the keys that may no longer be reachable are those in the occupied
  stretch that starts at a cursor \<open>c\<close>.  Taking the key at the cursor out, putting it back where
  a probe for it now stops, and advancing the cursor keeps this.
\<close>

definition in_run :: "nat \<Rightarrow> (nat \<Rightarrow> 'k option) \<Rightarrow> nat \<Rightarrow> nat \<Rightarrow> bool" where
  "in_run cap K c i \<longleftrightarrow> (\<exists>d<cap. i = probe cap c d \<and> (\<forall>q\<le>d. K (probe cap c q) \<noteq> None))"

definition repairing :: "nat \<Rightarrow> ('k \<Rightarrow> nat) \<Rightarrow> (nat \<Rightarrow> 'k option) \<Rightarrow> nat \<Rightarrow> bool" where
  "repairing cap home K c \<longleftrightarrow> table_inj cap K \<and>
     (\<forall>i<cap. \<forall>k. K i = Some k \<longrightarrow> reach cap home K k i \<or> in_run cap K c i)"

lemma repairing_done: "c < cap \<Longrightarrow> K c = None \<Longrightarrow> repairing cap home K c \<Longrightarrow> table_wf cap home K"
  unfolding repairing_def table_wf_def in_run_def using probe_0 by (metis le0)

lemma probe_add: "probe cap (probe cap h a) b = probe cap h (a + b)"
  by (simp add: probe_def mod_simps add.assoc)

text \<open>A key reached through slot \<open>c\<close> lies in the stretch after \<open>c\<close>.\<close>

lemma reach_or_run:
  assumes r: "reach cap home K k i" and i: "K i \<noteq> None" and c: "c < cap" "i \<noteq> c"
    and K': "\<And>j. j < cap \<Longrightarrow> j \<noteq> c \<Longrightarrow> K j \<noteq> None \<Longrightarrow> K' j \<noteq> None"
  shows "reach cap home K' k i \<or> in_run cap K' (probe cap c 1) i"
proof -
  obtain p where p: "p < cap" "i = probe cap (home k) p" "\<And>q. q < p \<Longrightarrow> K (probe cap (home k) q) \<noteq> None"
    using r unfolding reach_def by blast
  have cap: "0 < cap" using c(1) by simp
  show ?thesis
  proof (cases "\<exists>q<p. probe cap (home k) q = c")
    case False
    then have "reach cap home K' k i"
      using p K' probe_less [OF cap] unfolding reach_def by blast
    then show ?thesis ..
  next
    case True
    then obtain q where q: "q < p" "probe cap (home k) q = c" by blast
    have at: "probe cap (probe cap c 1) s = probe cap (home k) (q + 1 + s)" for s
      using probe_add [of cap "home k" q "1 + s"] q(2) probe_add [of cap c 1 s] by (simp add: add.assoc)
    have ne: "K' (probe cap (home k) (q + 1 + s)) \<noteq> None" if "s \<le> p - (q + 1)" for s
    proof -
      have le: "q + 1 + s \<le> p" using that q(1) by simp
      have "K (probe cap (home k) (q + 1 + s)) \<noteq> None"
        using le p i by (cases "q + 1 + s = p") auto
      moreover have "probe cap (home k) (q + 1 + s) \<noteq> c"
        using probe_inj [of cap "home k" "q + 1 + s" q] q(2) le p(1) by auto
      ultimately show ?thesis using K' probe_less [OF cap] by blast
    qed
    have "in_run cap K' (probe cap c 1) i"
      unfolding in_run_def at using ne p(1,2) q(1) by (intro exI [of _ "p - (q + 1)"]) auto
    then show ?thesis ..
  qed
qed

lemma run_after:
  assumes r: "in_run cap K c i" and c: "c < cap" "i \<noteq> c"
    and K': "\<And>j. j < cap \<Longrightarrow> j \<noteq> c \<Longrightarrow> K j \<noteq> None \<Longrightarrow> K' j \<noteq> None"
  shows "in_run cap K' (probe cap c 1) i"
proof -
  obtain d where d: "d < cap" "i = probe cap c d" "\<And>q. q \<le> d \<Longrightarrow> K (probe cap c q) \<noteq> None"
    using r unfolding in_run_def by blast
  have "d \<noteq> 0" using d(2) c probe_0 by metis
  then obtain e where e: "d = Suc e" by (cases d) auto
  have "K' (probe cap c (1 + q)) \<noteq> None" if "q \<le> e" for q
  proof -
    have "probe cap c (1 + q) \<noteq> probe cap c 0"
      using probe_inj [of cap c "1 + q" 0] that d(1) e by auto
    then have "probe cap c (1 + q) \<noteq> c" using c(1) by (simp add: probe_0)
    then show ?thesis using K' d(3) [of "1 + q"] that e probe_less [of cap c] c(1) by auto
  qed
  then show ?thesis
    unfolding in_run_def probe_add using d(1,2) e by (intro exI [of _ e]) auto
qed

lemma repairing_step:
  assumes rp: "repairing cap home K c" and c: "c < cap" "K c = Some k"
    and p: "p < cap" "(K(c := None)) (probe cap (home k) p) = None"
      "\<forall>q<p. (K(c := None)) (probe cap (home k) q) \<noteq> None"
  shows "repairing cap home (K(c := None, probe cap (home k) p \<mapsto> k)) (probe cap c 1)"
proof -
  let ?d = "probe cap (home k) p" and ?K = "K(c := None, probe cap (home k) p \<mapsto> k)"
  have inj: "table_inj cap K" using rp by (simp add: repairing_def)
  have d: "?d < cap" "?d = c \<or> K ?d = None" using p(2) c(1) probe_less [of cap] by (auto split: if_splits)
  have K': "?K j \<noteq> None" if "j \<noteq> c" "K j \<noteq> None" for j using that by simp
  have "?K (probe cap (home k) q) \<noteq> None" if "q < p" for q using p(3) that by simp
  then have rd: "reach cap home ?K k ?d" using p(1) unfolding reach_def by blast
  have "reach cap home ?K k' i \<or> in_run cap ?K (probe cap c 1) i" if i: "i < cap" "?K i = Some k'" for i k'
  proof (cases "i = ?d")
    case True
    then show ?thesis using rd i(2) by simp
  next
    case False
    then have "i \<noteq> c" "K i = Some k'" using i(2) by (auto split: if_splits)
    then show ?thesis
      using rp i(1) reach_or_run [of cap home K k' i c ?K] run_after [of cap K c i ?K] c(1) K'
      unfolding repairing_def by blast
  qed
  moreover have "table_inj cap ?K"
    unfolding table_inj_def
  proof (intro allI impI)
    fix i j k' assume ij: "i < cap" "j < cap" "?K i = Some k'" "?K j = Some k'"
    have ne: "k' \<noteq> k" "K x = Some k'" if "x < cap" "x \<noteq> ?d" "?K x = Some k'" for x
      using that table_injD [OF inj _ c(1) _ c(2)] by (auto split: if_splits)
    have eq: "k' = k" if "x = ?d" "?K x = Some k'" for x using that by simp
    show "i = j"
    proof (cases "i = ?d"; cases "j = ?d")
      assume "i \<noteq> ?d" "j \<noteq> ?d"
      then show ?thesis using ij ne(2) table_injD [OF inj ij(1,2)] by blast
    qed (use ij ne(1) eq in blast)+
  qed
  ultimately show ?thesis by (simp add: repairing_def)
qed

lemma repairing_start:
  assumes wf: "table_wf cap home K" and c: "c < cap"
  shows "repairing cap home (K(c := None)) (probe cap c 1)"
proof -
  have "reach cap home (K(c := None)) k i \<or> in_run cap (K(c := None)) (probe cap c 1) i"
    if "i < cap" "(K(c := None)) i = Some k" for i k
    using that table_wf_reach [OF wf] reach_or_run [of cap home K k i c "K(c := None)"] c
    by (auto split: if_splits)
  moreover have "table_inj cap (K(c := None))"
    using table_injD [OF table_wf_inj [OF wf]] unfolding table_inj_def by (auto split: if_splits)
  ultimately show ?thesis by (simp add: repairing_def)
qed

end
