(* ===== verification/Reconciliation.thy ===== *)
theory Reconciliation
  imports Linear_Probing "HOL-Library.While_Combinator"
begin

text \<open>
  \<open>ReconciliationLedger\<close> of \<open>luv_safety.hpp\<close>: the open-addressing table of open orders and
  their remaining quantities, with \<open>Capacity\<close> the template parameter \<open>cap\<close>.  The theory shows
  that the ledger implements a finite map, cancellation with its cluster repair included, except that
  a fill that closes an order hides exactly the orders that had been displaced past it.
\<close>

section \<open>The ledger\<close>

record ExecutionReport =
  er_order_id :: u64
  er_filled_quantity :: int
  er_terminal :: bool

record Entry =
  en_order_id :: u64
  en_remaining :: int

definition empty_entry :: Entry where
  "empty_entry = \<lparr>en_order_id = 0, en_remaining = 0\<rparr>"

record ReconciliationLedger =
  rc_entries :: "nat \<Rightarrow> Entry"
  rc_open :: u32
  rc_mismatches :: u64

definition new_ledger :: ReconciliationLedger where
  "new_ledger = \<lparr>rc_entries = (\<lambda>_. empty_entry), rc_open = 0, rc_mismatches = 0\<rparr>"

definition rc_hash :: "nat \<Rightarrow> u64 \<Rightarrow> nat" where
  "rc_hash cap key =
     (let key1 = key XOR drop_bit 30 key;
          key2 = key1 * 0xBF58476D1CE4E5B9;
          key3 = key2 XOR drop_bit 27 key2;
          key4 = key3 * 0x94D049BB133111EB;
          key5 = key4 XOR drop_bit 31 key4
      in unat (ucast key5 :: u32) AND (cap - 1))"

fun rc_find_loop :: "nat \<Rightarrow> nat \<Rightarrow> (nat \<Rightarrow> Entry) \<Rightarrow> u64 \<Rightarrow> nat \<Rightarrow> nat option" where
  "rc_find_loop cap 0 es order_id slot = None"
| "rc_find_loop cap (Suc n) es order_id slot =
     (if en_order_id (es slot) = order_id then Some slot
      else if en_order_id (es slot) = 0 then None
      else rc_find_loop cap n es order_id ((slot + 1) AND (cap - 1)))"

definition rc_find :: "nat \<Rightarrow> (nat \<Rightarrow> Entry) \<Rightarrow> u64 \<Rightarrow> nat option" where
  "rc_find cap es order_id = rc_find_loop cap cap es order_id (rc_hash cap order_id)"

fun find_or_empty_loop :: "nat \<Rightarrow> nat \<Rightarrow> (nat \<Rightarrow> Entry) \<Rightarrow> u64 \<Rightarrow> nat \<Rightarrow> nat option" where
  "find_or_empty_loop cap 0 es order_id slot = None"
| "find_or_empty_loop cap (Suc n) es order_id slot =
     (if en_order_id (es slot) = order_id \<or> en_order_id (es slot) = 0 then Some slot
      else find_or_empty_loop cap n es order_id ((slot + 1) AND (cap - 1)))"

definition find_or_empty :: "nat \<Rightarrow> (nat \<Rightarrow> Entry) \<Rightarrow> u64 \<Rightarrow> nat option" where
  "find_or_empty cap es order_id = find_or_empty_loop cap cap es order_id (rc_hash cap order_id)"

text \<open>
  \<open>reinsert_cluster\<close>: the loop state is the table and the cursor, which is \<open>None\<close> once the
  early return was taken.
\<close>

definition reinsert_step :: "nat \<Rightarrow> (nat \<Rightarrow> Entry) \<Rightarrow> nat \<Rightarrow> (nat \<Rightarrow> Entry) \<times> nat option" where
  "reinsert_step cap es slot =
     (let displaced = es slot;
          es1 = es(slot := empty_entry)
      in case find_or_empty cap es1 (en_order_id displaced) of
           None \<Rightarrow> (es1, None)
         | Some destination \<Rightarrow> (es1(destination := displaced), Some ((slot + 1) AND (cap - 1))))"

definition reinsert_cluster :: "nat \<Rightarrow> (nat \<Rightarrow> Entry) \<Rightarrow> nat \<Rightarrow> (nat \<Rightarrow> Entry) option" where
  "reinsert_cluster cap es removed =
     map_option fst
       (while_option
          (\<lambda>(es, cursor). case cursor of None \<Rightarrow> False | Some slot \<Rightarrow> en_order_id (es slot) \<noteq> 0)
          (\<lambda>(es, cursor). reinsert_step cap es (the cursor))
          (es, Some ((removed + 1) AND (cap - 1))))"

definition register_order :: "nat \<Rightarrow> ReconciliationLedger \<Rightarrow> u64 \<Rightarrow> int \<Rightarrow> bool \<times> ReconciliationLedger" where
  "register_order cap l order_id quantity =
     (if order_id = 0 \<or> quantity \<le> 0 then (False, l)
      else case find_or_empty cap (rc_entries l) order_id of
        None \<Rightarrow> (False, l)
      | Some i \<Rightarrow>
          if en_order_id (rc_entries l i) \<noteq> 0 then (False, l)
          else (True, l\<lparr>rc_entries := (rc_entries l)(i := \<lparr>en_order_id = order_id, en_remaining = quantity\<rparr>),
                        rc_open := rc_open l + 1\<rparr>))"

definition rc_replace :: "nat \<Rightarrow> ReconciliationLedger \<Rightarrow> u64 \<Rightarrow> int \<Rightarrow> bool \<times> ReconciliationLedger" where
  "rc_replace cap l order_id new_quantity =
     (if order_id = 0 \<or> new_quantity \<le> 0 then (False, l)
      else case rc_find cap (rc_entries l) order_id of
        None \<Rightarrow> (False, l)
      | Some i \<Rightarrow>
          (True, l\<lparr>rc_entries := (rc_entries l)(i := (rc_entries l i)\<lparr>en_remaining := new_quantity\<rparr>)\<rparr>))"

definition rc_apply :: "nat \<Rightarrow> ReconciliationLedger \<Rightarrow> ExecutionReport \<Rightarrow> bool \<times> ReconciliationLedger" where
  "rc_apply cap l report =
     (if er_order_id report = 0 \<or> er_filled_quantity report \<le> 0 then (False, l)
      else case rc_find cap (rc_entries l) (er_order_id report) of
        None \<Rightarrow> (False, l\<lparr>rc_mismatches := rc_mismatches l + 1\<rparr>)
      | Some i \<Rightarrow>
          if er_filled_quantity report > en_remaining (rc_entries l i) then
            (False, l\<lparr>rc_mismatches := rc_mismatches l + 1\<rparr>)
          else
            let remaining = en_remaining (rc_entries l i) - er_filled_quantity report in
            if er_terminal report \<or> remaining = 0 then
              (True, l\<lparr>rc_entries := (rc_entries l)(i := empty_entry), rc_open := rc_open l - 1\<rparr>)
            else
              (True, l\<lparr>rc_entries := (rc_entries l)(i := (rc_entries l i)\<lparr>en_remaining := remaining\<rparr>)\<rparr>))"

definition rc_contains :: "nat \<Rightarrow> ReconciliationLedger \<Rightarrow> u64 \<Rightarrow> bool" where
  "rc_contains cap l order_id \<longleftrightarrow> order_id \<noteq> 0 \<and> rc_find cap (rc_entries l) order_id \<noteq> None"

text \<open>\<open>None\<close> if the repair loop does not end.\<close>

definition rc_cancel :: "nat \<Rightarrow> ReconciliationLedger \<Rightarrow> u64 \<Rightarrow> (bool \<times> ReconciliationLedger) option" where
  "rc_cancel cap l order_id =
     (case rc_find cap (rc_entries l) order_id of
        None \<Rightarrow> Some (False, l)
      | Some i \<Rightarrow>
          map_option (\<lambda>es. (True, l\<lparr>rc_entries := es, rc_open := rc_open l - 1\<rparr>))
            (reinsert_cluster cap ((rc_entries l)(i := empty_entry)) i))"

section \<open>The table behind the ledger\<close>

definition rc_key :: "(nat \<Rightarrow> Entry) \<Rightarrow> nat \<Rightarrow> u64 option" where
  "rc_key es i = (if en_order_id (es i) = 0 then None else Some (en_order_id (es i)))"

definition is_capacity :: "nat \<Rightarrow> bool" where
  "is_capacity cap \<longleftrightarrow> (\<exists>b<32. cap = 2 ^ b)"

lemma rc_key_None [simp]: "rc_key es i = None \<longleftrightarrow> en_order_id (es i) = 0"
  by (simp add: rc_key_def)

lemma rc_key_Some: "k \<noteq> 0 \<Longrightarrow> rc_key es i = Some k \<longleftrightarrow> en_order_id (es i) = k"
  by (auto simp: rc_key_def)

lemma rc_key_nonzero: "rc_key es i = Some k \<Longrightarrow> k \<noteq> 0 \<and> en_order_id (es i) = k"
  by (auto simp: rc_key_def split: if_splits)

lemma rc_key_upd:
  "rc_key (es(i := e)) = (rc_key es)(i := (if en_order_id e = 0 then None else Some (en_order_id e)))"
  by (auto simp: rc_key_def)

lemma cap_mask: "is_capacity cap \<Longrightarrow> x AND (cap - 1) = x mod cap"
  by (auto simp: is_capacity_def and_mask_pow2 and_mask_Suc)

lemma cap_pos: "is_capacity cap \<Longrightarrow> 0 < cap"
  by (auto simp: is_capacity_def)

lemma rc_hash_less: "is_capacity cap \<Longrightarrow> rc_hash cap k < cap"
  by (simp add: rc_hash_def Let_def cap_mask cap_pos del: One_nat_def)

lemma cap_next: "is_capacity cap \<Longrightarrow> (probe cap h p + 1) AND (cap - 1) = probe cap h (Suc p)"
  by (simp only: cap_mask probe_Suc)

lemma find_or_empty_loop_eq:
  assumes "is_capacity cap" "k \<noteq> 0"
  shows "find_or_empty_loop cap n es k (probe cap (rc_hash cap k) s) =
    map_option (probe cap (rc_hash cap k)) (find (stop cap (rc_hash cap) (rc_key es) k) [s..<s + n])"
proof (induction n arbitrary: s)
  case (Suc n)
  have "stop cap (rc_hash cap) (rc_key es) k s \<longleftrightarrow>
      en_order_id (es (probe cap (rc_hash cap k) s)) = k \<or> en_order_id (es (probe cap (rc_hash cap k) s)) = 0"
    using rc_key_Some [OF assms(2)] by (auto simp: stop_def)
  then show ?case
    by (simp only: find_upt_step find_or_empty_loop.simps cap_next [OF assms(1)] Suc.IH)
      (simp only: if_distrib [of "map_option _"] option.map)
qed simp

lemma rc_find_loop_eq:
  assumes "is_capacity cap" "k \<noteq> 0"
  shows "rc_find_loop cap n es k (probe cap (rc_hash cap k) s) =
    (case find (stop cap (rc_hash cap) (rc_key es) k) [s..<s + n] of
       None \<Rightarrow> None
     | Some p \<Rightarrow> if rc_key es (probe cap (rc_hash cap k) p) = Some k
                then Some (probe cap (rc_hash cap k) p) else None)"
proof (induction n arbitrary: s)
  case (Suc n)
  have "stop cap (rc_hash cap) (rc_key es) k s \<longleftrightarrow>
      en_order_id (es (probe cap (rc_hash cap k) s)) = k \<or> en_order_id (es (probe cap (rc_hash cap k) s)) = 0"
    using rc_key_Some [OF assms(2)] by (auto simp: stop_def)
  then show ?case
    by (simp only: find_upt_step rc_find_loop.simps cap_next [OF assms(1)] Suc.IH rc_key_Some [OF assms(2)])
      simp
qed simp

lemma find_or_empty_eq:
  "is_capacity cap \<Longrightarrow> k \<noteq> 0 \<Longrightarrow> find_or_empty cap es k =
    map_option (probe cap (rc_hash cap k)) (find (stop cap (rc_hash cap) (rc_key es) k) [0..<cap])"
  using find_or_empty_loop_eq [of cap k cap es 0] by (simp add: find_or_empty_def probe_0 rc_hash_less)

lemma rc_find_eq:
  "is_capacity cap \<Longrightarrow> k \<noteq> 0 \<Longrightarrow> rc_find cap es k =
    (case find (stop cap (rc_hash cap) (rc_key es) k) [0..<cap] of
       None \<Rightarrow> None
     | Some p \<Rightarrow> if rc_key es (probe cap (rc_hash cap k) p) = Some k
                then Some (probe cap (rc_hash cap k) p) else None)"
  using rc_find_loop_eq [of cap k cap es 0] by (simp add: rc_find_def probe_0 rc_hash_less)

abbreviation (input) rc_wf :: "nat \<Rightarrow> (nat \<Rightarrow> Entry) \<Rightarrow> bool" where
  "rc_wf cap es \<equiv> table_wf cap (rc_hash cap) (rc_key es)"

lemma rc_find_iff:
  assumes cap: "is_capacity cap" and wf: "rc_wf cap es" and k: "k \<noteq> 0"
  shows "rc_find cap es k = Some i \<longleftrightarrow> i < cap \<and> rc_key es i = Some k"
proof
  assume "rc_find cap es k = Some i"
  then show "i < cap \<and> rc_key es i = Some k"
    using probe_less [OF cap_pos [OF cap], of "rc_hash cap k"]
    by (auto simp: rc_find_eq [OF cap k] split: option.splits if_splits)
next
  assume "i < cap \<and> rc_key es i = Some k"
  then show "rc_find cap es k = Some i"
    using search_hit [OF wf _ _ table_used_le, of i k] by (auto simp: rc_find_eq [OF cap k])
qed

lemma rc_find_None:
  assumes "is_capacity cap" "rc_wf cap es" "k \<noteq> 0"
  shows "rc_find cap es k = None \<longleftrightarrow> (\<forall>i<cap. rc_key es i \<noteq> Some k)"
  using rc_find_iff [OF assms] by (metis not_None_eq)

section \<open>The repair loop\<close>

text \<open>The orders in the table.\<close>

definition rc_content :: "nat \<Rightarrow> (nat \<Rightarrow> Entry) \<Rightarrow> (u64 \<times> int) set" where
  "rc_content cap es = (\<lambda>i. (en_order_id (es i), en_remaining (es i))) ` table_used cap (rc_key es)"

definition rc_dist :: "nat \<Rightarrow> (nat \<Rightarrow> Entry) \<Rightarrow> nat \<Rightarrow> nat" where
  "rc_dist cap es i =
     (if en_order_id (es i) = 0 then 0 else probe_distance cap (rc_hash cap (en_order_id (es i))) i)"

definition next_empty :: "nat \<Rightarrow> (nat \<Rightarrow> Entry) \<Rightarrow> nat \<Rightarrow> nat" where
  "next_empty cap es c = (LEAST n. en_order_id (es (probe cap c n)) = 0)"

text \<open>One turn of the loop on a table that still has an empty slot.\<close>

lemma reinsert_step_eq:
  assumes cap: "is_capacity cap" and c: "c < cap" "en_order_id (es c) \<noteq> 0"
    and inj: "table_inj cap (rc_key es)"
  obtains p where "p \<le> rc_dist cap es c"
    "reinsert_step cap es c =
       (es(c := empty_entry, probe cap (rc_hash cap (en_order_id (es c))) p := es c), Some (probe cap c 1))"
    "((rc_key es)(c := None)) (probe cap (rc_hash cap (en_order_id (es c))) p) = None"
    "\<forall>q<p. ((rc_key es)(c := None)) (probe cap (rc_hash cap (en_order_id (es c))) q) \<noteq> None"
proof -
  let ?k = "en_order_id (es c)" and ?es = "es(c := empty_entry)"
  let ?h = "rc_hash cap ?k" and ?K = "(rc_key es)(c := None)"
  have K: "rc_key ?es = ?K" by (simp add: rc_key_upd empty_entry_def)
  have absent: "?K i \<noteq> Some ?k" if "i < cap" for i
    using table_injD [OF inj that c(1), of ?k] c(2) by (auto simp: rc_key_Some split: if_splits)
  have at: "probe cap ?h (rc_dist cap es c) = c"
    using probe_of_dist [OF rc_hash_less [OF cap] c(1)] c(2) by (simp add: rc_dist_def)
  have dl: "rc_dist cap es c < cap" using cap_pos [OF cap] by (simp add: rc_dist_def probe_distance_less)
  have "stop cap (rc_hash cap) ?K ?k (rc_dist cap es c)" using at by (simp add: stop_def)
  then obtain p where f: "find (stop cap (rc_hash cap) ?K ?k) [0..<cap] = Some p"
    using find_upt_None [of "stop cap (rc_hash cap) ?K ?k" cap] dl by (metis not_None_eq)
  then have le: "p \<le> rc_dist cap es c"
    using \<open>stop cap (rc_hash cap) ?K ?k (rc_dist cap es c)\<close> by (auto simp: find_upt_Some not_less)
  have p: "p < cap \<and> ?K (probe cap ?h p) = None \<and> (\<forall>q<p. ?K (probe cap ?h q) \<noteq> None)"
    using cap_pos [OF cap] absent f by (rule search_absent)
  have "find_or_empty cap ?es ?k = Some (probe cap ?h p)"
    using f by (simp add: find_or_empty_eq [OF cap c(2)] K)
  then have "reinsert_step cap es c = (?es(probe cap ?h p := es c), Some (probe cap c 1))"
    using cap_next [OF cap, of c 0] c(1) by (simp add: reinsert_step_def Let_def probe_0)
  with le p that show thesis by blast
qed

lemma rc_used_moved:
  assumes "c < cap" "d < cap" "en_order_id ((es(c := empty_entry)) d) = 0" "en_order_id (es c) \<noteq> 0"
  shows "table_used cap (rc_key (es(c := empty_entry, d := es c))) = insert d (table_used cap (rc_key es) - {c})"
    and "d \<notin> table_used cap (rc_key es) - {c}" and "c \<in> table_used cap (rc_key es)"
  using assms by (auto simp: table_used_def rc_key_def empty_entry_def split: if_splits)

lemma rc_content_move:
  assumes "c < cap" "d < cap" "en_order_id ((es(c := empty_entry)) d) = 0" "en_order_id (es c) \<noteq> 0"
  shows "rc_content cap (es(c := empty_entry, d := es c)) = rc_content cap es"
proof -
  let ?U = "table_used cap (rc_key es)" and ?f = "\<lambda>e. (en_order_id e, en_remaining e)"
  note mv = rc_used_moved [OF assms]
  have "(\<lambda>i. ?f ((es(c := empty_entry, d := es c)) i)) ` (?U - {c}) = (\<lambda>i. ?f (es i)) ` (?U - {c})"
    using mv(2) by (intro image_cong) auto
  then have "rc_content cap (es(c := empty_entry, d := es c)) = insert (?f (es c)) ((\<lambda>i. ?f (es i)) ` (?U - {c}))"
    unfolding rc_content_def mv(1) by simp
  also have "\<dots> = (\<lambda>i. ?f (es i)) ` insert c (?U - {c})" by (simp only: image_insert)
  also have "insert c (?U - {c}) = ?U" using mv(3) by (rule insert_Diff)
  finally show ?thesis unfolding rc_content_def [of cap es] .
qed

lemma rc_used_move:
  assumes "c < cap" "d < cap" "en_order_id ((es(c := empty_entry)) d) = 0" "en_order_id (es c) \<noteq> 0"
  shows "card (table_used cap (rc_key (es(c := empty_entry, d := es c)))) = card (table_used cap (rc_key es))"
proof -
  note mv = rc_used_moved [OF assms]
  have "card (table_used cap (rc_key (es(c := empty_entry, d := es c)))) =
      Suc (card (table_used cap (rc_key es) - {c}))"
    unfolding mv(1) using mv(2) by simp
  then show ?thesis using card_Suc_Diff1 [OF finite_table_used mv(3)] by (rule trans)
qed

definition repair_cond :: "(nat \<Rightarrow> Entry) \<times> nat option \<Rightarrow> bool" where
  "repair_cond s \<longleftrightarrow> (case snd s of None \<Rightarrow> False | Some slot \<Rightarrow> en_order_id (fst s slot) \<noteq> 0)"

definition repair_inv :: "nat \<Rightarrow> (nat \<Rightarrow> Entry) \<Rightarrow> (nat \<Rightarrow> Entry) \<times> nat option \<Rightarrow> bool" where
  "repair_inv cap es0 s \<longleftrightarrow> (\<exists>c<cap. snd s = Some c \<and> repairing cap (rc_hash cap) (rc_key (fst s)) c) \<and>
     card (table_used cap (rc_key (fst s))) = card (table_used cap (rc_key es0)) \<and>
     rc_content cap (fst s) = rc_content cap es0"

definition repair_measure :: "nat \<Rightarrow> (nat \<Rightarrow> Entry) \<times> nat option \<Rightarrow> nat \<times> nat" where
  "repair_measure cap s = (\<Sum>i<cap. rc_dist cap (fst s) i, next_empty cap (fst s) (the (snd s)))"

lemma next_empty_step:
  assumes "c < cap" "en_order_id (es c) \<noteq> 0" "en_order_id (es (probe cap c n)) = 0"
  shows "next_empty cap es (probe cap c 1) < next_empty cap es c"
proof -
  have "\<not> en_order_id (es (probe cap c 0)) = 0" using assms(1,2) by (simp add: probe_0)
  then have "next_empty cap es c = Suc (LEAST m. en_order_id (es (probe cap c (Suc m))) = 0)"
    unfolding next_empty_def using assms(3) by (intro Least_Suc)
  then show ?thesis by (simp add: next_empty_def probe_add)
qed

lemma repair_step:
  assumes cap: "is_capacity cap" and room: "card (table_used cap (rc_key es0)) < cap"
    and inv: "repair_inv cap es0 s" and b: "repair_cond s"
  shows "repair_inv cap es0 (reinsert_step cap (fst s) (the (snd s)))"
    and "(repair_measure cap (reinsert_step cap (fst s) (the (snd s))), repair_measure cap s)
      \<in> less_than <*lex*> less_than"
proof -
  let ?es = "fst s"
  obtain c where c: "c < cap" "snd s = Some c" and rp: "repairing cap (rc_hash cap) (rc_key ?es) c"
    using inv by (auto simp: repair_inv_def)
  have ne: "en_order_id (?es c) \<noteq> 0" using b c by (simp add: repair_cond_def)
  have inj: "table_inj cap (rc_key ?es)" using rp by (simp add: repairing_def)
  let ?k = "en_order_id (?es c)"
  obtain p where p: "p \<le> rc_dist cap ?es c"
    and st: "reinsert_step cap ?es c =
       (?es(c := empty_entry, probe cap (rc_hash cap ?k) p := ?es c), Some (probe cap c 1))"
    and d0: "((rc_key ?es)(c := None)) (probe cap (rc_hash cap ?k) p) = None"
    and path: "\<forall>q<p. ((rc_key ?es)(c := None)) (probe cap (rc_hash cap ?k) q) \<noteq> None"
    using reinsert_step_eq [OF cap c(1) ne inj] by blast
  let ?d = "probe cap (rc_hash cap ?k) p"
  let ?es' = "?es(c := empty_entry, ?d := ?es c)"
  have dl: "rc_dist cap ?es c < cap" "?d < cap"
    using cap_pos [OF cap] by (simp_all add: rc_dist_def probe_less probe_distance_less)
  have e0: "en_order_id ((?es(c := empty_entry)) ?d) = 0"
    using d0 by (auto simp: rc_key_def empty_entry_def split: if_splits)
  have K: "rc_key ?es' = (rc_key ?es)(c := None, ?d \<mapsto> ?k)"
    using ne by (simp add: rc_key_upd empty_entry_def)
  have "repairing cap (rc_hash cap) (rc_key ?es') (probe cap c 1)"
    unfolding K using rp c(1) ne p dl(1) d0 path
    by (intro repairing_step) (auto simp: rc_key_def)
  then show "repair_inv cap es0 (reinsert_step cap ?es (the (snd s)))"
    using inv c st probe_less [OF cap_pos [OF cap], of c 1]
      rc_used_move [OF c(1) dl(2) e0 ne] rc_content_move [OF c(1) dl(2) e0 ne]
    by (auto simp: repair_inv_def)
  show "(repair_measure cap (reinsert_step cap ?es (the (snd s))), repair_measure cap s)
      \<in> less_than <*lex*> less_than"
  proof (cases "?d = c")
    case True
    obtain n where "rc_key ?es (probe cap c n) = None"
      using empty_on_path [of cap "rc_key ?es" c] room inv by (auto simp: repair_inv_def)
    then have "next_empty cap ?es (probe cap c 1) < next_empty cap ?es c"
      using next_empty_step [of c cap ?es n] c(1) ne by simp
    moreover have "?es' = ?es" using True by simp
    ultimately show ?thesis using st c(2) by (simp add: repair_measure_def)
  next
    case False
    have "probe cap (rc_hash cap ?k) (rc_dist cap ?es c) = c"
      using probe_of_dist [OF rc_hash_less [OF cap] c(1)] ne by (simp add: rc_dist_def)
    then have less: "p < rc_dist cap ?es c" using False p by (cases "p = rc_dist cap ?es c") auto
    have "rc_dist cap ?es' = (rc_dist cap ?es)(c := 0, ?d := p)"
      using probe_dist [OF rc_hash_less [OF cap], of p ?k] less dl(1) ne False
      by (auto simp: rc_dist_def fun_eq_iff empty_entry_def)
    moreover have "rc_dist cap ?es ?d = 0" using e0 False by (simp add: rc_dist_def)
    ultimately have "(\<Sum>i<cap. rc_dist cap ?es' i) + rc_dist cap ?es c = (\<Sum>i<cap. rc_dist cap ?es i) + p"
      using sum_fun_upd [OF c(1), of "rc_dist cap ?es" 0]
        sum_fun_upd [OF dl(2), of "(rc_dist cap ?es)(c := 0)" p] False by simp
    then show ?thesis using st c(2) less by (simp add: repair_measure_def)
  qed
qed

text \<open>The loop ends, and it leaves every order of the table reachable again.\<close>

lemma reinsert_cluster_spec:
  assumes cap: "is_capacity cap" and r: "i < cap"
    and rp: "repairing cap (rc_hash cap) (rc_key es) (probe cap i 1)"
    and room: "card (table_used cap (rc_key es)) < cap"
  shows "\<exists>es'. reinsert_cluster cap es i = Some es' \<and> rc_wf cap es' \<and>
    card (table_used cap (rc_key es')) = card (table_used cap (rc_key es)) \<and>
    rc_content cap es' = rc_content cap es"
proof -
  let ?f = "\<lambda>s. reinsert_step cap (fst s) (the (snd s))" and ?s = "(es, Some (probe cap i 1))"
  have s: "repair_inv cap es ?s"
    using rp probe_less [OF cap_pos [OF cap], of i 1] by (simp add: repair_inv_def)
  have keep: "repair_inv cap es (?f s)" if "repair_inv cap es s" "repair_cond s" for s
    using repair_step(1) [OF cap room that] .
  have "wf {(t, s). (repair_inv cap es s \<and> repair_cond s) \<and> t = ?f s}"
    by (rule wf_subset [OF wf_inv_image [OF wf_lex_prod [OF wf_less_than wf_less_than], of "repair_measure cap"]])
      (use repair_step(2) [OF cap room] in \<open>auto simp: inv_image_def\<close>)
  then obtain t where t: "while_option repair_cond ?f ?s = Some t"
    using wf_while_option_Some [of "repair_inv cap es" repair_cond ?f ?s] keep s by blast
  have inv: "repair_inv cap es t"
    by (rule while_option_rule [where P = "repair_inv cap es", OF keep t s])
  then obtain c where c: "c < cap" "snd t = Some c" "repairing cap (rc_hash cap) (rc_key (fst t)) c"
    by (auto simp: repair_inv_def)
  have "\<not> repair_cond t" using while_option_stop [OF t] .
  then have "rc_key (fst t) c = None" using c(2) by (simp add: repair_cond_def)
  then have "rc_wf cap (fst t)" using repairing_done c(1,3) by blast
  moreover have "reinsert_cluster cap es i = Some (fst t)"
  proof -
    have "(\<lambda>(es, cursor). case cursor of None \<Rightarrow> False | Some slot \<Rightarrow> en_order_id (es slot) \<noteq> 0) = repair_cond"
      by (auto simp: repair_cond_def fun_eq_iff split: option.split)
    moreover have "(\<lambda>(es, cursor). reinsert_step cap es (the cursor)) = ?f" by auto
    ultimately show ?thesis
      using t cap_next [OF cap, of i 0] r by (simp add: reinsert_cluster_def probe_0)
  qed
  ultimately show ?thesis using inv by (auto simp: repair_inv_def)
qed

section \<open>The ledger as a finite map\<close>

definition rc_lookup :: "nat \<Rightarrow> ReconciliationLedger \<Rightarrow> u64 \<Rightarrow> int option" where
  "rc_lookup cap l k =
     (if k = 0 then None else map_option (\<lambda>i. en_remaining (rc_entries l i)) (rc_find cap (rc_entries l) k))"

definition rc_inv :: "nat \<Rightarrow> ReconciliationLedger \<Rightarrow> bool" where
  "rc_inv cap l \<longleftrightarrow> is_capacity cap \<and> rc_wf cap (rc_entries l) \<and>
     (\<forall>i<cap. en_order_id (rc_entries l i) \<noteq> 0 \<longrightarrow> 0 < en_remaining (rc_entries l i)) \<and>
     unat (rc_open l) = card (table_used cap (rc_key (rc_entries l)))"

lemma rc_invD:
  assumes "rc_inv cap l"
  shows "is_capacity cap" "rc_wf cap (rc_entries l)"
    "\<And>i. i < cap \<Longrightarrow> en_order_id (rc_entries l i) \<noteq> 0 \<Longrightarrow> 0 < en_remaining (rc_entries l i)"
    "unat (rc_open l) = card (table_used cap (rc_key (rc_entries l)))"
  using assms by (auto simp: rc_inv_def)

lemma rc_lookup_iff:
  assumes "is_capacity cap" "rc_wf cap (rc_entries l)"
  shows "rc_lookup cap l k = Some v \<longleftrightarrow>
    (\<exists>i<cap. rc_key (rc_entries l) i = Some k \<and> en_remaining (rc_entries l i) = v)"
  using rc_find_iff [OF assms, of k] by (auto simp: rc_lookup_def dest: rc_key_nonzero)

lemma rc_lookup_content:
  assumes "is_capacity cap" "rc_wf cap (rc_entries l)"
  shows "rc_lookup cap l k = Some v \<longleftrightarrow> (k, v) \<in> rc_content cap (rc_entries l)"
  unfolding rc_lookup_iff [OF assms] rc_content_def table_used_def
  by (auto simp: rc_key_def split: if_splits)

lemma rc_lookup_at:
  "is_capacity cap \<Longrightarrow> rc_wf cap (rc_entries l) \<Longrightarrow> rc_find cap (rc_entries l) k = Some i \<Longrightarrow> k \<noteq> 0 \<Longrightarrow>
   rc_lookup cap l k = Some (en_remaining (rc_entries l i))"
  by (simp add: rc_lookup_def)

text \<open>Overwriting the quantity of a present order, and adding an absent one.\<close>

lemma rc_key_same: "en_order_id e = en_order_id (es i) \<Longrightarrow> rc_key (es(i := e)) = rc_key es"
  by (auto simp: rc_key_def)

lemma rc_lookup_put:
  assumes inv: "rc_inv cap l" "rc_inv cap l'" and d: "d < cap" "rc_key (rc_entries l') d = Some k"
    "en_remaining (rc_entries l' d) = v" "rc_key (rc_entries l) d = None \<or> rc_key (rc_entries l) d = Some k"
    and same: "\<And>i. i \<noteq> d \<Longrightarrow> rc_entries l' i = rc_entries l i"
  shows "rc_lookup cap l' = (rc_lookup cap l)(k \<mapsto> v)"
proof (rule map_eqI)
  fix k' w
  note D = rc_invD(1,2) [OF inv(1)] and D' = rc_invD(1,2) [OF inv(2)]
  have "rc_key (rc_entries l') i = rc_key (rc_entries l) i \<and> en_remaining (rc_entries l' i) = en_remaining (rc_entries l i)"
    if "i \<noteq> d" for i using same [OF that] by (simp add: rc_key_def)
  then show "rc_lookup cap l' k' = Some w \<longleftrightarrow> ((rc_lookup cap l)(k \<mapsto> v)) k' = Some w"
    using table_assoc_put [of cap "rc_key (rc_entries l')" d k "\<lambda>i. en_remaining (rc_entries l' i)" v
        "rc_key (rc_entries l)" "\<lambda>i. en_remaining (rc_entries l i)" k' w] table_wf_inj [OF D'(2)] d
      rc_lookup_iff [OF D, of k' w] rc_lookup_iff [OF D', of k' w] by simp
qed

lemma rc_inv_quantity:
  assumes inv: "rc_inv cap l" and i: "i < cap" "rc_key (rc_entries l) i = Some k" and q: "0 < q"
  defines "l' \<equiv> l\<lparr>rc_entries := (rc_entries l)(i := (rc_entries l i)\<lparr>en_remaining := q\<rparr>)\<rparr>"
  shows "rc_inv cap l' \<and> rc_lookup cap l' = (rc_lookup cap l)(k \<mapsto> q)"
proof -
  note D = rc_invD [OF inv]
  have K: "rc_key (rc_entries l') = rc_key (rc_entries l)" by (simp add: l'_def rc_key_same)
  then have inv': "rc_inv cap l'" using D q by (auto simp: rc_inv_def l'_def)
  have "rc_lookup cap l' = (rc_lookup cap l)(k \<mapsto> q)"
    using i K by (intro rc_lookup_put [OF inv inv' i(1)]) (simp_all add: l'_def)
  with inv' show ?thesis ..
qed

lemma rc_inv_add:
  assumes inv: "rc_inv cap l" and k: "k \<noteq> 0" "\<And>i. i < cap \<Longrightarrow> rc_key (rc_entries l) i \<noteq> Some k" and q: "0 < q"
    and p: "p < cap" "rc_key (rc_entries l) (probe cap (rc_hash cap k) p) = None"
      "\<forall>q<p. rc_key (rc_entries l) (probe cap (rc_hash cap k) q) \<noteq> None"
  defines "l' \<equiv> l\<lparr>rc_entries := (rc_entries l)(probe cap (rc_hash cap k) p := \<lparr>en_order_id = k, en_remaining = q\<rparr>),
                 rc_open := rc_open l + 1\<rparr>"
  shows "rc_inv cap l' \<and> rc_lookup cap l' = (rc_lookup cap l)(k \<mapsto> q)"
proof -
  let ?d = "probe cap (rc_hash cap k) p"
  note D = rc_invD [OF inv]
  have d: "?d < cap" using probe_less [OF cap_pos [OF D(1)]] .
  have K: "rc_key (rc_entries l') = (rc_key (rc_entries l))(?d \<mapsto> k)"
    using k(1) by (simp add: l'_def rc_key_upd)
  have wf: "rc_wf cap (rc_entries l')" unfolding K by (rule table_wf_insert [OF D(2) k(2) p])
  have card: "card (table_used cap (rc_key (rc_entries l'))) = Suc (card (table_used cap (rc_key (rc_entries l))))"
    unfolding K using table_used_insert [of ?d cap "rc_key (rc_entries l)" k] d p(2)
    by (simp add: table_used_def)
  have "card (table_used cap (rc_key (rc_entries l'))) \<le> cap" by (rule table_used_le)
  moreover have "cap < 2 ^ 32"
  proof -
    obtain b where "b < 32" "cap = 2 ^ b" using D(1) by (auto simp: is_capacity_def)
    then show ?thesis using power_strict_increasing [of b 32 "2 :: nat"] by simp
  qed
  ultimately have "unat (rc_open l') = Suc (unat (rc_open l))"
    using D(4) unfolding card by (simp add: l'_def unat_word_ariths)
  then have inv': "rc_inv cap l'"
    using D wf card q by (auto simp: rc_inv_def l'_def)
  have "rc_lookup cap l' = (rc_lookup cap l)(k \<mapsto> q)"
    using p(2) K by (intro rc_lookup_put [OF inv inv' d]) (simp_all add: l'_def)
  with inv' show ?thesis ..
qed

lemma rc_content_mem: "i < cap \<Longrightarrow> en_order_id (es i) \<noteq> 0 \<Longrightarrow> (en_order_id (es i), en_remaining (es i)) \<in> rc_content cap es"
  unfolding rc_content_def by (rule image_eqI [of _ _ i]) (simp_all add: table_used_def rc_key_def)

text \<open>A table without one order, however its slots were rearranged.\<close>

lemma rc_inv_removed:
  assumes inv: "rc_inv cap l" and i: "i < cap" "rc_key (rc_entries l) i = Some k"
    and es: "rc_wf cap es" "card (table_used cap (rc_key es)) = card (table_used cap (rc_key ((rc_entries l)(i := empty_entry))))"
      "rc_content cap es = rc_content cap ((rc_entries l)(i := empty_entry))"
  defines "l' \<equiv> l\<lparr>rc_entries := es, rc_open := rc_open l - 1\<rparr>"
  shows "rc_inv cap l' \<and> rc_lookup cap l' = (rc_lookup cap l)(k := None)"
proof -
  let ?U = "table_used cap (rc_key (rc_entries l))" and ?es = "(rc_entries l)(i := empty_entry)"
  note D = rc_invD [OF inv]
  have U: "table_used cap (rc_key ?es) = ?U - {i}" "i \<in> ?U"
    using i by (auto simp: table_used_def rc_key_def empty_entry_def split: if_splits)
  then have "Suc (card (table_used cap (rc_key ?es))) = card ?U"
    using card_Suc_Diff1 [OF finite_table_used U(2)] by simp
  then have "unat (rc_open l - 1) = card (table_used cap (rc_key es))"
    using D(4) es(2) unat_dec [of "rc_open l"] by (cases "rc_open l = 0") auto
  moreover have pos: "0 < q" if "(k', q) \<in> rc_content cap es" for k' q
  proof -
    have "(k', q) \<in> rc_content cap ?es" using that es(3) by simp
    then show ?thesis using D(3) unfolding rc_content_def U(1) by (auto simp: table_used_def)
  qed
  moreover have "0 < en_remaining (es j)" if "j < cap" "en_order_id (es j) \<noteq> 0" for j
    using pos rc_content_mem [of j cap es] that by blast
  ultimately have inv': "rc_inv cap l'"
    using D(1) es(1) by (simp add: rc_inv_def l'_def)
  have "rc_lookup cap l' = (rc_lookup cap l)(k := None)"
  proof (rule map_eqI)
    fix k' v
    have "(k', v) \<in> rc_content cap ?es \<longleftrightarrow> (\<exists>j<cap. j \<noteq> i \<and> rc_key (rc_entries l) j = Some k' \<and> en_remaining (rc_entries l j) = v)"
      unfolding rc_content_def U(1) by (auto simp: table_used_def rc_key_def image_def split: if_splits)
    moreover have "j = i \<longleftrightarrow> k' = k" if "j < cap" "rc_key (rc_entries l) j = Some k'" for j
      using that i table_injD [OF table_wf_inj [OF D(2)] that(1) i(1), of k] by auto
    ultimately show "rc_lookup cap l' k' = Some v \<longleftrightarrow> ((rc_lookup cap l)(k := None)) k' = Some v"
      using rc_lookup_content [OF rc_invD(1,2) [OF inv'], of k' v] rc_lookup_iff [OF D(1,2), of k' v] es(3)
      by (auto simp: l'_def)
  qed
  with inv' show ?thesis ..
qed

section \<open>Specification\<close>

datatype ledger_op = Register u64 int | ReplaceQuantity u64 int | Report ExecutionReport | Cancel u64

primrec ledger_exec :: "nat \<Rightarrow> ReconciliationLedger \<Rightarrow> ledger_op \<Rightarrow> (bool \<times> ReconciliationLedger) option" where
  "ledger_exec cap l (Register k q) = Some (register_order cap l k q)"
| "ledger_exec cap l (ReplaceQuantity k q) = Some (rc_replace cap l k q)"
| "ledger_exec cap l (Report r) = Some (rc_apply cap l r)"
| "ledger_exec cap l (Cancel k) = rc_cancel cap l k"

text \<open>The contract: a map from open orders to remaining quantities, with at most \<open>cap\<close> entries.\<close>

primrec ledger_spec :: "nat \<Rightarrow> (u64 \<rightharpoonup> int) \<Rightarrow> ledger_op \<Rightarrow> bool \<times> (u64 \<rightharpoonup> int)" where
  "ledger_spec cap m (Register k q) =
     (if k = 0 \<or> q \<le> 0 \<or> m k \<noteq> None \<or> card (dom m) = cap then (False, m) else (True, m(k \<mapsto> q)))"
| "ledger_spec cap m (ReplaceQuantity k q) =
     (if k = 0 \<or> q \<le> 0 \<or> m k = None then (False, m) else (True, m(k \<mapsto> q)))"
| "ledger_spec cap m (Report r) =
     (if er_order_id r = 0 \<or> er_filled_quantity r \<le> 0 then (False, m)
      else case m (er_order_id r) of
        None \<Rightarrow> (False, m)
      | Some q \<Rightarrow>
          if er_filled_quantity r > q then (False, m)
          else if er_terminal r \<or> q = er_filled_quantity r then (True, m(er_order_id r := None))
          else (True, m(er_order_id r \<mapsto> q - er_filled_quantity r)))"
| "ledger_spec cap m (Cancel k) = (if m k = None then (False, m) else (True, m(k := None)))"

text \<open>
  \<open>apply\<close> empties the entry of an order it closes and leaves the entries behind it in place.  The open
  orders whose probe passes the emptied slot are hidden from then on.
\<close>

definition fill_closes :: "Entry \<Rightarrow> ExecutionReport \<Rightarrow> bool" where
  "fill_closes e r \<longleftrightarrow> er_order_id r \<noteq> 0 \<and> 0 < er_filled_quantity r \<and> er_filled_quantity r \<le> en_remaining e \<and>
     (er_terminal r \<or> en_remaining e = er_filled_quantity r)"

definition displaced_past :: "nat \<Rightarrow> (nat \<Rightarrow> Entry) \<Rightarrow> nat \<Rightarrow> u64 set" where
  "displaced_past cap es i = {k. \<exists>j<cap. j \<noteq> i \<and> rc_key es j = Some k \<and> passes cap (rc_hash cap k) i j}"

definition fill_hides :: "nat \<Rightarrow> ReconciliationLedger \<Rightarrow> ExecutionReport \<Rightarrow> u64 set" where
  "fill_hides cap l r =
     (case rc_find cap (rc_entries l) (er_order_id r) of
        None \<Rightarrow> {}
      | Some i \<Rightarrow> if fill_closes (rc_entries l i) r then displaced_past cap (rc_entries l) i else {})"

definition hidden :: "nat \<Rightarrow> ReconciliationLedger \<Rightarrow> ledger_op \<Rightarrow> u64 set" where
  "hidden cap l x = (case x of Report r \<Rightarrow> fill_hides cap l r | _ \<Rightarrow> {})"

lemma rc_dom_card:
  assumes "rc_inv cap l"
  shows "card (dom (rc_lookup cap l)) = card (table_used cap (rc_key (rc_entries l)))"
proof -
  let ?U = "table_used cap (rc_key (rc_entries l))"
  note D = rc_invD [OF assms]
  have "dom (rc_lookup cap l) = (\<lambda>i. en_order_id (rc_entries l i)) ` ?U"
    unfolding dom_def using rc_lookup_content [OF D(1,2)] by (auto simp: rc_content_def)
  moreover have "inj_on (\<lambda>i. en_order_id (rc_entries l i)) ?U"
  proof (rule inj_onI)
    fix i j assume "i \<in> ?U" "j \<in> ?U" "en_order_id (rc_entries l i) = en_order_id (rc_entries l j)"
    then show "i = j"
      using table_injD [OF table_wf_inj [OF D(2)], of i j "en_order_id (rc_entries l i)"]
      by (auto simp: table_used_def rc_key_def split: if_splits)
  qed
  ultimately show ?thesis by (simp add: card_image)
qed

lemma rc_find_mem:
  assumes "rc_inv cap l" "k \<noteq> 0" "rc_find cap (rc_entries l) k = Some i"
  shows "i < cap" "rc_key (rc_entries l) i = Some k" "rc_lookup cap l k = Some (en_remaining (rc_entries l i))"
    "en_order_id (rc_entries l i) = k" "0 < en_remaining (rc_entries l i)"
  using rc_find_iff [OF rc_invD(1,2) [OF assms(1)] assms(2), of i] rc_invD(3) [OF assms(1), of i] assms
  by (auto simp: rc_lookup_def dest: rc_key_nonzero)

lemma register_spec:
  assumes inv: "rc_inv cap l"
  shows "rc_inv cap (snd (register_order cap l k q)) \<and>
    ledger_spec cap (rc_lookup cap l) (Register k q) = (fst (register_order cap l k q), rc_lookup cap (snd (register_order cap l k q)))"
proof (cases "k = 0 \<or> q \<le> 0")
  case True
  then show ?thesis using inv by (auto simp: register_order_def)
next
  case False
  let ?es = "rc_entries l" and ?U = "table_used cap (rc_key (rc_entries l))"
  note D = rc_invD [OF inv]
  have k: "k \<noteq> 0" and q: "0 < q" using False by auto
  have look: "rc_lookup cap l k = None \<longleftrightarrow> (\<forall>i<cap. rc_key ?es i \<noteq> Some k)"
    using rc_find_None [OF D(1,2) k] k by (simp add: rc_lookup_def)
  note foe = find_or_empty_eq [OF D(1) k, of ?es]
  show ?thesis
  proof (cases "rc_lookup cap l k")
    case (Some v)
    then obtain i where i: "i < cap" "rc_key ?es i = Some k" using look by (metis not_None_eq)
    then have "find_or_empty cap ?es k = Some i"
      using search_hit [OF D(2) i table_used_le] foe by auto
    then show ?thesis using i k q inv Some by (auto simp: register_order_def dest: rc_key_nonzero)
  next
    case None
    then have absent: "\<And>i. i < cap \<Longrightarrow> rc_key ?es i \<noteq> Some k" using look by blast
    show ?thesis
    proof (cases "find (stop cap (rc_hash cap) (rc_key ?es) k) [0..<cap]")
      case None
      have "\<not> card ?U < cap"
      proof
        assume "card ?U < cap"
        then show False using search_room [of cap "rc_key ?es" cap "rc_hash cap" k] None by simp
      qed
      then have "card ?U = cap" using table_used_le [of cap "rc_key ?es"] by simp
      then show ?thesis
        using None foe k q inv rc_dom_card [OF inv] by (auto simp: register_order_def)
    next
      case (Some p)
      have p: "p < cap \<and> rc_key ?es (probe cap (rc_hash cap k) p) = None \<and>
          (\<forall>q<p. rc_key ?es (probe cap (rc_hash cap k) q) \<noteq> None)"
        by (rule search_absent [OF cap_pos [OF D(1)] absent Some])
      have "card ?U < cap" using p probe_less [OF cap_pos [OF D(1)]] by (blast intro: table_used_less)
      then have "card (dom (rc_lookup cap l)) \<noteq> cap" using rc_dom_card [OF inv] by simp
      then show ?thesis
        using rc_inv_add [OF inv k absent q] p foe Some k q \<open>rc_lookup cap l k = None\<close>
        by (simp add: register_order_def)
    qed
  qed
qed

lemma rc_replace_spec:
  assumes inv: "rc_inv cap l"
  shows "rc_inv cap (snd (rc_replace cap l k q)) \<and>
    ledger_spec cap (rc_lookup cap l) (ReplaceQuantity k q) = (fst (rc_replace cap l k q), rc_lookup cap (snd (rc_replace cap l k q)))"
proof (cases "k = 0 \<or> q \<le> 0")
  case True
  then show ?thesis using inv by (auto simp: rc_replace_def)
next
  case False
  then have k: "k \<noteq> 0" and q: "0 < q" by auto
  show ?thesis
  proof (cases "rc_find cap (rc_entries l) k")
    case None
    then show ?thesis using k q inv by (auto simp: rc_replace_def rc_lookup_def)
  next
    case (Some i)
    note at = rc_find_mem [OF inv k Some]
    show ?thesis using rc_inv_quantity [OF inv at(1,2) q] k q Some at(3) by (simp add: rc_replace_def)
  qed
qed

lemma rc_cancel_spec:
  assumes inv: "rc_inv cap l" and k: "k \<noteq> 0"
  shows "\<exists>ok l'. rc_cancel cap l k = Some (ok, l') \<and> rc_inv cap l' \<and>
    ledger_spec cap (rc_lookup cap l) (Cancel k) = (ok, rc_lookup cap l')"
proof (cases "rc_find cap (rc_entries l) k")
  case None
  then show ?thesis using k inv by (auto simp: rc_cancel_def rc_lookup_def)
next
  case (Some i)
  note D = rc_invD [OF inv]
  note at = rc_find_mem [OF inv k Some]
  let ?es = "(rc_entries l)(i := empty_entry)"
  have K: "rc_key ?es = (rc_key (rc_entries l))(i := None)" by (simp add: rc_key_upd empty_entry_def)
  have rp: "repairing cap (rc_hash cap) (rc_key ?es) (probe cap i 1)"
    unfolding K by (rule repairing_start [OF D(2) at(1)])
  have "card (table_used cap (rc_key ?es)) < cap"
    by (rule table_used_less [OF at(1)]) (simp add: empty_entry_def)
  then obtain es where "reinsert_cluster cap ?es i = Some es" and es: "rc_wf cap es"
      "card (table_used cap (rc_key es)) = card (table_used cap (rc_key ?es))"
      "rc_content cap es = rc_content cap ?es"
    using reinsert_cluster_spec [OF D(1) at(1) rp] by blast
  then show ?thesis using rc_inv_removed [OF inv at(1,2) es] Some at(3) by (auto simp: rc_cancel_def)
qed

lemma rc_removed_lookup:
  assumes inv: "rc_inv cap l" and i: "i < cap" "rc_key (rc_entries l) i = Some k0"
    and l': "rc_entries l' = (rc_entries l)(i := empty_entry)"
  shows "rc_lookup cap l' k = (if k = k0 \<or> k \<in> displaced_past cap (rc_entries l) i then None else rc_lookup cap l k)"
proof (cases "k = 0")
  case True
  then show ?thesis by (simp add: rc_lookup_def)
next
  case k: False
  let ?K = "rc_key (rc_entries l)" and ?s = "stop cap (rc_hash cap) ((rc_key (rc_entries l))(i := None)) k"
  note D = rc_invD [OF inv]
  have K: "rc_key (rc_entries l') = ?K(i := None)" by (simp add: l' rc_key_upd empty_entry_def)
  have find: "rc_find cap (rc_entries l') k = (case find ?s [0..<cap] of None \<Rightarrow> None
      | Some p \<Rightarrow> if (?K(i := None)) (probe cap (rc_hash cap k) p) = Some k then Some (probe cap (rc_hash cap k) p) else None)"
    unfolding rc_find_eq [OF D(1) k] K ..
  show ?thesis
  proof (cases "\<exists>j<cap. j \<noteq> i \<and> ?K j = Some k")
    case True
    then obtain j where j: "j < cap" "j \<noteq> i" "?K j = Some k" by blast
    have at: "j' = j" if "j' < cap" "?K j' = Some k" for j' using table_injD [OF table_wf_inj [OF D(2)] that(1) j(1) that(2) j(3)] .
    have "k \<noteq> k0" using at [OF i(1)] i(2) j(2) by auto
    have f: "rc_find cap (rc_entries l) k = Some j" using rc_find_iff [OF D(1,2) k] j by blast
    note arg = D(2) i(1) j(1,3,2) rc_hash_less [OF D(1), of k]
    show ?thesis
    proof (cases "passes cap (rc_hash cap k) i j")
      case True
      then have "k \<in> displaced_past cap (rc_entries l) i" using j by (auto simp: displaced_past_def)
      moreover have "rc_find cap (rc_entries l') k = None" using removed_hidden [OF arg True] find by auto
      ultimately show ?thesis by (simp add: rc_lookup_def)
    next
      case False
      obtain p where p: "p < cap" "j = probe cap (rc_hash cap k) p" "\<forall>q<p. (?K(i := None)) (probe cap (rc_hash cap k) q) \<noteq> None"
        using removed_reach [OF arg False] unfolding reach_def by blast
      then have "find ?s [0..<cap] = Some p"
        using j by (intro search_reach [OF table_inj_removed [OF table_wf_inj [OF D(2)]] j(1)]) simp_all
      then have "rc_find cap (rc_entries l') k = Some j" using find p(2) j(2,3) by simp
      moreover have "k \<notin> displaced_past cap (rc_entries l) i" using False at by (auto simp: displaced_past_def)
      ultimately show ?thesis using f j(2) \<open>k \<noteq> k0\<close> by (simp add: rc_lookup_def l')
    qed
  next
    case False
    then have "rc_find cap (rc_entries l') k = None"
      using find probe_less [OF cap_pos [OF D(1)], of "rc_hash cap k"] by (auto split: option.splits if_splits)
    moreover have "rc_find cap (rc_entries l) k = None" if "k \<noteq> k0"
      using rc_find_None [OF D(1,2) k] False that i(2) by auto
    ultimately show ?thesis by (cases "k = k0") (simp_all add: rc_lookup_def)
  qed
qed

lemma rc_removed_wf:
  assumes inv: "rc_inv cap l" and i: "i < cap" "displaced_past cap (rc_entries l) i = {}"
  shows "rc_wf cap ((rc_entries l)(i := empty_entry))"
proof -
  note D = rc_invD [OF inv]
  let ?K = "rc_key (rc_entries l)"
  have K: "rc_key ((rc_entries l)(i := empty_entry)) = ?K(i := None)" by (simp add: rc_key_upd empty_entry_def)
  have "reach cap (rc_hash cap) (?K(i := None)) k j" if "j < cap" "(?K(i := None)) j = Some k" for j k
    using that i(2) removed_reach [OF D(2) i(1) that(1), of k] rc_hash_less [OF D(1), of k]
    by (auto simp: displaced_past_def split: if_splits)
  then show ?thesis unfolding K table_wf_def using table_inj_removed [OF table_wf_inj [OF D(2)]] by blast
qed

lemma rc_apply_spec:
  assumes inv: "rc_inv cap l"
  shows "fst (ledger_spec cap (rc_lookup cap l) (Report r)) = fst (rc_apply cap l r) \<and>
    rc_lookup cap (snd (rc_apply cap l r)) = snd (ledger_spec cap (rc_lookup cap l) (Report r)) |` (- fill_hides cap l r) \<and>
    (fill_hides cap l r = {} \<longrightarrow> rc_inv cap (snd (rc_apply cap l r)))"
proof (cases "er_order_id r = 0 \<or> er_filled_quantity r \<le> 0")
  case True
  then show ?thesis using inv by (auto simp: rc_apply_def fill_hides_def fill_closes_def split: option.split)
next
  case False
  let ?k = "er_order_id r"
  note D = rc_invD [OF inv]
  have k: "?k \<noteq> 0" using False by simp
  have miss: "rc_inv cap (l\<lparr>rc_mismatches := n\<rparr>)" "rc_lookup cap (l\<lparr>rc_mismatches := n\<rparr>) = rc_lookup cap l" for n
    using inv by (simp_all add: rc_inv_def rc_lookup_def fun_eq_iff)
  show ?thesis
  proof (cases "rc_find cap (rc_entries l) ?k")
    case None
    then show ?thesis using False k miss by (auto simp: rc_apply_def rc_lookup_def fill_hides_def)
  next
    case (Some i)
    note at = rc_find_mem [OF inv k Some]
    let ?q = "en_remaining (rc_entries l i)" and ?f = "er_filled_quantity r"
    consider "?f > ?q" | "?f \<le> ?q" "er_terminal r \<or> ?q = ?f" | "?f < ?q" "\<not> er_terminal r" by linarith
    then show ?thesis
    proof cases
      case 1
      then show ?thesis using False Some at(3) miss by (simp add: rc_apply_def fill_hides_def fill_closes_def)
    next
      case 2
      let ?l = "l\<lparr>rc_entries := (rc_entries l)(i := empty_entry), rc_open := rc_open l - 1\<rparr>"
      have a: "rc_apply cap l r = (True, ?l)" using 2 False Some by (auto simp: rc_apply_def)
      have h: "fill_hides cap l r = displaced_past cap (rc_entries l) i"
        using 2 False Some by (simp add: fill_hides_def fill_closes_def)
      have "rc_lookup cap ?l = (rc_lookup cap l)(?k := None) |` (- fill_hides cap l r)"
        using rc_removed_lookup [OF inv at(1,2), of ?l] by (simp add: h fun_eq_iff restrict_map_def)
      moreover have "rc_inv cap ?l" if "fill_hides cap l r = {}"
        using rc_inv_removed [OF inv at(1,2) rc_removed_wf [OF inv at(1)]] that h by simp
      ultimately show ?thesis using a 2 False at(3) by auto
    next
      case 3
      then have "0 < ?q - ?f" by simp
      then show ?thesis
        using rc_inv_quantity [OF inv at(1,2)] 3 False Some at(3) by (simp add: rc_apply_def fill_hides_def fill_closes_def)
    qed
  qed
qed

lemma fill_hides_open:
  assumes "rc_inv cap l"
  shows "fill_hides cap l r \<subseteq> dom (rc_lookup cap l) - {er_order_id r}"
proof
  fix k
  assume k: "k \<in> fill_hides cap l r"
  note D = rc_invD [OF assms]
  obtain i j where i: "rc_find cap (rc_entries l) (er_order_id r) = Some i" "er_order_id r \<noteq> 0"
    and j: "j < cap" "j \<noteq> i" "rc_key (rc_entries l) j = Some k"
    using k by (auto simp: fill_hides_def displaced_past_def fill_closes_def split: option.splits if_splits)
  have "k \<in> dom (rc_lookup cap l)" using rc_lookup_iff [OF D(1,2), of k] j by auto
  moreover have "k \<noteq> er_order_id r"
    using table_injD [OF table_wf_inj [OF D(2)] j(1) rc_find_mem(1) [OF assms i(2,1)] j(3)] rc_find_mem(2) [OF assms i(2,1)] j(2) by auto
  ultimately show "k \<in> dom (rc_lookup cap l) - {er_order_id r}" by simp
qed

lemma new_ledger_inv: "is_capacity cap \<Longrightarrow> rc_inv cap new_ledger \<and> rc_lookup cap new_ledger = (\<lambda>_. None)"
proof -
  assume cap: "is_capacity cap"
  have K: "rc_key (rc_entries new_ledger) = (\<lambda>_. None)"
    by (simp add: rc_key_def new_ledger_def empty_entry_def fun_eq_iff)
  then have wf: "rc_wf cap (rc_entries new_ledger)" by (simp add: table_wf_def table_inj_def)
  moreover have "rc_lookup cap new_ledger = (\<lambda>_. None)"
    by (rule map_eqI) (simp add: rc_lookup_iff [OF cap wf] K)
  ultimately show ?thesis
    using cap K by (simp add: rc_inv_def table_used_def new_ledger_def empty_entry_def)
qed

section \<open>Properties\<close>

text \<open>
  C9: On a well-formed table of any capacity every ledger operation except the cancellation of order
  id zero returns, gives the verdict of the contract, and leaves the contract's map from open
  orders to remaining quantities, with one exception: a fill that closes an order also hides exactly
  the open orders whose probe passes the slot it empties.  When it hides none, as every other
  operation does, the table is well formed again; in particular the repair of the probe chain after a
  cancellation ends and loses no order.
\<close>

theorem ledger_refines:
  assumes "rc_inv cap l" "x \<noteq> Cancel 0"
  shows "\<exists>ok l'. ledger_exec cap l x = Some (ok, l') \<and> fst (ledger_spec cap (rc_lookup cap l) x) = ok \<and>
    rc_lookup cap l' = snd (ledger_spec cap (rc_lookup cap l) x) |` (- hidden cap l x) \<and>
    (hidden cap l x = {} \<longrightarrow> rc_inv cap l')"
proof (cases x)
  case (Register k q)
  then show ?thesis using register_spec [OF assms(1), of k q] by (cases "register_order cap l k q") (simp add: hidden_def)
next
  case (ReplaceQuantity k q)
  then show ?thesis using rc_replace_spec [OF assms(1), of k q] by (cases "rc_replace cap l k q") (simp add: hidden_def)
next
  case (Report r)
  then show ?thesis using rc_apply_spec [OF assms(1), of r] by (cases "rc_apply cap l r") (simp add: hidden_def)
next
  case (Cancel k)
  then show ?thesis using rc_cancel_spec [OF assms(1), of k] assms(2) by (auto simp: hidden_def)
qed

lemma is_capacity_default: "is_capacity 65536"
  unfolding is_capacity_def by (rule exI [of _ 16]) simp

theorem ledger_refines_witness:
  "\<exists>l'. ledger_exec 65536 new_ledger (Register 7 100) = Some (True, l') \<and> rc_lookup 65536 l' = [7 \<mapsto> 100]"
  using ledger_refines [of 65536 new_ledger "Register 7 100"] new_ledger_inv [OF is_capacity_default]
  by (auto simp: hidden_def)

text \<open>
  C37: A fill that closes an order does not repair the probe chain: an open order that had been
  displaced by the closed one is no longer found, its fills are refused and counted as
  mismatches, although the open count still includes it.
\<close>

theorem ledger_fill_hides_order:
  assumes ab: "a \<noteq> 0" "b \<noteq> 0" "a \<noteq> b" and cap: "is_capacity cap" "2 \<le> cap"
    and h: "rc_hash cap a = rc_hash cap b" and q: "0 < q" "0 < r" "0 < f"
  defines "l \<equiv> snd (register_order cap (snd (register_order cap new_ledger a q)) b r)"
    and "l' \<equiv> snd (rc_apply cap (snd (register_order cap (snd (register_order cap new_ledger a q)) b r))
                       \<lparr>er_order_id = a, er_filled_quantity = q, er_terminal = True\<rparr>)"
  shows "rc_contains cap l b \<and> rc_open l' = 1 \<and> \<not> rc_contains cap l' b \<and>
    rc_apply cap l' \<lparr>er_order_id = b, er_filled_quantity = f, er_terminal = t\<rparr> =
      (False, l'\<lparr>rc_mismatches := rc_mismatches l' + 1\<rparr>)"
proof -
  obtain n where n: "cap = Suc (Suc n)" using cap(2) by (metis Suc_le_D numeral_2_eq_2 Suc_le_mono)
  let ?h = "rc_hash cap b"
  let ?e = "\<lambda>k q. \<lparr>en_order_id = k, en_remaining = q\<rparr>"
  have hl: "?h < cap" by (rule rc_hash_less [OF cap(1)])
  have nx: "(?h + 1) AND (cap - 1) \<noteq> ?h"
    using hl cap(2) by (cases "?h + 1 = cap") (auto simp: cap_mask [OF cap(1)] simp del: One_nat_def)
  let ?g = "(?h + 1) AND (cap - 1)"
  note unf = find_or_empty_def rc_find_def h
  have l1: "register_order cap new_ledger a q = (True, new_ledger\<lparr>rc_entries := (\<lambda>_. empty_entry)(?h := ?e a q), rc_open := 1\<rparr>)"
    using ab q by (simp add: register_order_def unf new_ledger_def empty_entry_def) (simp add: n)
  have l2: "l = new_ledger\<lparr>rc_entries := (\<lambda>_. empty_entry)(?h := ?e a q, ?g := ?e b r), rc_open := 2\<rparr>"
    unfolding l_def l1 using ab q nx
    by (simp add: register_order_def unf new_ledger_def n empty_entry_def)
  have fb: "rc_find cap (rc_entries l) b = Some ?g" and fa: "rc_find cap (rc_entries l) a = Some ?h"
    unfolding l2 rc_find_def h using ab nx by (simp_all add: n)
  have l3: "l' = new_ledger\<lparr>rc_entries := (rc_entries l)(?h := empty_entry), rc_open := 1\<rparr>"
    unfolding l'_def l_def [symmetric] using ab q fa nx by (simp add: rc_apply_def) (simp add: l2)
  have "rc_find cap (rc_entries l') b = None"
    unfolding l3 rc_find_def using ab by (simp add: n empty_entry_def)
  then show ?thesis using fb ab q l3 by (simp add: rc_contains_def rc_apply_def)
qed

theorem ledger_fill_hides_order_witness:
  "\<exists>l'. l' = snd (rc_apply 65536 (snd (register_order 65536 (snd (register_order 65536 new_ledger 196 10)) 312 20))
                 \<lparr>er_order_id = 196, er_filled_quantity = 10, er_terminal = True\<rparr>) \<and>
    rc_open l' = 1 \<and> \<not> rc_contains 65536 l' 312"
proof -
  have "rc_hash 65536 196 = rc_hash 65536 312" by (simp add: rc_hash_def Let_def)
  then show ?thesis
    using ledger_fill_hides_order [of 196 312 65536 10 20 1 False] is_capacity_default by auto
qed

text \<open>
  The probe for id zero stops at the first empty slot, which the code takes for the entry of an order.
\<close>

lemma rc_find_zero:
  "slot < cap \<Longrightarrow> is_capacity cap \<Longrightarrow> p < n \<Longrightarrow> en_order_id (es (probe cap slot p)) = 0 \<Longrightarrow>
   \<exists>i<cap. rc_find_loop cap n es 0 slot = Some i \<and> en_order_id (es i) = 0"
proof (induction n arbitrary: slot p)
  case (Suc n)
  have nx: "(slot + 1) AND (cap - 1) = probe cap slot 1" using cap_next [OF Suc.prems(2), of slot 0] Suc.prems(1) by (simp add: probe_0)
  show ?case
  proof (cases "en_order_id (es slot) = 0")
    case False
    then obtain p' where "p = Suc p'" using Suc.prems by (cases p) (auto simp: probe_0)
    then show ?thesis
      using Suc.IH [of "probe cap slot 1" p'] Suc.prems False nx probe_add [of cap slot 1 p'] probe_less [OF cap_pos [OF Suc.prems(2)], of slot 1]
      by simp
  qed (use Suc.prems in auto)
qed simp

text \<open>
  C40: Cancelling order id zero is accepted by every well-formed ledger that is not full.  It closes no
  order, the open orders and their quantities stay as they are, but the open-order count goes down by
  one, so it no longer counts the open orders, and wraps around on an empty ledger.
\<close>

theorem ledger_cancel_zero:
  assumes inv: "rc_inv cap l" and room: "card (dom (rc_lookup cap l)) < cap"
  shows "\<exists>l'. rc_cancel cap l 0 = Some (True, l') \<and> rc_lookup cap l' = rc_lookup cap l \<and> rc_open l' = rc_open l - 1 \<and>
    unat (rc_open l) = card (dom (rc_lookup cap l)) \<and> unat (rc_open l') \<noteq> card (dom (rc_lookup cap l'))"
proof -
  note D = rc_invD [OF inv]
  let ?K = "rc_key (rc_entries l)"
  have n: "unat (rc_open l) = card (dom (rc_lookup cap l))" using D(4) rc_dom_card [OF inv] by simp
  obtain p where p: "p \<le> card (table_used cap ?K)" "?K (probe cap (rc_hash cap 0) p) = None"
    using empty_on_path [of cap ?K] room rc_dom_card [OF inv] by auto
  moreover have "p < cap" using p(1) room rc_dom_card [OF inv] by simp
  ultimately obtain i where i: "i < cap" "rc_find cap (rc_entries l) 0 = Some i" "en_order_id (rc_entries l i) = 0"
    using rc_find_zero [OF rc_hash_less [OF D(1)] D(1), of p cap] unfolding rc_find_def by auto
  let ?es = "(rc_entries l)(i := empty_entry)"
  have K: "rc_key ?es = ?K(i := None)" "?K(i := None) = ?K" using i(3) by (simp_all add: rc_key_upd empty_entry_def fun_upd_idem)
  have c: "rc_content cap ?es = rc_content cap (rc_entries l)"
    unfolding rc_content_def K using i(3) by (auto simp: table_used_def image_def)
  have "repairing cap (rc_hash cap) (rc_key ?es) (probe cap i 1)" unfolding K(1) by (rule repairing_start [OF D(2) i(1)])
  then obtain es where es: "reinsert_cluster cap ?es i = Some es" "rc_wf cap es" "rc_content cap es = rc_content cap ?es"
    using reinsert_cluster_spec [OF D(1) i(1), of ?es] table_used_less [OF i(1), of "rc_key ?es"]
    by (auto simp: empty_entry_def)
  let ?l = "l\<lparr>rc_entries := es, rc_open := rc_open l - 1\<rparr>"
  have "rc_lookup cap ?l = rc_lookup cap l"
    by (rule map_eqI) (simp add: rc_lookup_content [OF D(1)] D(2) es(2,3) c)
  moreover have "unat (rc_open l - 1) \<noteq> unat (rc_open l)"
    using unsigned_word_eqI [of "rc_open l - 1" "rc_open l"] by (auto simp: diff_eq_eq)
  ultimately show ?thesis using es(1) i(2) n by (intro exI [of _ ?l]) (simp add: rc_cancel_def)
qed

theorem ledger_cancel_zero_witness:
  "\<exists>l'. rc_cancel 65536 new_ledger 0 = Some (True, l') \<and> rc_open l' = - 1"
  using ledger_cancel_zero [of 65536 new_ledger] new_ledger_inv [OF is_capacity_default] by (auto simp: new_ledger_def)

end
