(* ===== verification/Bytes.thy ===== *)
theory Bytes
  imports Prelude
begin

text \<open>
  Byte sequences: little- and big-endian integers as the sources lay them out with \<open>memcpy\<close>
  and byte swaps, and the \<open>write_all\<close> loop that the audit log and the recovery log share.
\<close>

section \<open>Integers as bytes\<close>

text \<open>The value of a byte sequence, least significant byte first, and the sequence of a value.\<close>

primrec of_le :: "u8 list \<Rightarrow> nat" where
  "of_le [] = 0"
| "of_le (b # bs) = unat b + 256 * of_le bs"

primrec to_le :: "nat \<Rightarrow> nat \<Rightarrow> u8 list" where
  "to_le 0 x = []"
| "to_le (Suc n) x = of_nat (x mod 256) # to_le n (x div 256)"

definition of_be :: "u8 list \<Rightarrow> nat" where
  "of_be bs = of_le (rev bs)"

definition to_be :: "nat \<Rightarrow> nat \<Rightarrow> u8 list" where
  "to_be n x = rev (to_le n x)"

lemma length_to_le [simp]: "length (to_le n x) = n"
  by (induction n arbitrary: x) simp_all

lemma length_to_be [simp]: "length (to_be n x) = n"
  by (simp add: to_be_def)

lemma unat_byte: "unat (of_nat (x mod 256) :: u8) = x mod 256"
  by (simp add: unat_of_nat)

lemma of_le_less: "of_le bs < 256 ^ length bs"
proof (induction bs)
  case (Cons b bs)
  have "unat b < 256" using unsigned_less [of b, where ?'a = nat] by simp
  moreover have "of_le bs + 1 \<le> 256 ^ length bs" using Cons by simp
  ultimately show ?case by simp
qed simp

lemma of_le_to_le: "of_le (to_le n x) = x mod 256 ^ n"
proof (induction n arbitrary: x)
  case (Suc n)
  have "x mod 256 ^ Suc n = x mod 256 + 256 * (x div 256 mod 256 ^ n)"
    by (simp add: mod_mult2_eq)
  then show ?case using Suc by (simp add: unat_byte)
qed simp

lemma to_le_of_le: "to_le (length bs) (of_le bs) = bs"
proof (induction bs)
  case (Cons b bs)
  have b: "unat b < 256" using unsigned_less [of b, where ?'a = nat] by simp
  then have "(unat b + 256 * of_le bs) mod 256 = unat b" "(unat b + 256 * of_le bs) div 256 = of_le bs"
    by simp_all
  then show ?case using Cons by simp
qed simp

lemma of_be_to_be: "of_be (to_be n x) = x mod 256 ^ n"
  by (simp add: of_be_def to_be_def of_le_to_le)

lemma to_be_of_be: "to_be (length bs) (of_be bs) = bs"
  using to_le_of_le [of "rev bs"] by (simp add: of_be_def to_be_def)

lemma of_be_less: "of_be bs < 256 ^ length bs"
  using of_le_less [of "rev bs"] by (simp add: of_be_def)

lemma of_be_Nil [simp]: "of_be [] = 0"
  by (simp add: of_be_def)

lemma of_le_append: "of_le (xs @ ys) = of_le xs + 256 ^ length xs * of_le ys"
  by (induction xs) (simp_all add: distrib_left)

lemma of_be_snoc: "of_be (bs @ [b]) = of_be bs * 256 + unat b"
  by (simp add: of_be_def)

lemma of_be_append: "of_be (xs @ ys) = of_be xs * 256 ^ length ys + of_be ys"
  by (simp add: of_be_def of_le_append)

lemma of_le_inj: "length xs = length ys \<Longrightarrow> of_le xs = of_le ys \<Longrightarrow> xs = ys"
  by (metis to_le_of_le)

text \<open>Fields of a record at an offset.\<close>

definition field :: "nat \<Rightarrow> nat \<Rightarrow> u8 list \<Rightarrow> u8 list" where
  "field off n bs = take n (drop off bs)"

lemma length_field: "off + n \<le> length bs \<Longrightarrow> length (field off n bs) = n"
  by (simp add: field_def)

lemma field_append1: "length xs = off \<Longrightarrow> length ys = n \<Longrightarrow> field off n (xs @ ys @ zs) = ys"
  by (simp add: field_def)

lemma take_field: "take n bs @ field n k bs = take (n + k) bs"
  by (simp add: field_def take_add)

lemma take_field_append: "take n bs @ field n k bs @ ys = take (n + k) bs @ ys"
  by (simp add: field_def take_add)

lemma field_1: "n < length bs \<Longrightarrow> field n 1 bs = [bs ! n]"
  by (simp add: field_def take_Suc_conv_app_nth hd_drop_conv_nth take_Suc)

lemma field_take: "off + n \<le> len \<Longrightarrow> field off n (take len bs) = field off n bs"
  by (simp add: field_def drop_take min_absorb1)

text \<open>Writing bytes into a buffer at an offset.\<close>

definition put_bytes :: "nat \<Rightarrow> u8 list \<Rightarrow> u8 list \<Rightarrow> u8 list" where
  "put_bytes off bs dst = take off dst @ bs @ drop (off + length bs) dst"

lemma length_put_bytes [simp]: "off + length bs \<le> length dst \<Longrightarrow> length (put_bytes off bs dst) = length dst"
  by (simp add: put_bytes_def)

lemma field_put_same: "off + length bs \<le> length dst \<Longrightarrow> n = length bs \<Longrightarrow> field off n (put_bytes off bs dst) = bs"
  by (simp add: put_bytes_def field_def)

lemma field_put_before: "off + n \<le> at \<Longrightarrow> at \<le> length dst \<Longrightarrow> field off n (put_bytes at bs dst) = field off n dst"
  by (simp add: put_bytes_def field_def drop_take)

lemma field_put_after:
  "at + length bs \<le> off \<Longrightarrow> at \<le> length dst \<Longrightarrow> field off n (put_bytes at bs dst) = field off n dst"
  by (simp add: put_bytes_def field_def)

lemma nth_put_same: "off < length dst \<Longrightarrow> put_bytes off [b] dst ! off = b"
  by (simp add: put_bytes_def nth_append)

lemma nth_put_other:
  "i < off \<or> off + length bs \<le> i \<Longrightarrow> i < length dst \<Longrightarrow> off + length bs \<le> length dst \<Longrightarrow>
   put_bytes off bs dst ! i = dst ! i"
  by (auto simp: put_bytes_def nth_append)

text \<open>A byte cut out of a word by a shift is a digit to the base 256.\<close>

lemma shifted_byte: "(ucast (drop_bit (8 * k) v) :: u8) = of_nat (unat v div 256 ^ k mod 256)"
proof -
  have "unat (drop_bit (8 * k) v) = drop_bit (8 * k) (unat v)" by (rule unat_drop_bit_eq)
  also have "\<dots> = unat v div 256 ^ k" by (simp only: drop_bit_eq_div power_mult) simp
  finally have "unat v div 256 ^ k = unat (drop_bit (8 * k) v)" ..
  then show ?thesis by (simp add: word_unat_eq_iff unsigned_ucast_eq take_bit_eq_mod unat_of_nat)
qed

lemma to_le_digits: "to_le n x = map (\<lambda>k. of_nat (x div 256 ^ k mod 256)) [0..<n]"
proof (induction n arbitrary: x)
  case (Suc n)
  then show ?case
    by (simp add: upt_conv_Cons map_Suc_upt [symmetric] div_mult2_eq del: upt_Suc)
qed simp

lemma to_be_word: "to_be n (unat v) = map (\<lambda>k. ucast (drop_bit (8 * k) v)) (rev [0..<n])"
  by (simp add: to_be_def to_le_digits shifted_byte rev_map)

lemma to_be_word_bytes:
  "to_be 2 (unat v) = [ucast (drop_bit 8 v), ucast v]"
  "to_be 4 (unat w) = [ucast (drop_bit 24 w), ucast (drop_bit 16 w), ucast (drop_bit 8 w), ucast w]"
  "to_be 6 (unat x) = [ucast (drop_bit 40 x), ucast (drop_bit 32 x), ucast (drop_bit 24 x), ucast (drop_bit 16 x),
     ucast (drop_bit 8 x), ucast x]"
  "to_be 8 (unat x) = [ucast (drop_bit 56 x), ucast (drop_bit 48 x), ucast (drop_bit 40 x), ucast (drop_bit 32 x),
     ucast (drop_bit 24 x), ucast (drop_bit 16 x), ucast (drop_bit 8 x), ucast x]"
  by (simp_all add: to_be_word upt_rec)

lemma word_ranges: "unat (v :: u16) < 65536" "unat (w :: u32) < 4294967296" "unat (x :: u64) < 18446744073709551616"
  using unsigned_less [of v, where ?'a = nat] unsigned_less [of w, where ?'a = nat] unsigned_less [of x, where ?'a = nat]
  by simp_all

text \<open>Reading by shifts: every byte moves the value up and fills the low bits.\<close>

definition shift_in :: "'a::len word \<Rightarrow> u8 \<Rightarrow> 'a word" where
  "shift_in v b = push_bit 8 v OR ucast b"

lemma shift_in_eq: "shift_in v b = v * 256 + ucast b"
proof -
  have "push_bit 8 v AND ucast b = 0"
    by (rule bit_word_eqI) (auto simp: bit_simps dest: bit_imp_le_length)
  then have "push_bit 8 v OR ucast b = push_bit 8 v + ucast b" by (simp add: disjunctive_add_eq_or)
  then show ?thesis by (simp add: shift_in_def push_bit_eq_mult)
qed

lemma shift_in_be: "foldl shift_in 0 bs = of_nat (of_be bs)"
proof (induction bs rule: rev_induct)
  case (snoc b bs)
  then show ?case by (simp add: shift_in_eq of_be_snoc)
qed simp

text \<open>Two's-complement bytes of an \<open>int64_t\<close>.\<close>

definition le_i64 :: "int \<Rightarrow> u8 list" where
  "le_i64 x = to_le 8 (nat (x mod 2 ^ 64))"

definition of_le_i64 :: "u8 list \<Rightarrow> int" where
  "of_le_i64 bs = s64 (int (of_le bs))"

lemma length_le_i64 [simp]: "length (le_i64 x) = 8"
  by (simp add: le_i64_def)

lemma of_le_i64_le: "i64 x \<Longrightarrow> of_le_i64 (le_i64 x) = x"
proof -
  assume x: "i64 x"
  have "nat (x mod 2 ^ 64) < 256 ^ 8" by (simp add: nat_less_iff)
  then have "int (of_le (le_i64 x)) = x mod 2 ^ 64" by (simp add: le_i64_def of_le_to_le)
  moreover have "s64 (x mod 2 ^ 64) = s64 x" by (simp add: s64_def mod_simps)
  ultimately show ?thesis using s64_id [OF x] by (simp add: of_le_i64_def)
qed

lemma le_i64_of_le: "length bs = 8 \<Longrightarrow> le_i64 (of_le_i64 bs) = bs"
proof -
  assume l: "length bs = 8"
  have lt: "of_le bs < 2 ^ 64" using of_le_less [of bs] l by simp
  have "s64 (int (of_le bs)) mod 2 ^ 64 = int (of_le bs) mod 2 ^ 64"
    by (simp add: s64_def mod_simps)
  also have "\<dots> = int (of_le bs)" using lt by simp
  finally show ?thesis using to_le_of_le [of bs] l by (simp add: le_i64_def of_le_i64_def)
qed

definition le_word :: "'a::len word \<Rightarrow> u8 list" where
  "le_word w = to_le (LENGTH('a) div 8) (unat w)"

definition of_le_word :: "u8 list \<Rightarrow> 'a::len word" where
  "of_le_word bs = of_nat (of_le bs)"

lemma length_le_word: "length (le_word (w :: 'a::len word)) = LENGTH('a) div 8"
  by (simp add: le_word_def)

lemma of_le_word_le: "8 dvd LENGTH('a) \<Longrightarrow> of_le_word (le_word w) = (w :: 'a::len word)"
proof -
  assume "8 dvd LENGTH('a)"
  then have "(256 :: nat) ^ (LENGTH('a) div 8) = 2 ^ LENGTH('a)"
    using power_mult [of "2 :: nat" 8 "LENGTH('a) div 8"] by simp
  then have "of_le (le_word w) = unat w"
    by (simp add: le_word_def of_le_to_le)
  then show ?thesis by (simp add: of_le_word_def)
qed

lemma le_word_of_le:
  assumes "8 dvd LENGTH('a)" "length bs = LENGTH('a) div 8"
  shows "le_word (of_le_word bs :: 'a::len word) = bs"
proof -
  have "(256 :: nat) ^ (LENGTH('a) div 8) = 2 ^ LENGTH('a)"
    using assms(1) power_mult [of "2 :: nat" 8 "LENGTH('a) div 8"] by simp
  then have "of_le bs < 2 ^ LENGTH('a)" using of_le_less [of bs] assms(2) by simp
  then have "unat (of_le_word bs :: 'a word) = of_le bs" by (simp add: of_le_word_def unat_of_nat)
  then show ?thesis using to_le_of_le [of bs] assms(2) by (simp add: le_word_def)
qed

lemmas word_lengths = length_le_word [where ?'a = 16] length_le_word [where ?'a = 32] length_le_word [where ?'a = 64]

lemmas word_round_trips = of_le_word_le [where ?'a = 16] of_le_word_le [where ?'a = 32] of_le_word_le [where ?'a = 64]

lemmas word_reads = le_word_of_le [where ?'a = 16] le_word_of_le [where ?'a = 32] le_word_of_le [where ?'a = 64]

section \<open>Files of fixed-size records\<close>

definition chunks :: "nat \<Rightarrow> u8 list \<Rightarrow> u8 list list" where
  "chunks n bs = map (\<lambda>i. field (n * i) n bs) [0..<length bs div n]"

lemma length_chunks [simp]: "length (chunks n bs) = length bs div n"
  by (simp add: chunks_def)

lemma chunks_nth: "i < length bs div n \<Longrightarrow> chunks n bs ! i = field (n * i) n bs"
  by (simp add: chunks_def)

lemma chunks_Nil [simp]: "chunks n [] = []"
  by (simp add: chunks_def)

lemma chunks_Cons: "length bs = n \<Longrightarrow> 0 < n \<Longrightarrow> chunks n (bs @ rest) = bs # chunks n rest"
proof -
  assume l: "length bs = n" "0 < n"
  have "field (n * Suc i) n (bs @ rest) = field (n * i) n rest" for i
    using l by (simp add: field_def)
  moreover have "field 0 n (bs @ rest) = bs" using l by (simp add: field_def)
  moreover have "length (bs @ rest) div n = Suc (length rest div n)" using l by (simp add: div_add_self1)
  ultimately show ?thesis
    unfolding chunks_def
    by (simp only: upt_conv_Cons [OF zero_less_Suc] map_Suc_upt [symmetric] list.map map_map o_def mult_0_right)
qed

lemma chunks_concat: "0 < n \<Longrightarrow> (\<And>x. x \<in> set xs \<Longrightarrow> length x = n) \<Longrightarrow> chunks n (concat xs) = xs"
  by (induction xs) (simp_all add: chunks_Cons)

lemma length_concat_same: "(\<And>x. x \<in> set xs \<Longrightarrow> length x = n) \<Longrightarrow> length (concat xs) = n * length xs"
  by (induction xs) simp_all

section \<open>Writing to a descriptor\<close>

text \<open>
  The answers of the operating system to successive \<open>write\<close> calls: a number of bytes taken,
  an interruption, or an error.  \<open>write_all\<close> returns \<open>None\<close> while answers are outstanding,
  otherwise whether it succeeded and the bytes that reached the file.
\<close>

datatype write_answer = Wrote nat | Interrupted | Failed

fun write_all :: "write_answer list \<Rightarrow> u8 list \<Rightarrow> (bool \<times> u8 list) option" where
  "write_all answers [] = Some (True, [])"
| "write_all [] (b # bs) = None"
| "write_all (Interrupted # answers) (b # bs) = write_all answers (b # bs)"
| "write_all (Failed # answers) (b # bs) = Some (False, [])"
| "write_all (Wrote n # answers) (b # bs) =
     (if n = 0 then Some (False, [])
      else map_option (\<lambda>(ok, w). (ok, take n (b # bs) @ w)) (write_all answers (drop n (b # bs))))"

lemma write_all_prefix:
  "write_all answers bs = Some (ok, w) \<Longrightarrow> \<exists>rest. bs = w @ rest \<and> (ok \<longrightarrow> rest = [])"
proof (induction answers bs arbitrary: w rule: write_all.induct)
  case (5 n answers b bs)
  show ?case
  proof (cases "n = 0")
    case False
    then obtain w' where w': "write_all answers (drop n (b # bs)) = Some (ok, w')" "w = take n (b # bs) @ w'"
      using 5(2) by (auto simp del: take_Suc_Cons drop_Suc_Cons)
    then obtain rest where "drop n (b # bs) = w' @ rest" "ok \<longrightarrow> rest = []" using 5(1) [OF False] by blast
    then show ?thesis using w'(2) append_take_drop_id [of n "b # bs"] by (metis append.assoc)
  qed (use 5 in simp)
qed auto

text \<open>A write of which every byte reached the file has succeeded.\<close>

lemma write_all_full: "write_all answers bs = Some (ok, bs) \<Longrightarrow> ok"
proof (induction answers bs rule: write_all.induct)
  case (5 n answers b bs)
  show ?case
  proof (cases "n = 0")
    case False
    then obtain w' where w': "write_all answers (drop n (b # bs)) = Some (ok, w')" "b # bs = take n (b # bs) @ w'"
      using 5(2) by (auto simp del: take_Suc_Cons drop_Suc_Cons)
    then have "w' = drop n (b # bs)" by (metis append_take_drop_id same_append_eq)
    then show ?thesis using 5(1) [OF False] w'(1) by simp
  qed (use 5 in simp)
qed auto

text \<open>Enough answers that take at least one byte complete the write, interruptions included.\<close>

lemma write_all_completes:
  "Failed \<notin> set answers \<Longrightarrow> Wrote 0 \<notin> set answers \<Longrightarrow>
   length bs \<le> length (filter (\<lambda>a. a \<noteq> Interrupted) answers) \<Longrightarrow> write_all answers bs = Some (True, bs)"
proof (induction answers bs rule: write_all.induct)
  case (5 n answers b bs)
  then have "n \<noteq> 0" by auto
  moreover have "length (drop n (b # bs)) \<le> length (filter (\<lambda>a. a \<noteq> Interrupted) answers)"
    using 5(4) \<open>n \<noteq> 0\<close> by simp
  ultimately show ?case
    using 5 append_take_drop_id [of n "b # bs"] by (simp del: take_Suc_Cons drop_Suc_Cons)
qed auto

text \<open>Enough answers of any kind end the call, with success or without.\<close>

lemma write_all_returns:
  "length bs \<le> length (filter (\<lambda>a. a \<noteq> Interrupted) answers) \<Longrightarrow> write_all answers bs \<noteq> None"
proof (induction answers bs rule: write_all.induct)
  case (5 n answers b bs)
  show ?case
  proof (cases "n = 0")
    case False
    then have "length (drop n (b # bs)) \<le> length (filter (\<lambda>a. a \<noteq> Interrupted) answers)" using 5(2) by simp
    then show ?thesis using 5(1) [OF False] False by (auto simp del: drop_Suc_Cons)
  qed simp
qed auto

end
