(* ===== verification/Recovery.thy ===== *)
theory Recovery
  imports Bytes "HOL-Library.Multiset"
begin

text \<open>
  \<open>RecoveryLedger\<close> of \<open>luv_recovery.hpp\<close>: the write-ahead log of order events as a byte
  sequence of 64-byte records, with its FNV-1a checksum, its verification and its replay.  The
  operating system's answers to \<open>write\<close> and \<open>fsync\<close> are arguments.  The theory shows that
  what is appended is read back and replayed to the right set of open orders, that a corrupted
  byte is detected, and what an unsynced append does to the log.
\<close>

section \<open>Records\<close>

datatype RecoveryEventType = kAdd | kFill | kCancel | kAck | kNew | kReplace | kTerminalFill

primrec event_code :: "RecoveryEventType \<Rightarrow> u8" where
  "event_code kAdd = 1"
| "event_code kFill = 2"
| "event_code kCancel = 3"
| "event_code kAck = 4"
| "event_code kNew = 5"
| "event_code kReplace = 6"
| "event_code kTerminalFill = 7"

definition kRecoveryRecordVersion :: u8 where
  "kRecoveryRecordVersion = 2"

record RecoveryEvent =
  re_type :: RecoveryEventType
  re_order_id :: u64
  re_quantity :: int
  re_price :: int
  re_side :: u8
  re_timestamp_ns :: u64

record RecoveryRecord =
  rr_magic :: u32
  rr_version :: u8
  rr_type :: u8
  rr_reserved :: u16
  rr_sequence :: u64
  rr_order_id :: u64
  rr_quantity :: int
  rr_price :: int
  rr_side :: u8
  rr_reserved_bytes :: "u8 list"
  rr_timestamp_ns :: u64
  rr_checksum :: u32
  rr_padding :: u32

record RecoveredOrder =
  ro_order_id :: u64
  ro_remaining :: int
  ro_price :: int
  ro_side :: u8
  ro_timestamp_ns :: u64

text \<open>The memory layout of a record: 56 bytes up to the checksum, 64 in all.\<close>

definition rr_head :: "RecoveryRecord \<Rightarrow> u8 list" where
  "rr_head r = le_word (rr_magic r) @ [rr_version r, rr_type r] @ le_word (rr_reserved r) @
     le_word (rr_sequence r) @ le_word (rr_order_id r) @ le_i64 (rr_quantity r) @ le_i64 (rr_price r) @
     [rr_side r] @ rr_reserved_bytes r @ le_word (rr_timestamp_ns r)"

definition rr_bytes :: "RecoveryRecord \<Rightarrow> u8 list" where
  "rr_bytes r = rr_head r @ le_word (rr_checksum r) @ le_word (rr_padding r)"

definition rr_decode :: "u8 list \<Rightarrow> RecoveryRecord" where
  "rr_decode bs =
     \<lparr>rr_magic = of_le_word (field 0 4 bs), rr_version = bs ! 4, rr_type = bs ! 5,
      rr_reserved = of_le_word (field 6 2 bs), rr_sequence = of_le_word (field 8 8 bs),
      rr_order_id = of_le_word (field 16 8 bs), rr_quantity = of_le_i64 (field 24 8 bs),
      rr_price = of_le_i64 (field 32 8 bs), rr_side = bs ! 40, rr_reserved_bytes = field 41 7 bs,
      rr_timestamp_ns = of_le_word (field 48 8 bs), rr_checksum = of_le_word (field 56 4 bs),
      rr_padding = of_le_word (field 60 4 bs)\<rparr>"

text \<open>\<open>checksum\<close>: FNV-1a over the bytes before the checksum field.\<close>

definition fnv_step :: "u32 \<Rightarrow> u8 \<Rightarrow> u32" where
  "fnv_step hash b = (hash XOR ucast b) * 16777619"

definition fnv1a :: "u8 list \<Rightarrow> u32" where
  "fnv1a bs = foldl fnv_step 2166136261 bs"

definition checksum :: "RecoveryRecord \<Rightarrow> u32" where
  "checksum r = fnv1a (rr_head r)"

section \<open>The log\<close>

record RecoveryLedger =
  rv_fd :: bool
  rv_sequence :: u64
  rv_file :: "u8 list"

definition closed_ledger :: RecoveryLedger where
  "closed_ledger = \<lparr>rv_fd = False, rv_sequence = 0, rv_file = []\<rparr>"

text \<open>\<open>open\<close>, with the content of the file, \<open>None\<close> if the path cannot be opened.\<close>

definition rv_open :: "u8 list option \<Rightarrow> RecoveryLedger \<Rightarrow> bool \<times> RecoveryLedger" where
  "rv_open file l =
     (if rv_fd l then (False, l)
      else case file of
        None \<Rightarrow> (False, l)
      | Some bs \<Rightarrow>
          if length bs mod 64 \<noteq> 0 then (False, l\<lparr>rv_fd := False, rv_file := bs\<rparr>)
          else (True, l\<lparr>rv_fd := True, rv_sequence := of_nat (length bs div 64), rv_file := bs\<rparr>))"

definition rv_close :: "RecoveryLedger \<Rightarrow> RecoveryLedger" where
  "rv_close l = l\<lparr>rv_fd := False\<rparr>"

definition record_of :: "u64 \<Rightarrow> RecoveryEvent \<Rightarrow> RecoveryRecord" where
  "record_of sequence ev =
     (let r = \<lparr>rr_magic = 0x31564352, rr_version = kRecoveryRecordVersion, rr_type = event_code (re_type ev),
               rr_reserved = 0, rr_sequence = sequence, rr_order_id = re_order_id ev,
               rr_quantity = re_quantity ev, rr_price = re_price ev, rr_side = re_side ev,
               rr_reserved_bytes = replicate 7 0, rr_timestamp_ns = re_timestamp_ns ev,
               rr_checksum = 0, rr_padding = 0\<rparr>
      in r\<lparr>rr_checksum := checksum r\<rparr>)"

text \<open>
  \<open>append_with_side\<close>, with the answers to the \<open>write\<close> calls and whether \<open>fsync\<close> succeeds.
  The arguments are bundled as the event that \<open>append_and_flush\<close> takes apart.
\<close>

definition append_with_side ::
    "write_answer list \<Rightarrow> bool \<Rightarrow> RecoveryLedger \<Rightarrow> RecoveryEvent \<Rightarrow> (bool \<times> RecoveryLedger) option" where
  "append_with_side answers synced l ev =
     (if \<not> rv_fd l \<or> re_order_id ev = 0 \<or> re_quantity ev \<le> 0 then Some (False, l)
      else case write_all answers (rr_bytes (record_of (rv_sequence l) ev)) of
        None \<Rightarrow> None
      | Some (ok, written) \<Rightarrow>
          let l1 = l\<lparr>rv_file := rv_file l @ written\<rparr> in
          if \<not> ok then Some (False, l1)
          else if \<not> synced then Some (False, l1)
          else Some (True, l1\<lparr>rv_sequence := rv_sequence l + 1\<rparr>))"

definition append_and_flush ::
    "write_answer list \<Rightarrow> bool \<Rightarrow> RecoveryLedger \<Rightarrow> RecoveryEvent \<Rightarrow> (bool \<times> RecoveryLedger) option" where
  "append_and_flush answers synced l event = append_with_side answers synced l event"

definition wal_records :: "u8 list \<Rightarrow> RecoveryRecord list" where
  "wal_records file = map rr_decode (chunks 64 file)"

definition record_valid :: "u64 \<Rightarrow> RecoveryRecord \<Rightarrow> bool" where
  "record_valid expected r \<longleftrightarrow> rr_magic r = 0x31564352 \<and> rr_version r = kRecoveryRecordVersion \<and>
     rr_sequence r = expected \<and> checksum r = rr_checksum r"

text \<open>The result is the verdict, \<open>valid_records\<close> and \<open>error_seq\<close>.\<close>

fun verify_loop :: "u64 \<Rightarrow> RecoveryRecord list \<Rightarrow> bool \<times> u64 \<times> u64" where
  "verify_loop expected [] = (True, expected, 0)"
| "verify_loop expected (r # rs) =
     (if \<not> record_valid expected r then (False, expected, expected) else verify_loop (expected + 1) rs)"

definition verify_wal_integrity :: "u8 list option \<Rightarrow> bool \<times> u64 \<times> u64" where
  "verify_wal_integrity file =
     (case file of
        None \<Rightarrow> (False, 0, 0)
      | Some bs \<Rightarrow> if length bs mod 64 \<noteq> 0 then (False, 0, 0) else verify_loop 0 (wal_records bs))"

section \<open>Replay\<close>

text \<open>The output array is the list of its first \<open>count\<close> elements.\<close>

definition rv_remove :: "RecoveredOrder list \<Rightarrow> nat \<Rightarrow> RecoveredOrder list" where
  "rv_remove out index = butlast (out[index := last out])"

definition rv_index :: "RecoveredOrder list \<Rightarrow> u64 \<Rightarrow> nat" where
  "rv_index out order_id = length (takeWhile (\<lambda>x. ro_order_id x \<noteq> order_id) out)"

definition rv_apply :: "nat \<Rightarrow> RecoveryRecord \<Rightarrow> RecoveredOrder list \<Rightarrow> RecoveredOrder list option" where
  "rv_apply capacity r out =
     (let index = rv_index out (rr_order_id r) in
      if rr_type r = event_code kAdd \<or> rr_type r = event_code kNew then
        if index \<noteq> length out \<or> length out = capacity then None
        else Some (out @ [\<lparr>ro_order_id = rr_order_id r, ro_remaining = rr_quantity r, ro_price = rr_price r,
                           ro_side = rr_side r, ro_timestamp_ns = rr_timestamp_ns r\<rparr>])
      else if index = length out then None
      else if rr_type r = event_code kTerminalFill then
        if rr_quantity r \<le> 0 \<or> rr_quantity r > ro_remaining (out ! index) then None
        else Some (rv_remove out index)
      else if rr_type r = event_code kFill then
        if rr_quantity r > ro_remaining (out ! index) then None
        else
          let rem = s64 (ro_remaining (out ! index) - rr_quantity r);
              out1 = out[index := (out ! index)\<lparr>ro_remaining := rem\<rparr>]
          in Some (if rem = 0 then rv_remove out1 index else out1)
      else if rr_type r = event_code kReplace then
        if rr_quantity r \<le> 0 then None
        else
          let ord = (out ! index)\<lparr>ro_remaining := rr_quantity r\<rparr>
          in Some (out[index := (if rr_price r > 0 then ord\<lparr>ro_price := rr_price r\<rparr> else ord)])
      else if rr_type r = event_code kCancel then Some (rv_remove out index)
      else None)"

fun replay_loop ::
    "nat \<Rightarrow> u64 \<Rightarrow> RecoveryRecord list \<Rightarrow> RecoveredOrder list \<Rightarrow> bool \<times> RecoveredOrder list" where
  "replay_loop capacity expected [] out = (True, out)"
| "replay_loop capacity expected (r # rs) out =
     (if \<not> record_valid expected r then (False, out)
      else case rv_apply capacity r out of
        None \<Rightarrow> (False, out)
      | Some out' \<Rightarrow> replay_loop capacity (expected + 1) rs out')"

text \<open>\<open>replay\<close>, with whether the file could be mapped.\<close>

definition replay :: "bool \<Rightarrow> nat \<Rightarrow> RecoveryLedger \<Rightarrow> bool \<times> RecoveredOrder list" where
  "replay mapped capacity l =
     (if \<not> rv_fd l \<or> capacity = 0 then (False, [])
      else if length (rv_file l) mod 64 \<noteq> 0 then (False, [])
      else if rv_file l = [] then (True, [])
      else if \<not> mapped then (False, [])
      else replay_loop capacity 0 (wal_records (rv_file l)) [])"

section \<open>Encoding round trip\<close>

definition rr_ok :: "RecoveryRecord \<Rightarrow> bool" where
  "rr_ok r \<longleftrightarrow> length (rr_reserved_bytes r) = 7 \<and> i64 (rr_quantity r) \<and> i64 (rr_price r)"

lemma length_rr_head: "rr_ok r \<Longrightarrow> length (rr_head r) = 56"
  by (simp add: rr_head_def rr_ok_def word_lengths)

lemma length_rr_bytes: "rr_ok r \<Longrightarrow> length (rr_bytes r) = 64"
  by (simp add: rr_bytes_def length_rr_head word_lengths)

lemma rr_decode_bytes: "rr_ok r \<Longrightarrow> rr_decode (rr_bytes r) = r"
  by (simp add: rr_decode_def rr_bytes_def rr_head_def rr_ok_def field_def word_lengths word_round_trips
      of_le_i64_le nth_append)

lemma rr_head_decode: "length bs = 64 \<Longrightarrow> rr_head (rr_decode bs) = take 56 bs"
proof -
  assume l: "length bs = 64"
  have "rr_head (rr_decode bs) = take 4 bs @ field 4 1 bs @ field 5 1 bs @ field 6 2 bs @ field 8 8 bs @
      field 16 8 bs @ field 24 8 bs @ field 32 8 bs @ field 40 1 bs @ field 41 7 bs @ field 48 8 bs"
    using l field_1 [of 4 bs] field_1 [of 5 bs] field_1 [of 40 bs]
    by (simp add: rr_head_def rr_decode_def word_reads le_i64_of_le length_field) (simp add: field_def)
  also have "\<dots> = take 56 bs" by (simp add: take_field_append take_field del: One_nat_def)
  finally show ?thesis .
qed

lemma rr_ok_decode: "length bs = 64 \<Longrightarrow> rr_ok (rr_decode bs)"
  by (simp add: rr_ok_def rr_decode_def length_field of_le_i64_def s64_i64)

section \<open>The checksum\<close>

text \<open>A step of the hash is injective in the state and in the byte: the multiplier is odd.\<close>

lemma fnv_mult_cancel: "(x :: u32) * 16777619 = y * 16777619 \<Longrightarrow> x = y"
proof -
  assume "x * 16777619 = y * 16777619"
  then have "x * 16777619 * 899433627 = y * 16777619 * 899433627" by (rule arg_cong)
  then have "x * (16777619 * 899433627) = y * (16777619 * 899433627)" by (simp only: mult.assoc)
  moreover have "(16777619 :: u32) * 899433627 = 1" by simp
  ultimately show ?thesis by (simp only: mult_1_right)
qed

lemma xor_cancel_right: "x XOR b = y XOR b \<Longrightarrow> x = y"
  for x y b :: "'a::len word"
  by (metis xor.assoc xor_self_eq xor.right_neutral)

lemma fnv_step_inj: "fnv_step h b = fnv_step h' b \<Longrightarrow> h = h'"
  unfolding fnv_step_def using fnv_mult_cancel xor_cancel_right by blast

lemma fnv_step_byte: "fnv_step h b = fnv_step h c \<Longrightarrow> b = c"
proof -
  assume "fnv_step h b = fnv_step h c"
  then have "(ucast b :: u32) = ucast c"
    unfolding fnv_step_def by (metis fnv_mult_cancel xor.commute xor_cancel_right)
  then have "uint (ucast b :: u32) = uint (ucast c :: u32)" by (rule arg_cong)
  then show ?thesis by (simp add: uint_up_ucast is_up word_uint_eq_iff)
qed

lemma fnv_fold_inj: "foldl fnv_step h bs = foldl fnv_step h' bs \<Longrightarrow> h = h'"
  by (induction bs arbitrary: h h') (auto dest: fnv_step_inj)

lemma fnv_detects:
  assumes "i < length bs" "b \<noteq> bs ! i"
  shows "fnv1a (bs[i := b]) \<noteq> fnv1a bs"
proof
  assume eq: "fnv1a (bs[i := b]) = fnv1a bs"
  let ?h = "foldl fnv_step 2166136261 (take i bs)"
  have "fnv1a (bs[i := b]) = foldl fnv_step (fnv_step ?h b) (drop (Suc i) bs)"
    using assms(1) by (simp add: fnv1a_def upd_conv_take_nth_drop)
  moreover have "fnv1a bs = foldl fnv_step (fnv_step ?h (bs ! i)) (drop (Suc i) bs)"
    using assms(1) by (subst id_take_nth_drop [of i bs]) (simp_all add: fnv1a_def)
  ultimately have "foldl fnv_step (fnv_step ?h b) (drop (Suc i) bs) = foldl fnv_step (fnv_step ?h (bs ! i)) (drop (Suc i) bs)"
    using eq by simp
  then have "fnv_step ?h b = fnv_step ?h (bs ! i)" by (rule fnv_fold_inj)
  then show False using fnv_step_byte assms(2) by blast
qed

section \<open>What the log holds\<close>

definition event_ok :: "RecoveryEvent \<Rightarrow> bool" where
  "event_ok ev \<longleftrightarrow> re_order_id ev \<noteq> 0 \<and> 0 < re_quantity ev \<and> i64 (re_quantity ev) \<and> i64 (re_price ev)"

primrec records_from :: "u64 \<Rightarrow> RecoveryEvent list \<Rightarrow> RecoveryRecord list" where
  "records_from n [] = []"
| "records_from n (ev # evs) = record_of n ev # records_from (n + 1) evs"

definition wal_bytes :: "RecoveryEvent list \<Rightarrow> u8 list" where
  "wal_bytes evs = concat (map rr_bytes (records_from 0 evs))"

definition wal_of :: "RecoveryLedger \<Rightarrow> RecoveryEvent list \<Rightarrow> bool" where
  "wal_of l evs \<longleftrightarrow> rv_fd l \<and> (\<forall>ev\<in>set evs. event_ok ev) \<and> rv_file l = wal_bytes evs \<and>
     rv_sequence l = of_nat (length evs)"

lemma record_of_ok: "event_ok ev \<Longrightarrow> rr_ok (record_of n ev)"
  by (simp add: rr_ok_def record_of_def event_ok_def Let_def)

lemma record_of_valid: "record_valid n (record_of n ev)"
  by (simp add: record_valid_def record_of_def Let_def checksum_def rr_head_def)

lemma record_of_sequence: "rr_sequence (record_of n ev) = n"
  by (simp add: record_of_def Let_def)

lemma records_from_append:
  "records_from n (evs @ evs') = records_from n evs @ records_from (n + of_nat (length evs)) evs'"
  by (induction evs arbitrary: n) (simp_all add: add.assoc)

lemma length_records_from [simp]: "length (records_from n evs) = length evs"
  by (induction evs arbitrary: n) simp_all

lemma records_from_ok: "\<forall>ev\<in>set evs. event_ok ev \<Longrightarrow> r \<in> set (records_from n evs) \<Longrightarrow> rr_ok r"
  by (induction evs arbitrary: n) (auto intro: record_of_ok)

lemma length_concat_records:
  "(\<And>r. r \<in> set rs \<Longrightarrow> rr_ok r) \<Longrightarrow> length (concat (map rr_bytes rs)) = 64 * length rs"
  by (subst length_concat_same [of _ 64]) (auto simp: length_rr_bytes)

lemma wal_records_concat: "(\<And>r. r \<in> set rs \<Longrightarrow> rr_ok r) \<Longrightarrow> wal_records (concat (map rr_bytes rs)) = rs"
proof -
  assume ok: "\<And>r. r \<in> set rs \<Longrightarrow> rr_ok r"
  then have "chunks 64 (concat (map rr_bytes rs)) = map rr_bytes rs"
    by (intro chunks_concat) (auto simp: length_rr_bytes)
  then show ?thesis using ok by (simp add: wal_records_def comp_def rr_decode_bytes map_idI)
qed

lemma wal_of_records:
  assumes "wal_of l evs"
  shows "wal_records (rv_file l) = records_from 0 evs" "length (rv_file l) = 64 * length evs"
  using assms wal_records_concat [of "records_from 0 evs"] length_concat_records [of "records_from 0 evs"]
    records_from_ok [of evs _ 0]
  by (auto simp: wal_of_def wal_bytes_def)

lemma verify_records: "verify_loop n (records_from n evs) = (True, n + of_nat (length evs), 0)"
  by (induction evs arbitrary: n) (simp_all add: record_of_valid add.assoc)

lemma wal_of_verify: "wal_of l evs \<Longrightarrow> verify_wal_integrity (Some (rv_file l)) = (True, of_nat (length evs), 0)"
  using wal_of_records [of l evs] verify_records [of 0 evs] by (simp add: verify_wal_integrity_def)

lemma append_ok:
  assumes "wal_of l evs" "event_ok ev" "append_and_flush answers synced l ev = Some (True, l')"
  shows "wal_of l' (evs @ [ev])"
proof -
  have "rv_fd l" "re_order_id ev \<noteq> 0" "\<not> re_quantity ev \<le> 0"
    using assms(1,2) by (auto simp: wal_of_def event_ok_def)
  then obtain w where w: "write_all answers (rr_bytes (record_of (rv_sequence l) ev)) = Some (True, w)"
      "l' = l\<lparr>rv_file := rv_file l @ w, rv_sequence := rv_sequence l + 1\<rparr>"
    using assms(3)
    by (auto simp: append_and_flush_def append_with_side_def Let_def split: option.splits if_splits)
  have "w = rr_bytes (record_of (rv_sequence l) ev)" using write_all_prefix [OF w(1)] by auto
  then show ?thesis
    using assms(1,2) w(2) by (auto simp: wal_of_def wal_bytes_def records_from_append)
qed

section \<open>The recovered orders\<close>

definition order_map :: "RecoveredOrder list \<Rightarrow> u64 \<rightharpoonup> RecoveredOrder" where
  "order_map out = map_of (map (\<lambda>x. (ro_order_id x, x)) out)"

definition out_inv :: "nat \<Rightarrow> RecoveredOrder list \<Rightarrow> bool" where
  "out_inv capacity out \<longleftrightarrow> distinct (map ro_order_id out) \<and> length out \<le> capacity \<and>
     (\<forall>x\<in>set out. 0 < ro_remaining x \<and> i64 (ro_remaining x))"

text \<open>The contract of replay: a map from order ids to open orders.\<close>

definition spec_event :: "nat \<Rightarrow> (u64 \<rightharpoonup> RecoveredOrder) \<Rightarrow> RecoveryEvent \<Rightarrow> (u64 \<rightharpoonup> RecoveredOrder) option" where
  "spec_event capacity m ev =
     (let k = re_order_id ev; q = re_quantity ev in
      case re_type ev of
        kAck \<Rightarrow> None
      | kAdd \<Rightarrow> if m k \<noteq> None \<or> card (dom m) = capacity then None
                else Some (m(k \<mapsto> \<lparr>ro_order_id = k, ro_remaining = q, ro_price = re_price ev,
                                   ro_side = re_side ev, ro_timestamp_ns = re_timestamp_ns ev\<rparr>))
      | kNew \<Rightarrow> if m k \<noteq> None \<or> card (dom m) = capacity then None
                else Some (m(k \<mapsto> \<lparr>ro_order_id = k, ro_remaining = q, ro_price = re_price ev,
                                   ro_side = re_side ev, ro_timestamp_ns = re_timestamp_ns ev\<rparr>))
      | kFill \<Rightarrow> (case m k of None \<Rightarrow> None | Some x \<Rightarrow>
                   if q > ro_remaining x then None
                   else if q = ro_remaining x then Some (m(k := None))
                   else Some (m(k \<mapsto> x\<lparr>ro_remaining := ro_remaining x - q\<rparr>)))
      | kTerminalFill \<Rightarrow> (case m k of None \<Rightarrow> None | Some x \<Rightarrow>
                   if q > ro_remaining x then None else Some (m(k := None)))
      | kReplace \<Rightarrow> (case m k of None \<Rightarrow> None | Some x \<Rightarrow>
                   Some (m(k \<mapsto> x\<lparr>ro_remaining := q,
                               ro_price := (if re_price ev > 0 then re_price ev else ro_price x)\<rparr>)))
      | kCancel \<Rightarrow> (case m k of None \<Rightarrow> None | Some x \<Rightarrow> Some (m(k := None))))"

primrec spec_replay :: "nat \<Rightarrow> RecoveryEvent list \<Rightarrow> (u64 \<rightharpoonup> RecoveredOrder) \<Rightarrow> bool \<times> (u64 \<rightharpoonup> RecoveredOrder)" where
  "spec_replay capacity [] m = (True, m)"
| "spec_replay capacity (ev # evs) m =
     (case spec_event capacity m ev of None \<Rightarrow> (False, m) | Some m' \<Rightarrow> spec_replay capacity evs m')"

lemma order_map_Some:
  assumes "distinct (map ro_order_id out)"
  shows "order_map out k = Some x \<longleftrightarrow> x \<in> set out \<and> ro_order_id x = k"
  using assms by (auto simp: order_map_def comp_def)

lemma order_map_card: "distinct (map ro_order_id out) \<Longrightarrow> card (dom (order_map out)) = length out"
proof -
  assume d: "distinct (map ro_order_id out)"
  have "dom (order_map out) = set (map ro_order_id out)"
    unfolding order_map_def by (simp add: dom_map_of_conv_image_fst image_image)
  then show ?thesis using distinct_card [OF d] by simp
qed

text \<open>An order that is present stands at the index the search returns.\<close>

lemma rv_index_split:
  assumes "rv_index out k \<noteq> length out"
  obtains xs y ys where "out = xs @ y # ys" "rv_index out k = length xs" "ro_order_id y = k"
proof -
  let ?P = "\<lambda>x. ro_order_id x \<noteq> k"
  have ne: "dropWhile ?P out \<noteq> []"
  proof
    assume "dropWhile ?P out = []"
    then have "takeWhile ?P out = out" by (simp add: dropWhile_eq_Nil_conv)
    then show False using assms by (simp add: rv_index_def del: takeWhile_eq_all_conv)
  qed
  then obtain y ys where d: "dropWhile ?P out = y # ys" by (cases "dropWhile ?P out") auto
  have "ro_order_id y = k" using hd_dropWhile [OF ne] d by simp
  moreover have "out = takeWhile ?P out @ y # ys" unfolding d [symmetric] by simp
  ultimately show thesis using that [of "takeWhile ?P out" y ys] by (simp add: rv_index_def)
qed

lemma rv_index_absent: "rv_index out k = length out \<longleftrightarrow> order_map out k = None"
proof -
  have "rv_index out k = length out \<longleftrightarrow> (\<forall>x\<in>set out. ro_order_id x \<noteq> k)"
  proof
    assume "rv_index out k = length out"
    then show "\<forall>x\<in>set out. ro_order_id x \<noteq> k"
      using takeWhile_eq_take [of "\<lambda>x. ro_order_id x \<noteq> k" out] unfolding rv_index_def
      by (simp add: takeWhile_eq_all_conv)
  next
    assume "\<forall>x\<in>set out. ro_order_id x \<noteq> k"
    then have "takeWhile (\<lambda>x. ro_order_id x \<noteq> k) out = out" by simp
    then show "rv_index out k = length out" by (simp add: rv_index_def del: takeWhile_eq_all_conv)
  qed
  then show ?thesis by (force simp: order_map_def map_of_eq_None_iff)
qed

lemma rv_remove_split: "rv_remove (xs @ y # ys) (length xs) = xs @ (if ys = [] then [] else last ys # butlast ys)"
  by (cases ys rule: rev_cases) (simp_all add: rv_remove_def butlast_append)

lemma order_map_upd:
  assumes d: "distinct (map ro_order_id (xs @ y # ys))" and y: "ro_order_id y' = ro_order_id y"
  shows "order_map (xs @ y' # ys) = (order_map (xs @ y # ys))(ro_order_id y \<mapsto> y')"
proof (rule map_eqI)
  fix k v
  have d': "distinct (map ro_order_id (xs @ y' # ys))" using d y by simp
  show "order_map (xs @ y' # ys) k = Some v \<longleftrightarrow> ((order_map (xs @ y # ys))(ro_order_id y \<mapsto> y')) k = Some v"
    using d y order_map_Some [OF d', of k v] order_map_Some [OF d, of k v] by (auto simp: image_iff)
qed

lemma order_map_del:
  assumes d: "distinct (map ro_order_id (xs @ y # ys))" and s: "mset zs = mset (xs @ ys)"
  shows "order_map zs = (order_map (xs @ y # ys))(ro_order_id y := None)" "distinct (map ro_order_id zs)"
proof -
  have "mset (map ro_order_id zs) = mset (map ro_order_id (xs @ ys))" using s by simp
  moreover have "distinct (map ro_order_id (xs @ ys))" using d by auto
  ultimately show d': "distinct (map ro_order_id zs)" using mset_eq_imp_distinct_iff by blast
  have "set zs = set (xs @ ys)" using s by (metis set_mset_mset)
  then show "order_map zs = (order_map (xs @ y # ys))(ro_order_id y := None)"
    using d order_map_Some [OF d'] order_map_Some [OF d] by (intro map_eqI) (auto simp: image_iff)
qed

lemma rv_remove_mset: "mset (rv_remove (xs @ y # ys) (length xs)) = mset (xs @ ys)"
  by (cases ys rule: rev_cases) (simp_all add: rv_remove_split)

lemma record_of_sel:
  "rr_type (record_of n ev) = event_code (re_type ev)" "rr_order_id (record_of n ev) = re_order_id ev"
  "rr_quantity (record_of n ev) = re_quantity ev" "rr_price (record_of n ev) = re_price ev"
  "rr_side (record_of n ev) = re_side ev" "rr_timestamp_ns (record_of n ev) = re_timestamp_ns ev"
  by (simp_all add: record_of_def Let_def)

definition event_refines ::
    "nat \<Rightarrow> RecoveredOrder list option \<Rightarrow> (u64 \<rightharpoonup> RecoveredOrder) option \<Rightarrow> bool" where
  "event_refines capacity res spec \<longleftrightarrow>
     (case res of None \<Rightarrow> spec = None | Some out \<Rightarrow> out_inv capacity out \<and> spec = Some (order_map out))"

lemma add_refines:
  assumes inv: "out_inv capacity out" and ev: "event_ok ev" "re_type ev = kAdd \<or> re_type ev = kNew"
  shows "event_refines capacity (rv_apply capacity (record_of n ev) out) (spec_event capacity (order_map out) ev)"
proof -
  let ?k = "re_order_id ev"
  let ?x = "\<lparr>ro_order_id = ?k, ro_remaining = re_quantity ev, ro_price = re_price ev,
              ro_side = re_side ev, ro_timestamp_ns = re_timestamp_ns ev\<rparr>"
  have d: "distinct (map ro_order_id out)" using inv by (simp add: out_inv_def)
  have card: "card (dom (order_map out)) = length out" by (rule order_map_card [OF d])
  have app: "rv_apply capacity (record_of n ev) out =
      (if order_map out ?k \<noteq> None \<or> length out = capacity then None else Some (out @ [?x]))"
    using ev(2) rv_index_absent [of out ?k] by (auto simp: rv_apply_def record_of_sel Let_def)
  have spec: "spec_event capacity (order_map out) ev =
      (if order_map out ?k \<noteq> None \<or> length out = capacity then None else Some ((order_map out)(?k \<mapsto> ?x)))"
    using ev(2) card by (auto simp: spec_event_def Let_def)
  show ?thesis
  proof (cases "order_map out ?k \<noteq> None \<or> length out = capacity")
    case False
    then have d': "distinct (map ro_order_id (out @ [?x]))"
      using d by (auto simp: order_map_def map_of_eq_None_iff image_image)
    have "order_map (out @ [?x]) = (order_map out)(?k \<mapsto> ?x)"
      using False order_map_Some [OF d'] order_map_Some [OF d] by (intro map_eqI) auto
    moreover have "out_inv capacity (out @ [?x])"
      using inv d' False ev(1) by (auto simp: out_inv_def event_ok_def)
    ultimately show ?thesis using app spec False by (auto simp: event_refines_def)
  qed (use app spec in \<open>simp add: event_refines_def\<close>)
qed

lemma out_inv_removed:
  assumes inv: "out_inv capacity (xs @ y # ys)"
  shows "out_inv capacity (rv_remove (xs @ y # ys) (length xs))"
    "order_map (rv_remove (xs @ y # ys) (length xs)) = (order_map (xs @ y # ys))(ro_order_id y := None)"
proof -
  let ?zs = "rv_remove (xs @ y # ys) (length xs)"
  have d: "distinct (map ro_order_id (xs @ y # ys))" using inv by (simp add: out_inv_def)
  have m: "mset ?zs = mset (xs @ ys)" by (rule rv_remove_mset)
  then have "set ?zs = set (xs @ ys)" "length ?zs = length (xs @ ys)"
    by (metis set_mset_mset, metis size_mset)
  then show "out_inv capacity ?zs"
    using inv order_map_del(2) [OF d m] by (auto simp: out_inv_def)
  show "order_map ?zs = (order_map (xs @ y # ys))(ro_order_id y := None)"
    by (rule order_map_del(1) [OF d m])
qed

lemma out_inv_updated:
  assumes inv: "out_inv capacity (xs @ y # ys)"
    and y: "ro_order_id y' = ro_order_id y" "0 < ro_remaining y'" "i64 (ro_remaining y')"
  shows "out_inv capacity (xs @ y' # ys)"
    "order_map (xs @ y' # ys) = (order_map (xs @ y # ys))(ro_order_id y \<mapsto> y')"
  using assms order_map_upd [of xs y ys y'] by (auto simp: out_inv_def)

lemma update_refines:
  assumes inv: "out_inv capacity out" and ev: "event_ok ev" "re_type ev \<noteq> kAdd" "re_type ev \<noteq> kNew"
  shows "event_refines capacity (rv_apply capacity (record_of n ev) out) (spec_event capacity (order_map out) ev)"
proof (cases "rv_index out (re_order_id ev) = length out")
  case True
  then show ?thesis
    using ev rv_index_absent [of out "re_order_id ev"]
    by (cases "re_type ev")
      (simp_all add: event_refines_def rv_apply_def record_of_sel Let_def spec_event_def)
next
  case False
  then obtain xs y ys where out: "out = xs @ y # ys" and ix: "rv_index out (re_order_id ev) = length xs"
    and y: "ro_order_id y = re_order_id ev"
    by (rule rv_index_split)
  note inv' = inv [unfolded out]
  have m: "order_map out (re_order_id ev) = Some y"
    using order_map_Some [of out "re_order_id ev" y] inv y out by (auto simp: out_inv_def)
  have q: "0 < re_quantity ev" "i64 (re_quantity ev)" using ev(1) by (auto simp: event_ok_def)
  have ry: "i64 (ro_remaining y)" "0 < ro_remaining y" using inv' by (auto simp: out_inv_def)
  have rem: "event_refines capacity (Some (rv_remove out (length xs))) (Some ((order_map out)(re_order_id ev := None)))"
    using out_inv_removed [OF inv'] y out by (simp add: event_refines_def)
  have upd: "event_refines capacity (Some (xs @ y' # ys)) (Some ((order_map out)(re_order_id ev \<mapsto> y')))"
    if "ro_order_id y' = re_order_id ev" "0 < ro_remaining y'" "i64 (ro_remaining y')" for y'
    using out_inv_updated [OF inv', of y'] that y out by (simp add: event_refines_def)
  have ne: "length xs \<noteq> length out" using out by simp
  have at: "out ! length xs = y" and up: "\<And>z. out[length xs := z] = xs @ z # ys" using out by simp_all
  note ap = rv_apply_def [of capacity "record_of n ev" out, unfolded record_of_sel Let_def ix at]
  show ?thesis
  proof (cases "re_type ev")
    case kFill
    let ?r = "ro_remaining y - re_quantity ev"
    have s: "s64 ?r = ?r" if "\<not> re_quantity ev > ro_remaining y"
      using that q ry by (intro s64_id) (auto simp: i64_bounds)
    show ?thesis
    proof (cases "re_quantity ev > ro_remaining y")
      case True
      then show ?thesis using kFill ne m by (simp add: ap spec_event_def event_refines_def)
    next
      case lt: False
      show ?thesis
      proof (cases "re_quantity ev = ro_remaining y")
        case True
        have "rv_remove (xs @ y\<lparr>ro_remaining := 0\<rparr> # ys) (length xs) = rv_remove out (length xs)"
          unfolding out rv_remove_split ..
        then show ?thesis using True kFill ne m lt s up rem by (simp add: ap spec_event_def)
      next
        case False
        have "i64 ?r" using q ry lt by (auto simp: i64_bounds)
        then show ?thesis
          using False kFill ne m lt s up upd [of "y\<lparr>ro_remaining := ?r\<rparr>"] y by (simp add: ap spec_event_def)
      qed
    qed
  next
    case kReplace
    then show ?thesis
      using ne m q up y
        upd [of "y\<lparr>ro_remaining := re_quantity ev, ro_price := (if re_price ev > 0 then re_price ev else ro_price y)\<rparr>"]
      by (auto simp: ap spec_event_def)
  qed (use ne m q rem ev in \<open>auto simp: ap spec_event_def event_refines_def\<close>)
qed

lemma rv_apply_refines:
  assumes "out_inv capacity out" "event_ok ev"
  shows "event_refines capacity (rv_apply capacity (record_of n ev) out) (spec_event capacity (order_map out) ev)"
  using add_refines [OF assms] update_refines [OF assms] by blast

lemma replay_refines:
  assumes "out_inv capacity out" "\<forall>ev\<in>set evs. event_ok ev"
  shows "spec_replay capacity evs (order_map out) =
      (fst (replay_loop capacity n (records_from n evs) out),
       order_map (snd (replay_loop capacity n (records_from n evs) out))) \<and>
    out_inv capacity (snd (replay_loop capacity n (records_from n evs) out))"
  using assms
proof (induction evs arbitrary: out n)
  case Nil
  then show ?case by simp
next
  case (Cons ev evs)
  then have r: "event_refines capacity (rv_apply capacity (record_of n ev) out) (spec_event capacity (order_map out) ev)"
    by (intro rv_apply_refines) simp_all
  then show ?case
    using Cons by (cases "rv_apply capacity (record_of n ev) out") (simp_all add: record_of_valid event_refines_def)
qed

text \<open>Replay of an intact log is the contract run over its events.\<close>

lemma wal_replay:
  assumes "wal_of l evs" "0 < capacity"
  shows "spec_replay capacity evs Map.empty = (fst (replay True capacity l), order_map (snd (replay True capacity l)))"
proof -
  have "out_inv capacity []" "order_map [] = Map.empty" by (simp_all add: out_inv_def order_map_def)
  moreover have "replay True capacity l = replay_loop capacity 0 (records_from 0 evs) []"
    using assms wal_of_records [OF assms(1)] by (cases evs) (auto simp: replay_def wal_of_def)
  moreover have "\<forall>ev\<in>set evs. event_ok ev" using assms by (simp add: wal_of_def)
  ultimately show ?thesis using replay_refines [of capacity "[]" evs 0] by simp
qed

section \<open>Damaged logs\<close>

lemma verify_loop_valid:
  "fst (verify_loop n rs) \<Longrightarrow> j < length rs \<Longrightarrow> record_valid (n + of_nat j) (rs ! j)"
proof (induction rs arbitrary: n j)
  case (Cons r rs)
  then show ?case
    using Cons.IH [of "n + 1" "j - 1"] by (cases j) (auto split: if_splits simp: add.assoc)
qed simp

lemma replay_loop_valid:
  "fst (replay_loop capacity n rs out) \<Longrightarrow> j < length rs \<Longrightarrow> record_valid (n + of_nat j) (rs ! j)"
proof (induction rs arbitrary: n j out)
  case (Cons r rs)
  obtain out' where v: "record_valid n r" and r: "fst (replay_loop capacity (n + 1) rs out')"
    using Cons.prems(1) by (auto split: if_splits option.splits)
  show ?case
    using Cons.IH [OF r, of "j - 1"] Cons.prems(2) v by (cases j) (auto simp: add.assoc)
qed simp

lemma record_valid_bytes:
  assumes "length c = 64"
  shows "record_valid n (rr_decode c) \<Longrightarrow> fnv1a (take 56 c) = of_le_word (field 56 4 c)"
proof -
  assume "record_valid n (rr_decode c)"
  then have "fnv1a (rr_head (rr_decode c)) = rr_checksum (rr_decode c)"
    by (simp add: record_valid_def checksum_def)
  then show ?thesis unfolding rr_head_decode [OF assms] by (simp add: rr_decode_def)
qed

lemma of_le_word_inj: "length xs = 4 \<Longrightarrow> length ys = 4 \<Longrightarrow> of_le_word xs = (of_le_word ys :: u32) \<Longrightarrow> xs = ys"
proof -
  assume l: "length xs = 4" "length ys = 4" and eq: "of_le_word xs = (of_le_word ys :: u32)"
  have "le_word (of_le_word xs :: u32) = xs" "le_word (of_le_word ys :: u32) = ys"
    using l by (simp_all add: word_reads)
  then show ?thesis using eq by metis
qed

lemma corrupt_record:
  assumes c: "length c = 64" "record_valid n (rr_decode c)" and m: "m < 60" "b \<noteq> c ! m"
  shows "\<not> record_valid n' (rr_decode (c[m := b]))"
proof
  assume bad: "record_valid n' (rr_decode (c[m := b]))"
  have ok: "fnv1a (take 56 c) = of_le_word (field 56 4 c)" by (rule record_valid_bytes [OF c])
  have ok': "fnv1a (take 56 (c[m := b])) = of_le_word (field 56 4 (c[m := b]))"
    using record_valid_bytes [OF _ bad] c(1) by simp
  show False
  proof (cases "m < 56")
    case True
    then have "take 56 (c[m := b]) = (take 56 c)[m := b]" "field 56 4 (c[m := b]) = field 56 4 c"
      by (simp_all add: take_update_swap field_def)
    then show False using ok ok' fnv_detects [of m "take 56 c" b] True m(2) c(1) by simp
  next
    case False
    then have u: "take 56 (c[m := b]) = take 56 c" "field 56 4 (c[m := b]) = (field 56 4 c)[m - 56 := b]"
      using m(1) by (simp_all add: field_def drop_update_swap take_update_swap list_update_beyond)
    then have "(field 56 4 c)[m - 56 := b] = field 56 4 c"
      using ok ok' c(1) by (intro of_le_word_inj) (simp_all add: length_field)
    moreover have "m - 56 < length (field 56 4 c)" "field 56 4 c ! (m - 56) = c ! m"
      using False m(1) c(1) by (simp_all add: length_field) (simp add: field_def)
    ultimately show False using m(2) nth_list_update_eq by metis
  qed
qed

section \<open>Properties\<close>

text \<open>
  C10: What is appended is read back: after any successful append to a log that holds the events
  \<open>evs\<close>, the log verifies with one more record, and replay rebuilds exactly the open orders that
  the event history leaves, up to the first event the history does not allow.
\<close>

theorem wal_roundtrip:
  assumes "wal_of l evs" "event_ok ev" "append_and_flush answers synced l ev = Some (True, l')"
    "0 < capacity"
  shows "wal_of l' (evs @ [ev]) \<and>
    verify_wal_integrity (Some (rv_file l')) = (True, of_nat (length evs + 1), 0) \<and>
    spec_replay capacity (evs @ [ev]) Map.empty =
      (fst (replay True capacity l'), order_map (snd (replay True capacity l')))"
proof -
  have w: "wal_of l' (evs @ [ev])" by (rule append_ok [OF assms(1-3)])
  show ?thesis using w wal_of_verify [OF w] wal_replay [OF w assms(4)] by simp
qed

definition sample_ledger :: RecoveryLedger where
  "sample_ledger = snd (rv_open (Some []) closed_ledger)"

definition sample_event :: RecoveryEvent where
  "sample_event = \<lparr>re_type = kAdd, re_order_id = 7, re_quantity = 100, re_price = 5000, re_side = 1, re_timestamp_ns = 9\<rparr>"

lemma sample_ledger_wal: "wal_of sample_ledger []" "event_ok sample_event"
  by (simp_all add: sample_ledger_def rv_open_def closed_ledger_def wal_of_def wal_bytes_def
      sample_event_def event_ok_def i64_bounds)

lemma sample_append:
  "\<exists>l'. append_and_flush [Interrupted, Wrote 64] True sample_ledger sample_event = Some (True, l') \<and>
    rv_sequence l' = 1"
proof -
  let ?bs = "rr_bytes (record_of 0 sample_event)"
  have l: "length ?bs = 64" by (simp add: length_rr_bytes record_of_ok sample_ledger_wal)
  then obtain b bs where bs: "?bs = b # bs" by (cases ?bs) auto
  then have "write_all [Interrupted, Wrote 64] ?bs = Some (True, ?bs)" using l by simp
  then show ?thesis
    by (simp add: append_and_flush_def append_with_side_def sample_ledger_def rv_open_def closed_ledger_def)
      (simp add: sample_event_def)
qed

theorem wal_roundtrip_witness:
  "\<exists>l'. append_and_flush [Interrupted, Wrote 64] True sample_ledger sample_event = Some (True, l') \<and>
    verify_wal_integrity (Some (rv_file l')) = (True, 1, 0) \<and> fst (replay True 4 l')"
proof -
  obtain l' where l': "append_and_flush [Interrupted, Wrote 64] True sample_ledger sample_event = Some (True, l')"
    using sample_append by blast
  have "fst (spec_replay 4 [sample_event] Map.empty)" by (simp add: spec_event_def sample_event_def)
  then show ?thesis
    using wal_roundtrip [OF sample_ledger_wal l', of 4] l' by (simp del: spec_replay.simps)
qed

text \<open>
  C14: Every corruption of a single byte outside the padding of a record is detected by the
  verification, wherever it is in the log.
\<close>

theorem wal_corruption_detected:
  assumes "wal_of l evs" "i < length (rv_file l)" "i mod 64 < 60" "b \<noteq> rv_file l ! i"
  shows "\<not> fst (verify_wal_integrity (Some ((rv_file l)[i := b])))"
proof
  let ?f = "rv_file l" and ?f' = "(rv_file l)[i := b]"
  let ?j = "i div 64"
  let ?c = "field (64 * ?j) 64 ?f"
  note R = wal_of_records [OF assms(1)]
  assume "fst (verify_wal_integrity (Some ?f'))"
  then have v': "fst (verify_loop 0 (wal_records ?f'))"
    by (simp add: verify_wal_integrity_def split: if_splits)
  have v: "fst (verify_loop 0 (wal_records ?f))" using wal_of_verify [OF assms(1)] R by (simp add: verify_wal_integrity_def)
  have j: "?j < length ?f div 64" using assms(2) R(2) by auto
  have at: "wal_records ?f ! ?j = rr_decode ?c" "wal_records ?f' ! ?j = rr_decode (field (64 * ?j) 64 ?f')"
    using j by (simp_all add: wal_records_def chunks_nth)
  have lc: "length ?c = 64" using j R(2) by (intro length_field) simp
  have ip: "64 * ?j \<le> i" "i - 64 * ?j = i mod 64" by (simp_all add: minus_mult_div_eq_mod)
  then have "field (64 * ?j) 64 ?f' = ?c[i mod 64 := b]"
    by (simp add: field_def drop_update_swap take_update_swap)
  moreover have "?c ! (i mod 64) = ?f ! i" using ip assms(2,3) by (simp add: field_def)
  moreover have "record_valid (0 + of_nat ?j) (rr_decode ?c)"
    using verify_loop_valid [OF v, of ?j] j at(1) by (simp add: wal_records_def)
  ultimately have "\<not> record_valid (0 + of_nat ?j) (wal_records ?f' ! ?j)"
    using corrupt_record [OF lc _ assms(3), of _ b] assms(4) at(2) by simp
  then show False using verify_loop_valid [OF v', of ?j] j by (simp add: wal_records_def)
qed

theorem wal_corruption_detected_witness:
  "\<exists>(l' :: RecoveryLedger) b. rv_sequence l' = 1 \<and> b \<noteq> rv_file l' ! 16 \<and>
     \<not> fst (verify_wal_integrity (Some ((rv_file l')[16 := b])))"
proof -
  obtain l' where l': "append_and_flush [Interrupted, Wrote 64] True sample_ledger sample_event = Some (True, l')"
      "rv_sequence l' = 1"
    using sample_append by blast
  have w: "wal_of l' [sample_event]" using append_ok [OF sample_ledger_wal l'(1)] by simp
  have "rv_file l' ! 16 + 1 \<noteq> rv_file l' ! 16" by simp
  moreover have "\<not> fst (verify_wal_integrity (Some ((rv_file l')[16 := rv_file l' ! 16 + 1])))"
    using wal_of_records(2) [OF w] by (intro wal_corruption_detected [OF w]) simp_all
  ultimately show ?thesis using l'(2) by blast
qed

text \<open>
  C36: If \<open>fsync\<close> fails after a record was written, the ledger does not advance its sequence
  number: the next successful append writes a second record with the same number, and the log
  no longer verifies or replays.
\<close>

theorem wal_sync_failure_poisons:
  assumes wal: "wal_of l evs" and ev: "event_ok e1" "event_ok e2"
    and a1: "append_and_flush a1 False l e1 = Some (False, l1)" "length (rv_file l1) = length (rv_file l) + 64"
    and a2: "append_and_flush a2 True l1 e2 = Some (True, l2)"
  shows "\<not> fst (verify_wal_integrity (Some (rv_file l2))) \<and> \<not> fst (replay True capacity l2)"
proof -
  let ?n = "rv_sequence l"
  have o: "rv_fd l" "re_order_id e1 \<noteq> 0" "re_quantity e1 > 0" using wal ev(1) by (auto simp: wal_of_def event_ok_def)
  have l1: "length (rr_bytes (record_of ?n e1)) = 64" by (rule length_rr_bytes [OF record_of_ok [OF ev(1)]])
  obtain ok w where w: "write_all a1 (rr_bytes (record_of ?n e1)) = Some (ok, w)" "l1 = l\<lparr>rv_file := rv_file l @ w\<rparr>"
    using a1(1) o by (auto simp: append_and_flush_def append_with_side_def Let_def split: option.splits if_splits)
  have "w = rr_bytes (record_of ?n e1)" using write_all_prefix [OF w(1)] a1(2) w(2) l1 by auto
  then have l1': "l1 = l\<lparr>rv_file := rv_file l @ rr_bytes (record_of ?n e1)\<rparr>" using w(2) by simp
  have o2: "re_order_id e2 \<noteq> 0" "re_quantity e2 > 0" using ev(2) by (auto simp: event_ok_def)
  obtain w2 where w2: "write_all a2 (rr_bytes (record_of ?n e2)) = Some (True, w2)"
      "l2 = l1\<lparr>rv_file := rv_file l1 @ w2, rv_sequence := ?n + 1\<rparr>"
    using a2 o o2 l1' by (auto simp: append_and_flush_def append_with_side_def Let_def split: option.splits if_splits)
  then have "w2 = rr_bytes (record_of ?n e2)" using write_all_prefix [OF w2(1)] by auto
  then have f2: "rv_file l2 = concat (map rr_bytes (records_from 0 evs @ [record_of ?n e1, record_of ?n e2]))"
    using w2(2) l1' wal by (simp add: wal_of_def wal_bytes_def)
  let ?rs = "records_from 0 evs @ [record_of ?n e1, record_of ?n e2]"
  have ok: "rr_ok r" if "r \<in> set ?rs" for r
    using that records_from_ok [of evs r 0] wal record_of_ok ev by (auto simp: wal_of_def)
  have rs: "wal_records (rv_file l2) = ?rs" unfolding f2 by (rule wal_records_concat [OF ok])
  have "rr_sequence (?rs ! Suc (length evs)) = of_nat (length evs)"
    using wal by (simp add: nth_append record_of_sequence wal_of_def)
  then have bad: "\<not> record_valid (0 + of_nat (Suc (length evs))) (?rs ! Suc (length evs))"
    by (simp add: record_valid_def del: nth_append)
  have "\<not> fst (verify_loop 0 ?rs)" using verify_loop_valid [of 0 ?rs "Suc (length evs)"] bad by auto
  moreover have "\<not> fst (replay_loop capacity 0 ?rs [])"
    using replay_loop_valid [of capacity 0 ?rs "[]" "Suc (length evs)"] bad by auto
  moreover have "rv_file l2 \<noteq> []" using w2(2) l1' l1 by auto
  ultimately show ?thesis using rs by (simp add: verify_wal_integrity_def replay_def)
qed

theorem wal_sync_failure_poisons_witness:
  "\<exists>l1 l2. append_and_flush [Wrote 64] False sample_ledger sample_event = Some (False, l1) \<and>
    append_and_flush [Wrote 64] True l1 sample_event = Some (True, l2) \<and>
    \<not> fst (verify_wal_integrity (Some (rv_file l2)))"
proof -
  let ?bs = "rr_bytes (record_of 0 sample_event)"
  have l: "length ?bs = 64" by (simp add: length_rr_bytes record_of_ok sample_ledger_wal)
  then obtain b bs where bs: "?bs = b # bs" by (cases ?bs) auto
  then have w: "write_all [Wrote 64] ?bs = Some (True, ?bs)" using l by simp
  let ?l1 = "\<lparr>rv_fd = True, rv_sequence = 0, rv_file = ?bs\<rparr>"
  let ?l2 = "\<lparr>rv_fd = True, rv_sequence = 1, rv_file = ?bs @ ?bs\<rparr>"
  have s: "re_order_id sample_event \<noteq> 0" "\<not> re_quantity sample_event \<le> 0" by (simp_all add: sample_event_def)
  have "append_and_flush [Wrote 64] False sample_ledger sample_event = Some (False, ?l1)"
    "append_and_flush [Wrote 64] True ?l1 sample_event = Some (True, ?l2)"
    using w s by (simp_all add: append_and_flush_def append_with_side_def sample_ledger_def rv_open_def closed_ledger_def)
  then show ?thesis
    using wal_sync_failure_poisons [OF sample_ledger_wal(1,2,2), of "[Wrote 64]" ?l1 "[Wrote 64]" ?l2 1] l
    by (auto simp: sample_ledger_def rv_open_def closed_ledger_def)
qed

end
