(* ===== verification/Audit_Log.thy ===== *)
theory Audit_Log
  imports Bytes
begin

text \<open>
  \<open>DurableAuditLog\<close> of \<open>luv_safety.hpp\<close>: the hash-chained audit log as a byte sequence of
  112-byte events, its verification, and its manifest checkpoints.  SHA-256 is a parameter
  \<open>sha\<close> that may fail; the operating system's answers are arguments.  The theory shows that the
  log an engine writes verifies and reopens in the same state, that a rewritten history with the
  same root hash exhibits a collision, and that a checkpoint of the log verifies against it.
\<close>

section \<open>Events\<close>

record AuditEvent =
  ae_sequence :: u64
  ae_timestamp_ns :: u64
  ae_order_id :: u64
  ae_price :: int
  ae_quantity :: int
  ae_trader_id :: u16
  ae_side :: u8
  ae_type :: u8
  ae_previous_hash :: "u8 list"
  ae_hash :: "u8 list"
  ae_padding :: "u8 list"

text \<open>
  The layout: 44 bytes of fields, the two hashes, and four bytes of tail padding that align the
  structure to 112 bytes.
\<close>

definition ae_body :: "AuditEvent \<Rightarrow> u8 list" where
  "ae_body e = le_word (ae_sequence e) @ le_word (ae_timestamp_ns e) @ le_word (ae_order_id e) @
     le_i64 (ae_price e) @ le_i64 (ae_quantity e) @ le_word (ae_trader_id e) @ [ae_side e, ae_type e]"

definition ae_bytes :: "AuditEvent \<Rightarrow> u8 list" where
  "ae_bytes e = ae_body e @ ae_previous_hash e @ ae_hash e @ ae_padding e"

definition ae_decode :: "u8 list \<Rightarrow> AuditEvent" where
  "ae_decode bs =
     \<lparr>ae_sequence = of_le_word (field 0 8 bs), ae_timestamp_ns = of_le_word (field 8 8 bs),
      ae_order_id = of_le_word (field 16 8 bs), ae_price = of_le_i64 (field 24 8 bs),
      ae_quantity = of_le_i64 (field 32 8 bs), ae_trader_id = of_le_word (field 40 2 bs),
      ae_side = bs ! 42, ae_type = bs ! 43, ae_previous_hash = field 44 32 bs, ae_hash = field 76 32 bs,
      ae_padding = field 108 4 bs\<rparr>"

text \<open>
  What the hash covers: the previous hash, then \<open>sizeof(event) - 32 - 32\<close> bytes from
  \<open>sequence\<close>, which are the 44 bytes of fields and the first four bytes of the previous hash.
\<close>

definition hash_input :: "AuditEvent \<Rightarrow> u8 list" where
  "hash_input e = ae_previous_hash e @ ae_body e @ take 4 (ae_previous_hash e)"

definition valid_event :: "(u8 list \<Rightarrow> u8 list option) \<Rightarrow> AuditEvent \<Rightarrow> bool" where
  "valid_event sha e \<longleftrightarrow> (case sha (hash_input e) of None \<Rightarrow> False | Some h \<Rightarrow> h = ae_hash e)"

definition zero_hash :: "u8 list" where
  "zero_hash = replicate 32 0"

section \<open>The log\<close>

record DurableAuditLog =
  al_fd :: bool
  al_sync_interval :: u32
  al_pending :: u32
  al_sequence :: u64
  al_tail :: "u8 list"
  al_file :: "u8 list"

definition closed_log :: DurableAuditLog where
  "closed_log = \<lparr>al_fd = False, al_sync_interval = 100, al_pending = 0, al_sequence = 0,
     al_tail = zero_hash, al_file = []\<rparr>"

definition audit_events :: "u8 list \<Rightarrow> AuditEvent list" where
  "audit_events file = map ae_decode (chunks 112 file)"

text \<open>
  The loop of \<open>validate_existing_records\<close> and \<open>verify_log_integrity\<close>: the events already
  accepted and the hash the next one has to continue.
\<close>

fun validate_loop ::
    "(u8 list \<Rightarrow> u8 list option) \<Rightarrow> u64 \<Rightarrow> u8 list \<Rightarrow> AuditEvent list \<Rightarrow> bool \<times> u64 \<times> u8 list" where
  "validate_loop sha sequence previous [] = (True, sequence, previous)"
| "validate_loop sha sequence previous (e # es) =
     (if ae_sequence e \<noteq> sequence \<or> ae_previous_hash e \<noteq> previous \<or> \<not> valid_event sha e
      then (False, sequence, previous)
      else validate_loop sha (sequence + 1) (ae_hash e) es)"

definition al_flush :: "bool \<Rightarrow> DurableAuditLog \<Rightarrow> bool \<times> DurableAuditLog" where
  "al_flush synced l =
     (if \<not> al_fd l then (False, l) else if \<not> synced then (False, l) else (True, l\<lparr>al_pending := 0\<rparr>))"

definition al_close :: "bool \<Rightarrow> DurableAuditLog \<Rightarrow> DurableAuditLog" where
  "al_close synced l = (if \<not> al_fd l then l else (snd (al_flush synced l))\<lparr>al_fd := False\<rparr>)"

definition validate_existing_records ::
    "(u8 list \<Rightarrow> u8 list option) \<Rightarrow> DurableAuditLog \<Rightarrow> bool \<times> DurableAuditLog" where
  "validate_existing_records sha l =
     (case validate_loop sha (al_sequence l) zero_hash (audit_events (al_file l)) of
        (ok, sequence, previous) \<Rightarrow>
          (ok, l\<lparr>al_sequence := sequence, al_tail := (if ok then previous else al_tail l)\<rparr>))"

text \<open>\<open>open\<close>, with the content of the file, \<open>None\<close> if it cannot be opened, and whether \<open>fsync\<close> works.\<close>

definition al_open ::
    "(u8 list \<Rightarrow> u8 list option) \<Rightarrow> bool \<Rightarrow> u8 list option \<Rightarrow> u32 \<Rightarrow> DurableAuditLog \<Rightarrow> bool \<times> DurableAuditLog" where
  "al_open sha synced file sync_interval l =
     (if al_fd l \<or> sync_interval = 0 then (False, l)
      else case file of
        None \<Rightarrow> (False, l)
      | Some bs \<Rightarrow>
          let l1 = l\<lparr>al_fd := True, al_sync_interval := sync_interval, al_pending := 0, al_tail := zero_hash,
                     al_file := bs\<rparr>
          in if length bs mod 112 \<noteq> 0 then (False, al_close synced l1)
             else case validate_existing_records sha (l1\<lparr>al_sequence := 0\<rparr>) of
               (ok, l2) \<Rightarrow> if ok then (True, l2) else (False, al_close synced l2))"

text \<open>The fields of the event that \<open>append\<close> builds; \<open>AuditEvent event{}\<close> zeroes the rest.\<close>

definition new_event :: "DurableAuditLog \<Rightarrow> u64 \<Rightarrow> u64 \<Rightarrow> int \<Rightarrow> int \<Rightarrow> u16 \<Rightarrow> u8 \<Rightarrow> u8 \<Rightarrow> AuditEvent" where
  "new_event l timestamp_ns order_id price quantity trader_id side type =
     \<lparr>ae_sequence = al_sequence l, ae_timestamp_ns = timestamp_ns, ae_order_id = order_id, ae_price = price,
      ae_quantity = quantity, ae_trader_id = trader_id, ae_side = side, ae_type = type,
      ae_previous_hash = al_tail l, ae_hash = zero_hash, ae_padding = replicate 4 0\<rparr>"

definition al_append ::
    "(u8 list \<Rightarrow> u8 list option) \<Rightarrow> write_answer list \<Rightarrow> bool \<Rightarrow> DurableAuditLog \<Rightarrow>
     u64 \<Rightarrow> u64 \<Rightarrow> int \<Rightarrow> int \<Rightarrow> u16 \<Rightarrow> u8 \<Rightarrow> u8 \<Rightarrow> (bool \<times> DurableAuditLog) option" where
  "al_append sha answers synced l timestamp_ns order_id price quantity trader_id side type =
     (if \<not> al_fd l \<or> order_id = 0 \<or> quantity \<le> 0 \<or> side > 1 then Some (False, l)
      else
        let event = new_event l timestamp_ns order_id price quantity trader_id side type in
        case sha (hash_input event) of
          None \<Rightarrow> Some (False, l)
        | Some h \<Rightarrow>
            let event = event\<lparr>ae_hash := h\<rparr> in
            case write_all answers (ae_bytes event) of
              None \<Rightarrow> None
            | Some (ok, written) \<Rightarrow>
                let l1 = l\<lparr>al_file := al_file l @ written\<rparr> in
                if \<not> ok then Some (False, l1)
                else
                  let l2 = l1\<lparr>al_tail := h, al_sequence := al_sequence l + 1, al_pending := al_pending l + 1\<rparr> in
                  if al_pending l2 < al_sync_interval l2 then Some (True, l2) else Some (al_flush synced l2))"

text \<open>The verdict, \<open>valid_events\<close> and the root hash, which is written on success only.\<close>

definition verify_log_integrity ::
    "(u8 list \<Rightarrow> u8 list option) \<Rightarrow> u8 list option \<Rightarrow> bool \<times> u64 \<times> u8 list option" where
  "verify_log_integrity sha file =
     (case file of
        None \<Rightarrow> (False, 0, None)
      | Some bs \<Rightarrow>
          if length bs mod 112 \<noteq> 0 then (False, 0, None)
          else case validate_loop sha 0 zero_hash (audit_events bs) of
            (ok, valid_events, prev_hash) \<Rightarrow> (ok, valid_events, if ok then Some prev_hash else None))"

text \<open>
  \<open>read_range\<close>: the loop of positional reads, up to the first that does not return a whole event.  The
  start offset is a product in 64-bit unsigned arithmetic, read as a signed \<open>off_t\<close>; a read at a
  negative offset fails.
\<close>

fun read_events :: "u8 list \<Rightarrow> int \<Rightarrow> nat \<Rightarrow> AuditEvent list" where
  "read_events file offset 0 = []"
| "read_events file offset (Suc n) =
     (if offset < 0 \<or> offset + 112 > int (length file) then []
      else ae_decode (field (nat offset) 112 file) # read_events file (offset + 112) n)"

definition read_range :: "DurableAuditLog \<Rightarrow> u64 \<Rightarrow> u64 \<Rightarrow> nat \<Rightarrow> bool \<times> AuditEvent list" where
  "read_range l start_seq end_seq max_events =
     (if \<not> al_fd l \<or> max_events = 0 \<or> start_seq > end_seq then (False, [])
      else
        let start_offset = sint (start_seq * 112);
            req_count = end_seq - start_seq + 1;
            to_read = (if unat req_count < max_events then unat req_count else max_events);
            evs = read_events (al_file l) start_offset to_read
        in (evs \<noteq> [], evs))"

section \<open>Manifest checkpoints\<close>

record AuditManifestCheckpoint =
  mf_magic :: u32
  mf_version :: u32
  mf_start_sequence :: u64
  mf_end_sequence :: u64
  mf_start_timestamp_ns :: u64
  mf_end_timestamp_ns :: u64
  mf_event_count :: u64
  mf_start_hash :: "u8 list"
  mf_end_hash :: "u8 list"
  mf_manifest_hash :: "u8 list"

definition mf_head :: "AuditManifestCheckpoint \<Rightarrow> u8 list" where
  "mf_head c = le_word (mf_magic c) @ le_word (mf_version c) @ le_word (mf_start_sequence c) @
     le_word (mf_end_sequence c) @ le_word (mf_start_timestamp_ns c) @ le_word (mf_end_timestamp_ns c) @
     le_word (mf_event_count c) @ mf_start_hash c @ mf_end_hash c"

definition mf_bytes :: "AuditManifestCheckpoint \<Rightarrow> u8 list" where
  "mf_bytes c = mf_head c @ mf_manifest_hash c"

definition mf_decode :: "u8 list \<Rightarrow> AuditManifestCheckpoint" where
  "mf_decode bs =
     \<lparr>mf_magic = of_le_word (field 0 4 bs), mf_version = of_le_word (field 4 4 bs),
      mf_start_sequence = of_le_word (field 8 8 bs), mf_end_sequence = of_le_word (field 16 8 bs),
      mf_start_timestamp_ns = of_le_word (field 24 8 bs), mf_end_timestamp_ns = of_le_word (field 32 8 bs),
      mf_event_count = of_le_word (field 40 8 bs), mf_start_hash = field 48 32 bs, mf_end_hash = field 80 32 bs,
      mf_manifest_hash = field 112 32 bs\<rparr>"

text \<open>
  \<open>write_manifest_checkpoint\<close>, with the content of the manifest file, \<open>None\<close> if it cannot be
  opened, and the number of bytes its one \<open>write\<close> call takes.
\<close>

definition write_manifest_checkpoint ::
    "(u8 list \<Rightarrow> u8 list option) \<Rightarrow> bool \<Rightarrow> nat \<Rightarrow> DurableAuditLog \<Rightarrow> u8 list option \<Rightarrow> u64 \<Rightarrow> u64 \<Rightarrow>
     bool \<times> DurableAuditLog \<times> u8 list option" where
  "write_manifest_checkpoint sha synced taken l manifest start_seq end_seq =
     (if \<not> al_fd l \<or> start_seq > end_seq \<or> end_seq \<ge> al_sequence l then (False, l, manifest)
      else
        let l1 = snd (al_flush synced l);
            evs = audit_events (al_file l1)
        in if unat start_seq \<ge> length evs \<or> unat end_seq \<ge> length evs then (False, l1, manifest)
           else
             let first_event = evs ! unat start_seq;
                 last_event = evs ! unat end_seq;
                 checkpoint = \<lparr>mf_magic = 0x4D4E4653, mf_version = 1, mf_start_sequence = start_seq,
                    mf_end_sequence = end_seq, mf_start_timestamp_ns = ae_timestamp_ns first_event,
                    mf_end_timestamp_ns = ae_timestamp_ns last_event, mf_event_count = end_seq - start_seq + 1,
                    mf_start_hash = ae_previous_hash first_event, mf_end_hash = ae_hash last_event,
                    mf_manifest_hash = zero_hash\<rparr>
             in case sha (mf_head checkpoint) of
                  None \<Rightarrow> (False, l1, manifest)
                | Some h \<Rightarrow>
                    (case manifest of
                       None \<Rightarrow> (False, l1, manifest)
                     | Some bs \<Rightarrow>
                         (taken = 144, l1, Some (bs @ take taken (mf_bytes (checkpoint\<lparr>mf_manifest_hash := h\<rparr>))))))"

fun manifest_loop ::
    "(u8 list \<Rightarrow> u8 list option) \<Rightarrow> u8 list \<Rightarrow> AuditEvent list \<Rightarrow> bool" where
  "manifest_loop sha expected [] \<longleftrightarrow> True"
| "manifest_loop sha expected (e # es) \<longleftrightarrow>
     ae_previous_hash e = expected \<and> valid_event sha e \<and> manifest_loop sha (ae_hash e) es"

text \<open>
  \<open>verify_manifest\<close> reads the first checkpoint of the manifest file.  The seek to the first event fails
  when its 64-bit offset is negative as an \<open>off_t\<close>; for a range inside the file it never is.
\<close>

definition verify_manifest :: "(u8 list \<Rightarrow> u8 list option) \<Rightarrow> u8 list option \<Rightarrow> u8 list option \<Rightarrow> bool" where
  "verify_manifest sha log manifest =
     (case manifest of
        None \<Rightarrow> False
      | Some ms \<Rightarrow>
          if length ms < 144 then False
          else
            let checkpoint = mf_decode (take 144 ms) in
            if mf_magic checkpoint \<noteq> 0x4D4E4653 \<or> mf_version checkpoint \<noteq> 1 then False
            else case sha (mf_head checkpoint) of
              None \<Rightarrow> False
            | Some expected_mhash \<Rightarrow>
                if expected_mhash \<noteq> mf_manifest_hash checkpoint then False
                else case log of
                  None \<Rightarrow> False
                | Some ls \<Rightarrow>
                    let evs = audit_events ls;
                        seg = take (unat (mf_end_sequence checkpoint) + 1 - unat (mf_start_sequence checkpoint))
                                (drop (unat (mf_start_sequence checkpoint)) evs)
                    in if unat (mf_end_sequence checkpoint) \<ge> length evs then False
                       else if mf_start_sequence checkpoint > mf_end_sequence checkpoint \<and>
                         sint (mf_start_sequence checkpoint * 112) < 0 then False
                       else manifest_loop sha (mf_start_hash checkpoint) seg \<and>
                         (if seg = [] then zero_hash else ae_hash (last seg)) = mf_end_hash checkpoint)"

section \<open>Encoding round trip\<close>

definition ae_ok :: "AuditEvent \<Rightarrow> bool" where
  "ae_ok e \<longleftrightarrow> length (ae_previous_hash e) = 32 \<and> length (ae_hash e) = 32 \<and> length (ae_padding e) = 4 \<and>
     i64 (ae_price e) \<and> i64 (ae_quantity e)"

lemma length_ae_body [simp]: "length (ae_body e) = 44"
  by (simp add: ae_body_def word_lengths)

lemma length_ae_bytes: "ae_ok e \<Longrightarrow> length (ae_bytes e) = 112"
  by (simp add: ae_bytes_def ae_ok_def)

lemma ae_decode_bytes: "ae_ok e \<Longrightarrow> ae_decode (ae_bytes e) = e"
  by (simp add: ae_decode_def ae_bytes_def ae_body_def ae_ok_def field_def word_lengths word_round_trips
      of_le_i64_le nth_append)

lemma ae_ok_decode: "length bs = 112 \<Longrightarrow> ae_ok (ae_decode bs)"
  by (simp add: ae_ok_def ae_decode_def length_field of_le_i64_def s64_i64)

lemma ae_body_decode: "length bs = 112 \<Longrightarrow> ae_body (ae_decode bs) = take 44 bs"
proof -
  assume l: "length bs = 112"
  have "ae_body (ae_decode bs) = take 8 bs @ field 8 8 bs @ field 16 8 bs @ field 24 8 bs @ field 32 8 bs @
      field 40 2 bs @ field 42 1 bs @ field 43 1 bs"
    using l field_1 [of 42 bs] field_1 [of 43 bs]
    by (simp add: ae_body_def ae_decode_def word_reads le_i64_of_le length_field) (simp add: field_def)
  also have "\<dots> = take 44 bs" by (simp add: take_field_append take_field del: One_nat_def)
  finally show ?thesis .
qed

lemma ae_bytes_decode: "length bs = 112 \<Longrightarrow> ae_bytes (ae_decode bs) = bs"
proof -
  assume l: "length bs = 112"
  have "ae_bytes (ae_decode bs) = take 44 bs @ field 44 32 bs @ field 76 32 bs @ field 108 4 bs"
    unfolding ae_bytes_def ae_body_decode [OF l] by (simp add: ae_decode_def)
  then show ?thesis using l by (simp add: take_field_append take_field)
qed

lemma audit_events_concat: "(\<And>e. e \<in> set es \<Longrightarrow> ae_ok e) \<Longrightarrow> audit_events (concat (map ae_bytes es)) = es"
proof -
  assume ok: "\<And>e. e \<in> set es \<Longrightarrow> ae_ok e"
  then have "chunks 112 (concat (map ae_bytes es)) = map ae_bytes es"
    by (intro chunks_concat) (auto simp: length_ae_bytes)
  then show ?thesis using ok by (simp add: audit_events_def comp_def ae_decode_bytes map_idI)
qed

lemma length_concat_events:
  "(\<And>e. e \<in> set es \<Longrightarrow> ae_ok e) \<Longrightarrow> length (concat (map ae_bytes es)) = 112 * length es"
  by (subst length_concat_same [of _ 112]) (auto simp: length_ae_bytes)

section \<open>What the log holds\<close>

definition sha_sized :: "(u8 list \<Rightarrow> u8 list option) \<Rightarrow> bool" where
  "sha_sized sha \<longleftrightarrow> (\<forall>x h. sha x = Some h \<longrightarrow> length h = 32)"

definition log_of :: "(u8 list \<Rightarrow> u8 list option) \<Rightarrow> DurableAuditLog \<Rightarrow> AuditEvent list \<Rightarrow> bool" where
  "log_of sha l es \<longleftrightarrow> al_fd l \<and> (\<forall>e\<in>set es. ae_ok e) \<and> al_file l = concat (map ae_bytes es) \<and>
     validate_loop sha 0 zero_hash es = (True, al_sequence l, al_tail l) \<and> length (al_tail l) = 32"

lemma log_of_events:
  assumes "log_of sha l es"
  shows "audit_events (al_file l) = es" "length (al_file l) = 112 * length es"
  using assms audit_events_concat [of es] length_concat_events [of es] by (auto simp: log_of_def)

lemma validate_loop_append:
  "validate_loop sha n p (xs @ ys) =
   (case validate_loop sha n p xs of (ok, n', p') \<Rightarrow> if ok then validate_loop sha n' p' ys else (ok, n', p'))"
  by (induction xs arbitrary: n p) auto

lemma validate_loop_count: "validate_loop sha n p es = (True, m, q) \<Longrightarrow> m = n + of_nat (length es)"
proof (induction es arbitrary: n p)
  case (Cons e es)
  then have "validate_loop sha (n + 1) (ae_hash e) es = (True, m, q)" by (simp split: if_splits)
  then show ?case using Cons.IH [of "n + 1" "ae_hash e"] by (simp add: add.assoc)
qed simp

lemma log_of_sequence: "log_of sha l es \<Longrightarrow> al_sequence l = of_nat (length es)"
  using validate_loop_count [of sha 0 zero_hash es] by (auto simp: log_of_def)

text \<open>An append that wrote the whole event extends the chain, whatever \<open>fsync\<close> answers.\<close>

lemma append_extends:
  assumes sha: "sha_sized sha" and log: "log_of sha l es"
    and args: "i64 price" "i64 quantity"
    and ap: "al_append sha answers synced l ts oid price quantity trader side type = Some (ok, l')"
    and full: "length (al_file l') = length (al_file l) + 112"
  shows "\<exists>e. log_of sha l' (es @ [e]) \<and> ae_order_id e = oid \<and> ae_price e = price \<and> ae_quantity e = quantity \<and>
    ae_timestamp_ns e = ts \<and> ae_side e = side \<and> ae_type e = type"
proof -
  let ?e = "new_event l ts oid price quantity trader side type"
  have g: "al_fd l" "oid \<noteq> 0" "\<not> quantity \<le> 0" "\<not> side > 1"
  proof -
    have "\<not> (\<not> al_fd l \<or> oid = 0 \<or> quantity \<le> 0 \<or> side > 1)"
    proof
      assume "\<not> al_fd l \<or> oid = 0 \<or> quantity \<le> 0 \<or> side > 1"
      then have "l' = l" using ap by (simp add: al_append_def)
      then show False using full by simp
    qed
    then show "al_fd l" "oid \<noteq> 0" "\<not> quantity \<le> 0" "\<not> side > 1" by auto
  qed
  obtain h where h: "sha (hash_input ?e) = Some h"
    using ap full g by (cases "sha (hash_input ?e)") (auto simp: al_append_def Let_def)
  let ?f = "?e\<lparr>ae_hash := h\<rparr>"
  have ok: "ae_ok ?f" using sha h log args by (auto simp: ae_ok_def new_event_def sha_sized_def log_of_def)
  obtain w wok where w: "write_all answers (ae_bytes ?f) = Some (wok, w)"
    using ap h g by (cases "write_all answers (ae_bytes ?f)") (auto simp: al_append_def Let_def)
  have wf: "al_file l' = al_file l @ w"
    and l': "wok \<Longrightarrow> al_fd l' \<and> al_tail l' = h \<and> al_sequence l' = al_sequence l + 1"
    using ap h g w by (auto simp: al_append_def al_flush_def Let_def split: if_splits)
  have "length w = 112" using full wf by simp
  then have weq: "w = ae_bytes ?f"
    using write_all_prefix [OF w] length_ae_bytes [OF ok] by auto
  have wok using w unfolding weq by (rule write_all_full)
  note l' = l' [OF this]
  have "valid_event sha ?f" using h by (simp add: valid_event_def hash_input_def ae_body_def)
  then have "validate_loop sha 0 zero_hash (es @ [?f]) = (True, al_sequence l', al_tail l')"
    using log l' by (auto simp: validate_loop_append log_of_def new_event_def)
  moreover have "length h = 32" using sha h by (auto simp: sha_sized_def)
  ultimately have "log_of sha l' (es @ [?f])"
    using log ok l' wf weq by (auto simp: log_of_def)
  then show ?thesis by (intro exI [of _ ?f]) (simp add: new_event_def)
qed

section \<open>Two histories with one root\<close>

definition same_event :: "AuditEvent \<Rightarrow> AuditEvent \<Rightarrow> bool" where
  "same_event e f \<longleftrightarrow> ae_body e = ae_body f \<and> ae_previous_hash e = ae_previous_hash f \<and> ae_hash e = ae_hash f"

text \<open>Two events of which the hash function was computed on different bytes, with one result.\<close>

definition collide :: "(u8 list \<Rightarrow> u8 list option) \<Rightarrow> AuditEvent \<Rightarrow> AuditEvent \<Rightarrow> bool" where
  "collide sha e f \<longleftrightarrow> hash_input e \<noteq> hash_input f \<and> sha (hash_input e) = sha (hash_input f) \<and> sha (hash_input e) \<noteq> None"

lemma same_hash_event:
  assumes "valid_event sha e" "valid_event sha f" "ae_hash e = ae_hash f" "\<not> collide sha e f"
    "length (ae_previous_hash e) = 32" "length (ae_previous_hash f) = 32"
  shows "same_event e f"
proof -
  have "sha (hash_input e) = Some (ae_hash e)" "sha (hash_input f) = Some (ae_hash f)"
    using assms(1,2) by (auto simp: valid_event_def split: option.splits)
  then have "hash_input e = hash_input f" using assms(3,4) unfolding collide_def by auto
  then have "ae_previous_hash e = ae_previous_hash f \<and> ae_body e = ae_body f"
    using assms(5,6) by (simp add: hash_input_def)
  then show ?thesis using assms(3) by (simp add: same_event_def)
qed

lemma validate_last:
  assumes "validate_loop sha n p (es @ [e]) = (True, m, r)"
  shows "validate_loop sha n p es = (True, ae_sequence e, ae_previous_hash e)" "valid_event sha e" "ae_hash e = r"
  using assms by (auto simp: validate_loop_append split: prod.splits if_splits)

lemma validate_count: "validate_loop sha n p es = (True, m, r) \<Longrightarrow> m = n + of_nat (length es)"
  by (induction es arbitrary: n p) (fastforce split: if_splits simp: add.assoc)+

lemma same_root:
  assumes "length es = length fs" "\<forall>e\<in>set es. \<forall>f\<in>set fs. \<not> collide sha e f"
    "\<forall>e\<in>set es \<union> set fs. length (ae_previous_hash e) = 32"
    "validate_loop sha n p es = (True, m, r)" "validate_loop sha n' p' fs = (True, m', r)"
  shows "list_all2 same_event es fs"
  using assms
proof (induction es arbitrary: fs m m' r rule: rev_induct)
  case Nil
  then show ?case by simp
next
  case (snoc e es)
  then obtain fs1 f where fs: "fs = fs1 @ [f]" by (cases fs rule: rev_cases) auto
  note v = validate_last [OF snoc.prems(4)] and v' = validate_last [OF snoc.prems(5) [unfolded fs]]
  have se: "same_event e f"
    using v v' snoc.prems(2,3) fs by (intro same_hash_event [of sha]) auto
  then have "ae_previous_hash e = ae_previous_hash f" by (simp add: same_event_def)
  then have "list_all2 same_event es fs1"
    using snoc.IH [of fs1] v v' snoc.prems(1,2,3) fs by auto
  then show ?case using se fs by (simp add: list_all2_appendI)
qed

text \<open>Histories of different lengths differ in the sequence number of their last events.\<close>

lemma same_root_length:
  assumes "es \<noteq> []" "fs \<noteq> []" "length es < 2 ^ 64" "length fs < 2 ^ 64" "\<forall>e\<in>set es. \<forall>f\<in>set fs. \<not> collide sha e f"
    "\<forall>e\<in>set es \<union> set fs. length (ae_previous_hash e) = 32"
    "validate_loop sha 0 p es = (True, m, r)" "validate_loop sha 0 p' fs = (True, m', r)"
  shows "length es = length fs"
proof -
  obtain es1 e fs1 f where ef: "es = es1 @ [e]" "fs = fs1 @ [f]" using assms(1,2) by (metis rev_exhaust)
  note v = validate_last [OF assms(7) [unfolded ef]] and v' = validate_last [OF assms(8) [unfolded ef]]
  have "same_event e f" using v v' assms(5,6) ef by (intro same_hash_event [of sha]) auto
  then have "ae_body e = ae_body f" by (simp add: same_event_def)
  moreover have "take 8 (ae_body x) = le_word (ae_sequence x)" for x by (simp add: ae_body_def word_lengths)
  ultimately have "le_word (ae_sequence e) = le_word (ae_sequence f)" by metis
  then have "(of_le_word (le_word (ae_sequence e)) :: u64) = of_le_word (le_word (ae_sequence f))" by (rule arg_cong)
  moreover have "of_le_word (le_word w) = w" for w :: u64 by (rule of_le_word_le) simp
  ultimately have "ae_sequence e = ae_sequence f" by metis
  then have "(of_nat (length es1) :: u64) = of_nat (length fs1)" using validate_count [OF v(1)] validate_count [OF v'(1)] by simp
  then have "unat (of_nat (length es1) :: u64) = unat (of_nat (length fs1) :: u64)" by (rule arg_cong)
  then show ?thesis using assms(3,4) ef by (simp add: unat_of_nat)
qed

lemma same_event_bytes:
  assumes "length b = 112" "length c = 112" "same_event (ae_decode b) (ae_decode c)"
  shows "take 108 b = take 108 c"
proof -
  have "take 108 x = take 44 x @ field 44 32 x @ field 76 32 x" for x :: "u8 list"
    by (simp add: take_field_append take_field)
  moreover have "take 44 b = take 44 c"
    using assms(3) unfolding same_event_def ae_body_decode [OF assms(1)] ae_body_decode [OF assms(2)] by blast
  moreover have "field 44 32 b = field 44 32 c" "field 76 32 b = field 76 32 c"
    using assms(3) by (simp_all add: same_event_def ae_decode_def)
  ultimately show ?thesis by simp
qed

section \<open>Checkpoints\<close>

lemma validate_manifest: "validate_loop sha n p es = (True, m, q) \<Longrightarrow> manifest_loop sha p es"
  by (induction es arbitrary: n p) (auto split: if_splits)

lemma manifest_take: "manifest_loop sha p es \<Longrightarrow> manifest_loop sha p (take k es)"
  by (induction es arbitrary: p k) (auto simp: take_Cons split: nat.splits)

lemma manifest_drop: "manifest_loop sha p es \<Longrightarrow> k < length es \<Longrightarrow> manifest_loop sha (ae_previous_hash (es ! k)) (drop k es)"
proof (induction es arbitrary: p k)
  case (Cons e es)
  then show ?case by (cases k) auto
qed simp

lemma mf_decode_bytes:
  "length (mf_start_hash c) = 32 \<Longrightarrow> length (mf_end_hash c) = 32 \<Longrightarrow> length (mf_manifest_hash c) = 32 \<Longrightarrow>
   mf_decode (mf_bytes c) = c \<and> length (mf_bytes c) = 144"
  by (simp add: mf_decode_def mf_bytes_def mf_head_def field_def word_lengths word_round_trips)

lemma segment_last:
  "a \<le> b \<Longrightarrow> b < length es \<Longrightarrow> take (b + 1 - a) (drop a es) \<noteq> [] \<and> last (take (b + 1 - a) (drop a es)) = es ! b"
  by (subst last_conv_nth) auto

section \<open>Properties\<close>

text \<open>
  C12: An event whose bytes all reached the file extends the log by exactly that event, whether
  or not the following \<open>fsync\<close> succeeds; the file then verifies with the log's tail as root hash,
  and reopening it resumes with the same sequence number and tail.
\<close>

theorem audit_roundtrip:
  assumes "sha_sized sha" "log_of sha l es" "i64 price" "i64 quantity"
    "al_append sha answers synced l ts oid price quantity trader side type = Some (ok, l')"
    "length (al_file l') = length (al_file l) + 112" "interval \<noteq> 0"
  shows "(\<exists>e. log_of sha l' (es @ [e]) \<and> ae_order_id e = oid \<and> ae_price e = price \<and> ae_quantity e = quantity \<and>
      ae_timestamp_ns e = ts \<and> ae_side e = side \<and> ae_type e = type) \<and>
    verify_log_integrity sha (Some (al_file l')) = (True, of_nat (length es + 1), Some (al_tail l')) \<and>
    (\<exists>l2. al_open sha synced' (Some (al_file l')) interval closed_log = (True, l2) \<and>
      al_sequence l2 = al_sequence l' \<and> al_tail l2 = al_tail l' \<and> al_file l2 = al_file l')"
proof -
  obtain e where e: "log_of sha l' (es @ [e])" "ae_order_id e = oid \<and> ae_price e = price \<and> ae_quantity e = quantity \<and>
      ae_timestamp_ns e = ts \<and> ae_side e = side \<and> ae_type e = type"
    using append_extends [OF assms(1-6)] by blast
  note ev = log_of_events [OF e(1)]
  have v: "validate_loop sha 0 zero_hash (es @ [e]) = (True, al_sequence l', al_tail l')"
    using e(1) by (simp add: log_of_def)
  have "verify_log_integrity sha (Some (al_file l')) = (True, of_nat (length es + 1), Some (al_tail l'))"
    using ev v log_of_sequence [OF e(1)] by (simp add: verify_log_integrity_def)
  moreover have "\<exists>l2. al_open sha synced' (Some (al_file l')) interval closed_log = (True, l2) \<and>
      al_sequence l2 = al_sequence l' \<and> al_tail l2 = al_tail l' \<and> al_file l2 = al_file l'"
    using ev v assms(7) by (simp add: al_open_def closed_log_def Let_def validate_existing_records_def)
  ultimately show ?thesis using e by blast
qed

definition sample_sha :: "u8 list \<Rightarrow> u8 list option" where
  "sample_sha x = Some (take 32 (x @ zero_hash))"

definition sample_log :: DurableAuditLog where
  "sample_log = snd (al_open sample_sha True (Some []) 100 closed_log)"

lemma sample_log_of: "sha_sized sample_sha" "log_of sample_sha sample_log []" "al_fd sample_log" "al_file sample_log = []"
  by (simp_all add: sample_log_def al_open_def closed_log_def Let_def validate_existing_records_def
      audit_events_def log_of_def sha_sized_def sample_sha_def zero_hash_def min_def)

lemma sample_event_appends:
  "\<exists>l'. al_append sample_sha [Wrote 100, Interrupted, Wrote 12] True sample_log 5 7 5000 100 0 1 65 = Some (True, l') \<and>
     length (al_file l') = 112"
proof -
  let ?e = "new_event sample_log 5 7 5000 100 0 1 65"
  obtain h where h: "sample_sha (hash_input ?e) = Some h" by (simp add: sample_sha_def)
  have ok: "ae_ok (?e\<lparr>ae_hash := h\<rparr>)"
    using h sample_log_of by (auto simp: ae_ok_def new_event_def log_of_def sha_sized_def i64_bounds)
  let ?bs = "ae_bytes (?e\<lparr>ae_hash := h\<rparr>)"
  have l: "length ?bs = 112" by (rule length_ae_bytes [OF ok])
  then obtain b bs where bs: "?bs = b # bs" by (cases ?bs) auto
  have "length (drop 100 ?bs) = 12" using l by simp
  then obtain c cs where cs: "drop 100 ?bs = c # cs" "length cs = 11" by (cases "drop 100 ?bs") auto
  have "write_all [Wrote 100, Interrupted, Wrote 12] ?bs = Some (True, ?bs)"
    using bs cs l append_take_drop_id [of 100 ?bs] by simp
  then show ?thesis
    using h l sample_log_of
    by (simp add: al_append_def Let_def) (simp add: sample_log_def al_open_def closed_log_def Let_def
        validate_existing_records_def audit_events_def)
qed

theorem audit_roundtrip_witness:
  "\<exists>l'. al_append sample_sha [Wrote 100, Interrupted, Wrote 12] True sample_log 5 7 5000 100 0 1 65 = Some (True, l') \<and>
     verify_log_integrity sample_sha (Some (al_file l')) = (True, 1, Some (al_tail l'))"
proof -
  obtain l' where l': "al_append sample_sha [Wrote 100, Interrupted, Wrote 12] True sample_log 5 7 5000 100 0 1 65 = Some (True, l')"
      "length (al_file l') = 112"
    using sample_event_appends by blast
  show ?thesis
    using audit_roundtrip [OF sample_log_of(1,2) _ _ l'(1), of 100 True] l' sample_log_of(4)
    by (simp add: i64_bounds)
qed

lemma chunk_length: "j < length h div 112 \<Longrightarrow> length (chunks 112 h ! j) = 112"
proof -
  assume j: "j < length h div 112"
  then have "112 * j + 112 \<le> length h"
    by (metis add.commute less_eq_div_iff_mult_less_eq mult.commute mult_Suc_right Suc_leI zero_less_numeral)
  then show ?thesis using j by (simp add: chunks_nth length_field)
qed

lemma verified_events:
  assumes "verify_log_integrity sha (Some f) = (True, n, Some r)"
  shows "length f mod 112 = 0" "validate_loop sha 0 zero_hash (audit_events f) = (True, n, r)"
    "\<forall>e\<in>set (audit_events f). length (ae_previous_hash e) = 32"
proof -
  show "length f mod 112 = 0" "validate_loop sha 0 zero_hash (audit_events f) = (True, n, r)"
    using assms by (auto simp: verify_log_integrity_def split: if_splits prod.splits)
  show "\<forall>e\<in>set (audit_events f). length (ae_previous_hash e) = 32"
    using chunk_length ae_ok_decode by (auto simp: audit_events_def in_set_conv_nth ae_ok_def)
qed

lemma same_events_bytes:
  assumes "list_all2 same_event (audit_events f) (audit_events g)" "length f = length g" "length f mod 112 = 0"
    "i < length f" "i mod 112 < 108"
  shows "f ! i = g ! i"
proof -
  let ?j = "i div 112"
  have j: "?j < length f div 112" "?j < length g div 112" using assms(2-4) by auto
  then have "same_event (ae_decode (chunks 112 f ! ?j)) (ae_decode (chunks 112 g ! ?j))"
    using list_all2_nthD [OF assms(1), of ?j] by (simp add: audit_events_def)
  then have "take 108 (chunks 112 f ! ?j) = take 108 (chunks 112 g ! ?j)"
    using same_event_bytes chunk_length j by blast
  then have "chunks 112 f ! ?j ! (i mod 112) = chunks 112 g ! ?j ! (i mod 112)"
    using assms(5) by (metis nth_take)
  moreover have "chunks 112 h ! ?j ! (i mod 112) = h ! i" if "length h = length f" for h
    using j that assms(4) by (simp add: chunks_nth field_def)
  ultimately show ?thesis using assms(2) by simp
qed

text \<open>
  C11: If two non-empty files verify with the same root hash, then they have the same length and
  agree on every byte of every event except the four bytes of structure padding, or the two histories
  themselves contain a collision: an event of the one and an event of the other whose hashed bytes
  differ and hash to the same value.  So a rewritten, truncated or extended history with an unchanged
  root hands its reader a collision.  Files have fewer than \<open>2 ^ 64\<close> bytes.
\<close>

theorem audit_tamper_evident:
  assumes "f \<noteq> []" "g \<noteq> []" "length f < 2 ^ 64" "length g < 2 ^ 64"
    "verify_log_integrity sha (Some f) = (True, n, Some r)" "verify_log_integrity sha (Some g) = (True, m, Some r)"
  shows "length f = length g \<and> (\<forall>i. i < length f \<and> i mod 112 < 108 \<longrightarrow> f ! i = g ! i) \<or>
    (\<exists>x\<in>set (audit_events f). \<exists>y\<in>set (audit_events g).
       hash_input x \<noteq> hash_input y \<and> sha (hash_input x) = sha (hash_input y) \<and> sha (hash_input x) \<noteq> None)"
proof (cases "\<exists>x\<in>set (audit_events f). \<exists>y\<in>set (audit_events g). collide sha x y")
  case True
  then show ?thesis unfolding collide_def by blast
next
  case False
  then have nc: "\<forall>x\<in>set (audit_events f). \<forall>y\<in>set (audit_events g). \<not> collide sha x y" by blast
  note F = verified_events [OF assms(5)] and G = verified_events [OF assms(6)]
  have len: "length (audit_events h) = length h div 112" for h by (simp add: audit_events_def)
  have ne: "audit_events h \<noteq> []" "length (audit_events h) < 2 ^ 64" if "h \<noteq> []" "length h mod 112 = 0" "length h < 2 ^ 64" for h
  proof -
    have "length h div 112 \<le> length h" "length h div 112 \<noteq> 0" using that(1,2) by (auto simp: div_eq_0_iff)
    then show "audit_events h \<noteq> []" "length (audit_events h) < 2 ^ 64" using that(3) len [of h] by auto
  qed
  have prev: "\<forall>e\<in>set (audit_events f) \<union> set (audit_events g). length (ae_previous_hash e) = 32" using F(3) G(3) by blast
  have "length (audit_events f) = length (audit_events g)"
    by (rule same_root_length [OF ne(1) [OF assms(1) F(1) assms(3)] ne(1) [OF assms(2) G(1) assms(4)]
          ne(2) [OF assms(1) F(1) assms(3)] ne(2) [OF assms(2) G(1) assms(4)] nc prev F(2) G(2)])
  then have l: "length f = length g" using F(1) G(1) len by (metis div_mult_mod_eq)
  have "list_all2 same_event (audit_events f) (audit_events g)"
    by (rule same_root [OF _ nc prev F(2) G(2)]) (simp add: len l)
  then have "\<forall>i. i < length f \<and> i mod 112 < 108 \<longrightarrow> f ! i = g ! i" using same_events_bytes [of f g] l F(1) by simp
  with l show ?thesis by simp
qed

text \<open>A hash function that collides everywhere, and two histories of one event that differ in the side.\<close>

definition flat_sha :: "u8 list \<Rightarrow> u8 list option" where
  "flat_sha x = Some zero_hash"

definition flat_event :: "u8 \<Rightarrow> AuditEvent" where
  "flat_event side = \<lparr>ae_sequence = 0, ae_timestamp_ns = 5, ae_order_id = 7, ae_price = 5000, ae_quantity = 100, ae_trader_id = 0,
     ae_side = side, ae_type = 65, ae_previous_hash = zero_hash, ae_hash = zero_hash, ae_padding = replicate 4 0\<rparr>"

lemma flat_verifies: "verify_log_integrity flat_sha (Some (ae_bytes (flat_event side))) = (True, 1, Some zero_hash)"
  "length (ae_bytes (flat_event side)) = 112" "ae_bytes (flat_event side) ! 42 = side"
proof -
  have ok: "ae_ok (flat_event side)" by (simp add: ae_ok_def flat_event_def zero_hash_def i64_bounds)
  then show l: "length (ae_bytes (flat_event side)) = 112" by (rule length_ae_bytes)
  have "audit_events (ae_bytes (flat_event side)) = [flat_event side]" using audit_events_concat [of "[flat_event side]"] ok by simp
  then show "verify_log_integrity flat_sha (Some (ae_bytes (flat_event side))) = (True, 1, Some zero_hash)"
    using l by (simp add: verify_log_integrity_def valid_event_def flat_sha_def) (simp add: flat_event_def)
  show "ae_bytes (flat_event side) ! 42 = side" by (simp add: ae_bytes_def ae_body_def flat_event_def nth_append word_lengths)
qed

theorem audit_tamper_evident_witness:
  "\<exists>x\<in>set (audit_events (ae_bytes (flat_event 0))). \<exists>y\<in>set (audit_events (ae_bytes (flat_event 1))).
     hash_input x \<noteq> hash_input y \<and> flat_sha (hash_input x) = flat_sha (hash_input y)"
proof -
  let ?f = "ae_bytes (flat_event 0)" and ?g = "ae_bytes (flat_event 1)"
  have "?f \<noteq> []" "?g \<noteq> []" using flat_verifies(2) [of 0] flat_verifies(2) [of 1] by auto
  moreover have "\<not> (\<forall>i. i < length ?f \<and> i mod 112 < 108 \<longrightarrow> ?f ! i = ?g ! i)"
    using flat_verifies(2,3) by (auto intro!: exI [of _ 42])
  ultimately show ?thesis
    using audit_tamper_evident [of ?f ?g flat_sha 1 zero_hash 1] flat_verifies(1,2) by auto
qed

text \<open>
  C32: A manifest checkpoint that was written completely verifies against the log, and keeps
  verifying however much the log grows afterwards.
\<close>

theorem manifest_verifies:
  assumes sha: "sha_sized sha" and log: "log_of sha l es" and log2: "log_of sha l2 (es @ fs)"
    and wr: "write_manifest_checkpoint sha synced 144 l (Some []) a b = (True, l1, Some ms)"
  shows "verify_manifest sha (Some (al_file l2)) (Some ms)"
proof -
  note ev = log_of_events(1) [OF log] and ev2 = log_of_events(1) [OF log2]
  have g: "al_fd l" "a \<le> b" "b < al_sequence l" using wr by (auto simp: write_manifest_checkpoint_def split: if_splits)
  have "unat (al_sequence l) \<le> length es" by (simp add: log_of_sequence [OF log] unat_of_nat)
  then have bl: "unat b < length es" and ab: "unat a \<le> unat b" and al: "unat a < length es"
    using g(2,3) by (simp_all add: word_less_nat_alt word_le_nat_alt)
  have ok: "ae_ok (es ! unat a)" "ae_ok (es ! unat b)" using log bl al by (auto simp: log_of_def)
  have same: "al_file (snd (al_flush synced l)) = al_file l" by (simp add: al_flush_def)
  define c where "c = \<lparr>mf_magic = 0x4D4E4653, mf_version = 1, mf_start_sequence = a,
      mf_end_sequence = b, mf_start_timestamp_ns = ae_timestamp_ns (es ! unat a),
      mf_end_timestamp_ns = ae_timestamp_ns (es ! unat b), mf_event_count = b - a + 1,
      mf_start_hash = ae_previous_hash (es ! unat a), mf_end_hash = ae_hash (es ! unat b),
      mf_manifest_hash = zero_hash\<rparr>"
  obtain h where h: "sha (mf_head c) = Some h" and ms0: "ms = take 144 (mf_bytes (c\<lparr>mf_manifest_hash := h\<rparr>))"
    using wr g bl al unfolding write_manifest_checkpoint_def Let_def same ev c_def
    by (auto split: option.splits if_splits)
  have dec: "mf_decode (mf_bytes (c\<lparr>mf_manifest_hash := h\<rparr>)) = c\<lparr>mf_manifest_hash := h\<rparr>"
      "length (mf_bytes (c\<lparr>mf_manifest_hash := h\<rparr>)) = 144"
    using mf_decode_bytes [of "c\<lparr>mf_manifest_hash := h\<rparr>"] ok sha h by (auto simp: c_def ae_ok_def sha_sized_def)
  have hd: "mf_head (c\<lparr>mf_manifest_hash := h\<rparr>) = mf_head c" by (simp add: mf_head_def)
  let ?seg = "take (unat b + 1 - unat a) (drop (unat a) (es @ fs))"
  have "manifest_loop sha zero_hash (es @ fs)" using log2 validate_manifest by (auto simp: log_of_def)
  then have "manifest_loop sha (ae_previous_hash ((es @ fs) ! unat a)) ?seg"
    using al by (intro manifest_take manifest_drop) simp_all
  then have "manifest_loop sha (ae_previous_hash (es ! unat a)) ?seg" using al by (simp add: nth_append)
  moreover have "?seg \<noteq> []" "last ?seg = es ! unat b"
    using segment_last [OF ab, of "es @ fs"] bl by (simp_all add: nth_append)
  ultimately show ?thesis
    using ms0 dec hd h bl ev2 g(2) [folded not_less] unfolding verify_manifest_def Let_def
    by (simp add: c_def del: One_nat_def)
qed

theorem manifest_verifies_witness:
  "\<exists>l' l1 ms. al_append sample_sha [Wrote 100, Interrupted, Wrote 12] True sample_log 5 7 5000 100 0 1 65 = Some (True, l') \<and>
     write_manifest_checkpoint sample_sha True 144 l' (Some []) 0 0 = (True, l1, Some ms) \<and>
     verify_manifest sample_sha (Some (al_file l')) (Some ms)"
proof -
  obtain l' where l': "al_append sample_sha [Wrote 100, Interrupted, Wrote 12] True sample_log 5 7 5000 100 0 1 65 = Some (True, l')"
      "length (al_file l') = 112"
    using sample_event_appends by blast
  obtain e where e: "log_of sample_sha l' ([] @ [e])"
    using append_extends [OF sample_log_of(1,2) _ _ l'(1)] l' sample_log_of(4) by (auto simp: i64_bounds)
  have "al_sequence l' = 1" "al_fd l'" using log_of_sequence [OF e] e by (simp_all add: log_of_def)
  then obtain l1 ms where "write_manifest_checkpoint sample_sha True 144 l' (Some []) 0 0 = (True, l1, Some ms)"
    using log_of_events(1) [OF e] by (simp add: write_manifest_checkpoint_def al_flush_def Let_def sample_sha_def)
  then show ?thesis using manifest_verifies [OF sample_log_of(1) e, of l' "[]"] e l'(1) by auto
qed

end
