(* ===== verification/Symbol_Table.thy ===== *)
theory Symbol_Table
  imports Linear_Probing Bytes Arena
begin

text \<open>
  \<open>SymbolTable\<close> of \<open>luv_decode_itch.hpp\<close>: the open-addressing map from eight-byte tickers to
  symbol indices.  The insertion loop has no bound in the source and is a partial function
  here; the theory shows that it always ends and that the table implements a finite map that
  never misses a ticker within its 512 probes.
\<close>

section \<open>The table\<close>

definition st_capacity :: nat where
  "st_capacity = kSymbols * 2"

definition st_mask :: nat where
  "st_mask = st_capacity - 1"

definition kNotFound :: u16 where
  "kNotFound = 0xFFFF"

record SymbolTable =
  st_keys :: "nat \<Rightarrow> u64"
  st_values :: "nat \<Rightarrow> u16"
  st_count :: u32

definition st_clear :: SymbolTable where
  "st_clear = \<lparr>st_keys = (\<lambda>_. 0), st_values = (\<lambda>_. kNotFound), st_count = 0\<rparr>"

definition load_ticker_key :: "u8 list \<Rightarrow> u64" where
  "load_ticker_key p = of_le_word (take 8 p)"

text \<open>\<open>kShift = 64 - __builtin_ctz(kCapacity)\<close> and the capacity is the tenth power of two.\<close>

definition st_hash :: "u64 \<Rightarrow> nat" where
  "st_hash key = unat (drop_bit 54 (key * 0x9E3779B97F4A7C15))"

text \<open>The slot where the insertion loop stops; \<open>None\<close> if it does not.\<close>

partial_function (option) st_probe :: "SymbolTable \<Rightarrow> u64 \<Rightarrow> nat \<Rightarrow> nat option" where
  [code]: "st_probe t key slot =
     (if st_values t slot = kNotFound then Some slot
      else if st_keys t slot = key then Some slot
      else st_probe t key ((slot + 1) AND st_mask))"

definition st_insert :: "SymbolTable \<Rightarrow> u8 list option \<Rightarrow> u16 \<Rightarrow> (bool \<times> SymbolTable) option" where
  "st_insert t ticker idx =
     (case ticker of
        None \<Rightarrow> Some (False, t)
      | Some p \<Rightarrow>
          if unat idx \<ge> kSymbols \<or> unat (st_count t) \<ge> st_capacity div 2 then Some (False, t)
          else
            let key = load_ticker_key p in
            case st_probe t key (st_hash key) of
              None \<Rightarrow> None
            | Some slot \<Rightarrow>
                if st_values t slot \<noteq> kNotFound then Some (True, t\<lparr>st_values := (st_values t)(slot := idx)\<rparr>)
                else Some (True, t\<lparr>st_keys := (st_keys t)(slot := key),
                                   st_values := (st_values t)(slot := idx), st_count := st_count t + 1\<rparr>))"

fun st_lookup_loop :: "nat \<Rightarrow> SymbolTable \<Rightarrow> u64 \<Rightarrow> nat \<Rightarrow> u16" where
  "st_lookup_loop 0 t key slot = kNotFound"
| "st_lookup_loop (Suc n) t key slot =
     (if st_values t slot = kNotFound then kNotFound
      else if st_keys t slot = key then st_values t slot
      else st_lookup_loop n t key ((slot + 1) AND st_mask))"

definition st_lookup_key :: "SymbolTable \<Rightarrow> u64 \<Rightarrow> u16" where
  "st_lookup_key t key = st_lookup_loop (st_capacity div 2) t key (st_hash key)"

definition st_lookup :: "SymbolTable \<Rightarrow> u8 list option \<Rightarrow> u16" where
  "st_lookup t ticker = (case ticker of None \<Rightarrow> kNotFound | Some p \<Rightarrow> st_lookup_key t (load_ticker_key p))"

section \<open>The table behind it\<close>

definition st_key :: "SymbolTable \<Rightarrow> nat \<Rightarrow> u64 option" where
  "st_key t i = (if st_values t i = kNotFound then None else Some (st_keys t i))"

definition st_inv :: "SymbolTable \<Rightarrow> bool" where
  "st_inv t \<longleftrightarrow> table_wf st_capacity st_hash (st_key t) \<and>
     unat (st_count t) = card (table_used st_capacity (st_key t)) \<and> unat (st_count t) \<le> 512 \<and>
     (\<forall>i < st_capacity. st_values t i \<noteq> kNotFound \<longrightarrow> unat (st_values t i) < kSymbols)"

text \<open>The map the table stands for.\<close>

definition st_map :: "SymbolTable \<Rightarrow> u64 \<Rightarrow> u16 option" where
  "st_map t key = (if st_lookup_key t key = kNotFound then None else Some (st_lookup_key t key))"

lemma st_capacity_eq: "st_capacity = 1024"
  by (simp add: st_capacity_def)

lemma st_half: "st_capacity div 2 = 512"
  by (simp add: st_capacity_eq)

lemma st_mask_mod: "x AND st_mask = x mod st_capacity"
  using and_mask_pow2 [of x 10] by (simp add: st_mask_def st_capacity_eq)

lemma st_hash_less: "st_hash key < st_capacity"
proof -
  have "unat (drop_bit 54 (x :: u64)) < 1024" for x
  proof -
    have "unat (drop_bit 54 x) = (unat x mod 2 ^ 64) div 2 ^ 54"
      by (simp only: unsigned_drop_bit_eq) (simp add: drop_bit_eq_div take_bit_eq_mod)
    moreover have "unat x mod 2 ^ 64 < 1024 * 2 ^ 54" by simp
    ultimately show ?thesis by (simp only: less_mult_imp_div_less)
  qed
  then show ?thesis by (simp add: st_hash_def st_capacity_eq)
qed

abbreviation (input) st_at :: "u64 \<Rightarrow> nat \<Rightarrow> nat" where
  "st_at key p \<equiv> probe st_capacity (st_hash key) p"

lemma st_next: "(st_at key p + 1) AND st_mask = st_at key (Suc p)"
  by (simp only: st_mask_mod probe_Suc)

lemma st_at_0: "st_at key 0 = st_hash key"
  by (rule probe_0) (rule st_hash_less)

lemma st_at_less: "st_at key p < st_capacity"
  by (rule probe_less) (simp add: st_capacity_eq)

lemma st_stop:
  "stop st_capacity st_hash (st_key t) key p \<longleftrightarrow>
   st_values t (st_at key p) = kNotFound \<or> st_keys t (st_at key p) = key"
  by (auto simp: stop_def st_key_def)

text \<open>Both loops stop at the first probe that finds the key or a free slot.\<close>

lemma st_probe_eq:
  assumes "stop st_capacity st_hash (st_key t) key p"
    "\<And>q. s \<le> q \<Longrightarrow> q < p \<Longrightarrow> \<not> stop st_capacity st_hash (st_key t) key q" "s \<le> p"
  shows "st_probe t key (st_at key s) = Some (st_at key p)"
  using assms(2,3)
proof (induction "p - s" arbitrary: s)
  case 0
  then show ?case using assms(1) by (subst st_probe.simps) (auto simp: st_stop)
next
  case (Suc n)
  then have s: "s < p" "\<not> stop st_capacity st_hash (st_key t) key s" by simp_all
  have "st_probe t key (st_at key (Suc s)) = Some (st_at key p)"
    using Suc.hyps(2) Suc.prems(1) s(1) by (intro Suc.hyps(1)) simp_all
  then show ?case using s(2) by (subst st_probe.simps) (simp add: st_stop st_next [simplified])
qed

lemma st_lookup_loop_eq:
  "st_lookup_loop n t key (st_at key s) =
   (case find (stop st_capacity st_hash (st_key t) key) [s..<s + n] of
      None \<Rightarrow> kNotFound
    | Some p \<Rightarrow> if st_key t (st_at key p) = None then kNotFound else st_values t (st_at key p))"
proof (induction n arbitrary: s)
  case (Suc n)
  show ?case
    by (simp only: find_upt_step st_lookup_loop.simps st_next Suc.IH st_stop) (simp add: st_key_def)
qed simp

lemma st_lookup_key_eq:
  "st_lookup_key t key =
   (case find (stop st_capacity st_hash (st_key t) key) [0..<512] of
      None \<Rightarrow> kNotFound
    | Some p \<Rightarrow> if st_key t (st_at key p) = None then kNotFound else st_values t (st_at key p))"
  using st_lookup_loop_eq [of 512 t key 0] by (simp only: st_lookup_key_def st_at_0 st_half add_0)

lemma st_map_iff:
  assumes inv: "st_inv t"
  shows "st_map t key = Some v \<longleftrightarrow> (\<exists>i < st_capacity. st_key t i = Some key \<and> st_values t i = v)"
proof
  assume "st_map t key = Some v"
  then have nf: "st_lookup_key t key \<noteq> kNotFound" "st_lookup_key t key = v"
    by (auto simp: st_map_def split: if_splits)
  then obtain p where p: "find (stop st_capacity st_hash (st_key t) key) [0..<512] = Some p"
      "st_key t (st_at key p) \<noteq> None" "st_values t (st_at key p) = v"
    unfolding st_lookup_key_eq by (auto split: option.splits if_splits)
  then have "st_key t (st_at key p) = Some key" by (auto simp: find_upt_Some stop_def)
  then show "\<exists>i < st_capacity. st_key t i = Some key \<and> st_values t i = v" using p(3) st_at_less by blast
next
  assume "\<exists>i < st_capacity. st_key t i = Some key \<and> st_values t i = v"
  then obtain i where i: "i < st_capacity" "st_key t i = Some key" "st_values t i = v" by blast
  have "card (table_used st_capacity (st_key t)) \<le> 512" using inv by (simp add: st_inv_def)
  then obtain p where "find (stop st_capacity st_hash (st_key t) key) [0..<512] = Some p" "st_at key p = i"
    using search_hit [of st_capacity st_hash "st_key t" i key 512] inv i by (auto simp: st_inv_def)
  then have "st_lookup_key t key = v" unfolding st_lookup_key_eq using i by simp
  moreover have "v \<noteq> kNotFound" using i by (auto simp: st_key_def split: if_splits)
  ultimately show "st_map t key = Some v" by (simp add: st_map_def)
qed

lemma st_map_None:
  assumes inv: "st_inv t"
  shows "st_map t key = None \<longleftrightarrow> (\<forall>i < st_capacity. st_key t i \<noteq> Some key)"
  using st_map_iff [OF inv, of key] by (metis not_None_eq)

lemma st_lookup_bound:
  assumes inv: "st_inv t"
  shows "st_lookup t ticker = kNotFound \<or> unat (st_lookup t ticker) < kSymbols"
proof (cases ticker)
  case (Some p)
  let ?v = "st_lookup_key t (load_ticker_key p)"
  have "unat ?v < kSymbols" if "?v \<noteq> kNotFound"
  proof -
    have "st_map t (load_ticker_key p) = Some ?v" using that by (simp add: st_map_def)
    then obtain i where "i < st_capacity" "st_values t i = ?v" using st_map_iff [OF inv] by blast
    then show ?thesis using inv that by (auto simp: st_inv_def)
  qed
  then show ?thesis using Some by (auto simp: st_lookup_def)
qed (simp add: st_lookup_def)

section \<open>Insertion\<close>

lemma st_key_value:
  assumes "st_values t i \<noteq> kNotFound" "v \<noteq> kNotFound"
  shows "st_key (t\<lparr>st_values := (st_values t)(i := v)\<rparr>) = st_key t"
  using assms by (auto simp: st_key_def)

lemma st_key_new:
  assumes "v \<noteq> kNotFound"
  shows "st_key (t\<lparr>st_keys := (st_keys t)(i := k), st_values := (st_values t)(i := v), st_count := n\<rparr>) = (st_key t)(i \<mapsto> k)"
  using assms by (auto simp: st_key_def)

lemma valid_symbol: "unat (idx :: u16) < kSymbols \<Longrightarrow> idx \<noteq> kNotFound"
  by (auto simp: kNotFound_def)

lemma st_map_put:
  assumes inv: "st_inv t" "st_inv t'" and d: "d < st_capacity" "st_key t' d = Some k" "st_values t' d = v"
    "st_key t d = None \<or> st_key t d = Some k"
    and same: "\<And>i. i \<noteq> d \<Longrightarrow> st_key t' i = st_key t i \<and> st_values t' i = st_values t i"
  shows "st_map t' = (st_map t)(k \<mapsto> v)"
proof (rule map_eqI)
  fix k' w
  have "table_inj st_capacity (st_key t')" using inv(2) table_wf_inj by (auto simp: st_inv_def)
  then show "st_map t' k' = Some w \<longleftrightarrow> ((st_map t)(k \<mapsto> v)) k' = Some w"
    using table_assoc_put [of st_capacity "st_key t'" d k "st_values t'" v "st_key t" "st_values t" k' w] d same
      st_map_iff [OF inv(1), of k' w] st_map_iff [OF inv(2), of k' w] by simp
qed

lemma st_insert_spec:
  assumes inv: "st_inv t" and p8: "ticker = Some p"
    and ok: "unat idx < kSymbols" "unat (st_count t) < 512"
  shows "\<exists>t'. st_insert t ticker idx = Some (True, t') \<and> st_inv t' \<and>
    st_map t' = (st_map t)(load_ticker_key p \<mapsto> idx)"
proof -
  let ?k = "load_ticker_key p" and ?K = "st_key t"
  have wf: "table_wf st_capacity st_hash ?K" and cnt: "unat (st_count t) = card (table_used st_capacity ?K)"
    using inv by (simp_all add: st_inv_def)
  have v: "idx \<noteq> kNotFound" by (rule valid_symbol [OF ok(1)])
  obtain q where q: "find (stop st_capacity st_hash ?K ?k) [0..<st_capacity] = Some q"
    using search_room [of st_capacity ?K st_capacity st_hash ?k] ok(2) cnt by (auto simp: st_capacity_eq)
  let ?d = "st_at ?k q"
  have q': "q < st_capacity" "stop st_capacity st_hash ?K ?k q" "\<And>r. r < q \<Longrightarrow> \<not> stop st_capacity st_hash ?K ?k r"
    using q by (simp_all add: find_upt_Some)
  have pr: "st_probe t ?k (st_hash ?k) = Some ?d"
    using st_probe_eq [OF q'(2), of 0] q'(3) by (simp add: st_at_0)
  have guard: "\<not> (unat idx \<ge> kSymbols \<or> unat (st_count t) \<ge> st_capacity div 2)"
    using ok by (simp add: st_half)
  show ?thesis
  proof (cases "?K ?d")
    case (Some k')
    then have k': "?K ?d = Some ?k" using q'(2) by (simp add: stop_def)
    then have nf: "st_values t ?d \<noteq> kNotFound" by (auto simp: st_key_def split: if_splits)
    let ?t = "t\<lparr>st_values := (st_values t)(?d := idx)\<rparr>"
    have ins: "st_insert t ticker idx = Some (True, ?t)"
      using p8 guard pr nf by (simp add: st_insert_def Let_def)
    have K: "st_key ?t = ?K" by (rule st_key_value [OF nf v])
    then have inv': "st_inv ?t" using inv ok(1) by (simp add: st_inv_def)
    have "st_map ?t = (st_map t)(?k \<mapsto> idx)"
      using k' K by (intro st_map_put [OF inv inv' st_at_less]) auto
    then show ?thesis using ins inv' by blast
  next
    case None
    then have free: "st_values t ?d = kNotFound" by (simp add: st_key_def split: if_splits)
    let ?t = "t\<lparr>st_keys := (st_keys t)(?d := ?k), st_values := (st_values t)(?d := idx), st_count := st_count t + 1\<rparr>"
    have ins: "st_insert t ticker idx = Some (True, ?t)"
      using p8 guard pr free by (simp add: st_insert_def Let_def)
    have K: "st_key ?t = ?K(?d \<mapsto> ?k)" by (rule st_key_new [OF v])
    have absent: "?K i \<noteq> Some ?k" if "i < st_capacity" for i
    proof
      assume "?K i = Some ?k"
      then obtain r where "r < st_capacity" "find (stop st_capacity st_hash ?K ?k) [0..<st_capacity] = Some r" "st_at ?k r = i"
        using search_hit [OF wf _ _ table_used_le, of i ?k] \<open>i < st_capacity\<close> by blast
      then show False using q None \<open>?K i = Some ?k\<close> by simp
    qed
    have path: "?K (st_at ?k r) \<noteq> None" if "r < q" for r using q'(3) [OF that] by (auto simp: stop_def)
    have wf': "table_wf st_capacity st_hash (st_key ?t)"
      unfolding K using wf absent q'(1) None path by (intro table_wf_insert) auto
    have "card (table_used st_capacity (st_key ?t)) = Suc (card (table_used st_capacity ?K))"
      unfolding K using table_used_insert [of ?d st_capacity ?K ?k] None st_at_less [of ?k q] by (simp add: table_used_def)
    moreover have "unat (st_count t + 1) = Suc (unat (st_count t))"
      using ok(2) unat_inc [of "st_count t" 512] by (simp add: word_less_nat_alt)
    ultimately have inv': "st_inv ?t" using wf' cnt ok inv by (simp add: st_inv_def)
    have "st_map ?t = (st_map t)(?k \<mapsto> idx)"
      using None K by (intro st_map_put [OF inv inv' st_at_less]) auto
    then show ?thesis using ins inv' by blast
  qed
qed

lemma st_insert_total: "st_inv t \<Longrightarrow> st_insert t ticker idx \<noteq> None"
proof (cases ticker)
  case (Some p)
  assume inv: "st_inv t"
  show ?thesis
  proof (cases "unat idx < kSymbols \<and> unat (st_count t) < 512")
    case True
    then show ?thesis using st_insert_spec [OF inv Some, of idx] by auto
  next
    case False
    then show ?thesis using Some by (auto simp: st_insert_def st_half)
  qed
qed (simp add: st_insert_def)

text \<open>Insertion by key: the ticker is the eight bytes of the key.\<close>

definition st_put :: "SymbolTable \<Rightarrow> u64 \<Rightarrow> u16 \<Rightarrow> bool \<times> SymbolTable" where
  "st_put t key idx = the (st_insert t (Some (le_word key)) idx)"

lemma load_ticker_le: "load_ticker_key (le_word key) = key"
  by (simp add: load_ticker_key_def word_lengths word_round_trips)

interpretation stm: insert_map st_map st_put st_inv
proof unfold_locales
  fix t k v t'
  assume inv: "st_inv t" and put: "st_put t k v = (True, t')"
  have ok: "unat v < kSymbols" "unat (st_count t) < 512"
    using put by (auto simp: st_put_def st_insert_def st_half split: if_splits)
  show "st_inv t' \<and> st_map t' = (st_map t)(k \<mapsto> v)"
    using st_insert_spec [OF inv _ ok, of "Some (le_word k)" "le_word k"] put
    by (auto simp: st_put_def load_ticker_le)
next
  fix t k v t'
  assume inv: "st_inv t" and put: "st_put t k v = (False, t')"
  show "t' = t"
  proof (cases "unat v < kSymbols \<and> unat (st_count t) < 512")
    case True
    then show ?thesis
      using st_insert_spec [OF inv, of "Some (le_word k)" "le_word k" v] put by (auto simp: st_put_def)
  next
    case False
    then show ?thesis using put by (auto simp: st_put_def st_insert_def st_half)
  qed
qed

lemma st_clear_inv: "st_inv st_clear \<and> st_map st_clear = Map.empty"
proof -
  have K: "st_key st_clear = (\<lambda>_. None)" by (simp add: st_key_def st_clear_def fun_eq_iff)
  then have "st_inv st_clear"
    by (simp add: st_inv_def table_wf_def table_inj_def table_used_def) (simp add: st_clear_def)
  moreover from this have "st_map st_clear = Map.empty"
    by (intro map_eqI) (simp add: st_map_iff K)
  ultimately show ?thesis ..
qed

section \<open>Property\<close>

text \<open>
  C16: After any sequence of insertions into a cleared symbol table, lookup returns exactly the
  last accepted index of every ticker and nothing else, and the next insertion returns whatever
  its arguments are: its unbounded probe loop ends.
\<close>

theorem symbol_table_refines:
  "let t = foldl (\<lambda>t x. snd (st_put t (fst x) (snd x))) st_clear xs in
   st_map t = foldl (\<lambda>f x. f(fst x \<mapsto> snd x)) Map.empty (accepted_inserts st_put st_clear xs) \<and>
   st_insert t ticker idx \<noteq> None"
  using stm.insert_run [of st_clear xs] st_clear_inv
    st_insert_total [of "foldl (\<lambda>t x. snd (st_put t (fst x) (snd x))) st_clear xs" ticker idx]
  by (simp add: Let_def)

end
