(* ===== verification/Itch_Decode.thy ===== *)
theory Itch_Decode
  imports Symbol_Table Itch_Types Numeric
begin

text \<open>
  The ITCH 5.0 decoder of \<open>luv_decode_itch.hpp\<close>: byte-order helpers, minimum lengths and
  \<open>decode_itch\<close>, one definition per message kind.  The theory shows that whatever is decoded
  meets the preconditions of the order book, that well-formed messages decode to their fields,
  and that the read never leaves the buffer.
\<close>

section \<open>Byte order\<close>

definition be16 :: "nat \<Rightarrow> u8 list \<Rightarrow> u16" where
  "be16 off raw = of_nat (of_be (field off 2 raw))"

definition be32 :: "nat \<Rightarrow> u8 list \<Rightarrow> u32" where
  "be32 off raw = of_nat (of_be (field off 4 raw))"

definition be64 :: "nat \<Rightarrow> u8 list \<Rightarrow> u64" where
  "be64 off raw = of_nat (of_be (field off 8 raw))"

definition be_timestamp48 :: "nat \<Rightarrow> u8 list \<Rightarrow> u64" where
  "be_timestamp48 off raw = (push_bit 32 (ucast (be16 off raw))) OR ucast (be32 (off + 2) raw)"

section \<open>Message lengths\<close>

definition minimum_length :: "u8 \<Rightarrow> nat" where
  "minimum_length type =
     (if type = kAddOrder then 36 else if type = kAddOrderMPID then 40
      else if type = kOrderExecuted then 31 else if type = kOrderExecPrice then 36
      else if type = kOrderCancel then 23 else if type = kOrderDelete then 19
      else if type = kOrderReplace then 35 else if type = kTrade then 44
      else if type = kCrossTrade then 40 else if type = kStockTradingAction then 25
      else if type = kRegSHO then 20 else 0)"

section \<open>The decoder\<close>

text \<open>
  Each message kind takes the output that already carries the type and the timestamp, and
  returns whether the message is accepted and the output.
\<close>

definition is_side :: "u8 \<Rightarrow> bool" where
  "is_side b \<longleftrightarrow> b = 0x42 \<or> b = 0x53"

definition decode_add :: "u8 list \<Rightarrow> SymbolTable \<Rightarrow> TickMsg \<Rightarrow> bool \<times> TickMsg" where
  "decode_add raw symbols out =
     (let sym_idx = st_lookup symbols (Some (drop 24 raw)) in
      if sym_idx = kNotFound then (False, out)
      else if be64 11 raw = 0 \<or> \<not> is_valid_quantity (uint (be32 20 raw)) \<or>
              \<not> is_valid_price (uint (be32 32 raw)) \<or> \<not> is_side (raw ! 19) then (False, out)
      else (True, out\<lparr>tk_symbol_idx := unat sym_idx, tk_order_ref := be64 11 raw,
              tk_qty := uint (be32 20 raw), tk_price := uint (be32 32 raw),
              tk_flags := (if raw ! 19 = 0x42 then kBuy else 0)\<rparr>))"

definition decode_executed :: "u8 list \<Rightarrow> TickMsg \<Rightarrow> bool \<times> TickMsg" where
  "decode_executed raw out =
     (let out = out\<lparr>tk_symbol_idx := unat (be16 1 raw)\<rparr> in
      if tk_symbol_idx out \<ge> kSymbols \<or> be64 11 raw = 0 \<or> \<not> is_valid_quantity (uint (be32 19 raw))
      then (False, out)
      else (True, out\<lparr>tk_order_ref := be64 11 raw, tk_qty := uint (be32 19 raw),
              tk_match_num := be64 23 raw, tk_flags := kPrintable\<rparr>))"

definition decode_executed_price :: "u8 list \<Rightarrow> TickMsg \<Rightarrow> bool \<times> TickMsg" where
  "decode_executed_price raw out =
     (let out = out\<lparr>tk_symbol_idx := unat (be16 1 raw)\<rparr> in
      if tk_symbol_idx out \<ge> kSymbols \<or> be64 11 raw = 0 \<or> \<not> is_valid_quantity (uint (be32 19 raw)) \<or>
         \<not> is_valid_price (uint (be32 32 raw)) \<or> (raw ! 31 \<noteq> 0x59 \<and> raw ! 31 \<noteq> 0x4E)
      then (False, out)
      else (True, out\<lparr>tk_order_ref := be64 11 raw, tk_qty := uint (be32 19 raw),
              tk_match_num := be64 23 raw, tk_price := uint (be32 32 raw),
              tk_flags := (if raw ! 31 = 0x59 then kPrintable else 0)\<rparr>))"

definition decode_cancel :: "u8 list \<Rightarrow> TickMsg \<Rightarrow> bool \<times> TickMsg" where
  "decode_cancel raw out =
     (let out = out\<lparr>tk_symbol_idx := unat (be16 1 raw)\<rparr> in
      if tk_symbol_idx out \<ge> kSymbols \<or> be64 11 raw = 0 \<or> \<not> is_valid_quantity (uint (be32 19 raw))
      then (False, out)
      else (True, out\<lparr>tk_order_ref := be64 11 raw, tk_qty := uint (be32 19 raw)\<rparr>))"

definition decode_delete :: "u8 list \<Rightarrow> TickMsg \<Rightarrow> bool \<times> TickMsg" where
  "decode_delete raw out =
     (let out = out\<lparr>tk_symbol_idx := unat (be16 1 raw)\<rparr> in
      if tk_symbol_idx out \<ge> kSymbols \<or> be64 11 raw = 0 then (False, out)
      else (True, out\<lparr>tk_order_ref := be64 11 raw\<rparr>))"

definition decode_replace :: "u8 list \<Rightarrow> TickMsg \<Rightarrow> bool \<times> TickMsg" where
  "decode_replace raw out =
     (let out = out\<lparr>tk_symbol_idx := unat (be16 1 raw)\<rparr> in
      if tk_symbol_idx out \<ge> kSymbols \<or> be64 11 raw = 0 \<or> be64 19 raw = 0 \<or> be64 11 raw = be64 19 raw \<or>
         \<not> is_valid_quantity (uint (be32 27 raw)) \<or> \<not> is_valid_price (uint (be32 31 raw))
      then (False, out)
      else (True, out\<lparr>tk_order_ref := be64 11 raw, tk_match_num := be64 19 raw,
              tk_qty := uint (be32 27 raw), tk_price := uint (be32 31 raw)\<rparr>))"

definition decode_trade :: "u8 list \<Rightarrow> SymbolTable \<Rightarrow> TickMsg \<Rightarrow> bool \<times> TickMsg" where
  "decode_trade raw symbols out =
     (let sym_idx = st_lookup symbols (Some (drop 24 raw)) in
      if sym_idx = kNotFound \<or> \<not> is_valid_quantity (uint (be32 20 raw)) \<or>
         \<not> is_valid_price (uint (be32 32 raw)) \<or> \<not> is_side (raw ! 19) then (False, out)
      else (True, out\<lparr>tk_symbol_idx := unat sym_idx, tk_order_ref := be64 11 raw,
              tk_qty := uint (be32 20 raw), tk_price := uint (be32 32 raw), tk_match_num := be64 36 raw,
              tk_flags := kPrintable OR (if raw ! 19 = 0x42 then kBuy else 0)\<rparr>))"

definition decode_cross :: "u8 list \<Rightarrow> SymbolTable \<Rightarrow> TickMsg \<Rightarrow> bool \<times> TickMsg" where
  "decode_cross raw symbols out =
     (let sym_idx = st_lookup symbols (Some (drop 19 raw)); shares = be64 11 raw in
      if sym_idx = kNotFound \<or> uint shares > kMaxQuantity \<or> \<not> is_valid_price (uint (be32 27 raw))
      then (False, out)
      else (True, out\<lparr>tk_symbol_idx := unat sym_idx, tk_qty := uint shares, tk_price := uint (be32 27 raw),
              tk_match_num := be64 31 raw, tk_flags := kPrintable OR kCross\<rparr>))"

definition decode_trading_action :: "u8 list \<Rightarrow> SymbolTable \<Rightarrow> TickMsg \<Rightarrow> bool \<times> TickMsg" where
  "decode_trading_action raw symbols out =
     (let sym_idx = st_lookup symbols (Some (drop 11 raw)) in
      if sym_idx = kNotFound then (False, out)
      else (True, out\<lparr>tk_symbol_idx := unat sym_idx,
              tk_flags := (if raw ! 19 = 0x48 \<or> raw ! 19 = 0x50 then kHalted else 0)\<rparr>))"

definition decode_reg_sho :: "u8 list \<Rightarrow> SymbolTable \<Rightarrow> TickMsg \<Rightarrow> bool \<times> TickMsg" where
  "decode_reg_sho raw symbols out =
     (let sym_idx = st_lookup symbols (Some (drop 11 raw)) in
      if sym_idx = kNotFound then (False, out)
      else (True, out\<lparr>tk_symbol_idx := unat sym_idx,
              tk_flags := (if raw ! 19 = 0x31 \<or> raw ! 19 = 0x32 then kShortSaleRestricted else 0)\<rparr>))"

text \<open>The switch on the message type; the length checks inside its cases repeat the one before it.\<close>

definition decode_body :: "u8 list \<Rightarrow> SymbolTable \<Rightarrow> TickMsg \<Rightarrow> bool \<times> TickMsg" where
  "decode_body raw symbols out =
     (let msg_type = raw ! 0 in
      if msg_type = kAddOrder \<or> msg_type = kAddOrderMPID then decode_add raw symbols out
      else if msg_type = kOrderExecuted then decode_executed raw out
      else if msg_type = kOrderExecPrice then decode_executed_price raw out
      else if msg_type = kOrderCancel then decode_cancel raw out
      else if msg_type = kOrderDelete then decode_delete raw out
      else if msg_type = kOrderReplace then decode_replace raw out
      else if msg_type = kTrade then decode_trade raw symbols out
      else if msg_type = kCrossTrade then decode_cross raw symbols out
      else if msg_type = kStockTradingAction then decode_trading_action raw symbols out
      else if msg_type = kRegSHO then decode_reg_sho raw symbols out
      else (False, out))"

text \<open>\<open>decode_itch\<close>: a null pointer is \<open>None\<close>, \<open>len\<close> is the length of the buffer.\<close>

definition decode_itch :: "u8 list option \<Rightarrow> SymbolTable \<Rightarrow> TickMsg \<Rightarrow> bool \<times> TickMsg" where
  "decode_itch buffer symbols out =
     (case buffer of
        None \<Rightarrow> (False, out)
      | Some raw \<Rightarrow>
          if length raw < 11 then (False, out)
          else
            let msg_type = raw ! 0; min_len = minimum_length msg_type; timestamp = be_timestamp48 5 raw in
            if min_len \<noteq> 0 \<and> length raw < min_len then (False, out)
            else if timestamp \<ge> 86400000000000 then (False, out)
            else decode_body raw symbols (empty_tick\<lparr>tk_msg_type := msg_type, tk_timestamp := timestamp\<rparr>))"

section \<open>What a decoded message satisfies\<close>

text \<open>
  The preconditions of the consumers: a known symbol, a time of day, and for each kind of
  message the fields its handler relies on.
\<close>

definition names_order :: "u8 \<Rightarrow> bool" where
  "names_order m \<longleftrightarrow> m \<in> {kAddOrder, kAddOrderMPID, kOrderExecuted, kOrderExecPrice, kOrderCancel,
     kOrderDelete, kOrderReplace}"

definition has_quantity :: "u8 \<Rightarrow> bool" where
  "has_quantity m \<longleftrightarrow> m \<in> {kAddOrder, kAddOrderMPID, kOrderExecuted, kOrderExecPrice, kOrderCancel,
     kOrderReplace, kTrade}"

definition has_price :: "u8 \<Rightarrow> bool" where
  "has_price m \<longleftrightarrow> m \<in> {kAddOrder, kAddOrderMPID, kOrderExecPrice, kOrderReplace, kTrade, kCrossTrade}"

definition fields_ok :: "TickMsg \<Rightarrow> bool" where
  "fields_ok t \<longleftrightarrow> tk_symbol_idx t < kSymbols \<and>
     (names_order (tk_msg_type t) \<longrightarrow> tk_order_ref t \<noteq> 0) \<and>
     (has_quantity (tk_msg_type t) \<longrightarrow> is_valid_quantity (tk_qty t)) \<and>
     (has_price (tk_msg_type t) \<longrightarrow> is_valid_price (tk_price t)) \<and>
     (tk_msg_type t = kCrossTrade \<longrightarrow> 0 \<le> tk_qty t \<and> tk_qty t \<le> kMaxQuantity) \<and>
     (tk_msg_type t = kOrderReplace \<longrightarrow> tk_match_num t \<noteq> 0 \<and> tk_match_num t \<noteq> tk_order_ref t)"

definition tick_wf :: "TickMsg \<Rightarrow> bool" where
  "tick_wf t \<longleftrightarrow> tk_timestamp t < 86400000000000 \<and> minimum_length (tk_msg_type t) \<noteq> 0 \<and> fields_ok t"

lemmas kinds = names_order_def has_quantity_def has_price_def itch_types

text \<open>A looked up symbol is an index of the book, so each kind of message is well formed.\<close>

lemma looked_up_symbol:
  "st_inv symbols \<Longrightarrow> st_lookup symbols p \<noteq> kNotFound \<Longrightarrow> unat (st_lookup symbols p) < kSymbols"
  using st_lookup_bound by blast

lemma decode_add_ok:
  assumes "st_inv symbols" "fst (decode_add raw symbols out)" "tk_msg_type out \<in> {kAddOrder, kAddOrderMPID}"
  shows "fields_ok (snd (decode_add raw symbols out))"
  using assms looked_up_symbol [OF assms(1)]
  by (auto simp: decode_add_def Let_def fields_ok_def kinds split: if_splits)

lemma decode_executed_ok:
  assumes "fst (decode_executed raw out)" "tk_msg_type out = kOrderExecuted"
  shows "fields_ok (snd (decode_executed raw out))"
  using assms by (auto simp: decode_executed_def Let_def fields_ok_def kinds split: if_splits)

lemma decode_executed_price_ok:
  assumes "fst (decode_executed_price raw out)" "tk_msg_type out = kOrderExecPrice"
  shows "fields_ok (snd (decode_executed_price raw out))"
  using assms by (auto simp: decode_executed_price_def Let_def fields_ok_def kinds split: if_splits)

lemma decode_cancel_ok:
  assumes "fst (decode_cancel raw out)" "tk_msg_type out = kOrderCancel"
  shows "fields_ok (snd (decode_cancel raw out))"
  using assms by (auto simp: decode_cancel_def Let_def fields_ok_def kinds split: if_splits)

lemma decode_delete_ok:
  assumes "fst (decode_delete raw out)" "tk_msg_type out = kOrderDelete"
  shows "fields_ok (snd (decode_delete raw out))"
  using assms by (auto simp: decode_delete_def Let_def fields_ok_def kinds split: if_splits)

lemma decode_replace_ok:
  assumes "fst (decode_replace raw out)" "tk_msg_type out = kOrderReplace"
  shows "fields_ok (snd (decode_replace raw out))"
  using assms by (auto simp: decode_replace_def Let_def fields_ok_def kinds split: if_splits)

lemma decode_trade_ok:
  assumes "st_inv symbols" "fst (decode_trade raw symbols out)" "tk_msg_type out = kTrade"
  shows "fields_ok (snd (decode_trade raw symbols out))"
  using assms looked_up_symbol [OF assms(1)]
  by (auto simp: decode_trade_def Let_def fields_ok_def kinds split: if_splits)

lemma decode_cross_ok:
  assumes "st_inv symbols" "fst (decode_cross raw symbols out)" "tk_msg_type out = kCrossTrade"
  shows "fields_ok (snd (decode_cross raw symbols out))"
  using assms looked_up_symbol [OF assms(1)]
  by (auto simp: decode_cross_def Let_def fields_ok_def kinds split: if_splits)

lemma decode_trading_action_ok:
  assumes "st_inv symbols" "fst (decode_trading_action raw symbols out)" "tk_msg_type out = kStockTradingAction"
  shows "fields_ok (snd (decode_trading_action raw symbols out))"
  using assms looked_up_symbol [OF assms(1)]
  by (auto simp: decode_trading_action_def Let_def fields_ok_def kinds split: if_splits)

lemma decode_reg_sho_ok:
  assumes "st_inv symbols" "fst (decode_reg_sho raw symbols out)" "tk_msg_type out = kRegSHO"
  shows "fields_ok (snd (decode_reg_sho raw symbols out))"
  using assms looked_up_symbol [OF assms(1)]
  by (auto simp: decode_reg_sho_def Let_def fields_ok_def kinds split: if_splits)

lemmas decode_oks = decode_add_ok decode_executed_ok decode_executed_price_ok decode_cancel_ok decode_delete_ok
  decode_replace_ok decode_trade_ok decode_cross_ok decode_trading_action_ok decode_reg_sho_ok

text \<open>The switch, case by case.\<close>

lemma decode_body_simps:
  "raw ! 0 \<in> {kAddOrder, kAddOrderMPID} \<Longrightarrow> decode_body raw symbols out = decode_add raw symbols out"
  "raw ! 0 = kOrderExecuted \<Longrightarrow> decode_body raw symbols out = decode_executed raw out"
  "raw ! 0 = kOrderExecPrice \<Longrightarrow> decode_body raw symbols out = decode_executed_price raw out"
  "raw ! 0 = kOrderCancel \<Longrightarrow> decode_body raw symbols out = decode_cancel raw out"
  "raw ! 0 = kOrderDelete \<Longrightarrow> decode_body raw symbols out = decode_delete raw out"
  "raw ! 0 = kOrderReplace \<Longrightarrow> decode_body raw symbols out = decode_replace raw out"
  "raw ! 0 = kTrade \<Longrightarrow> decode_body raw symbols out = decode_trade raw symbols out"
  "raw ! 0 = kCrossTrade \<Longrightarrow> decode_body raw symbols out = decode_cross raw symbols out"
  "raw ! 0 = kStockTradingAction \<Longrightarrow> decode_body raw symbols out = decode_trading_action raw symbols out"
  "raw ! 0 = kRegSHO \<Longrightarrow> decode_body raw symbols out = decode_reg_sho raw symbols out"
  by (auto simp: decode_body_def itch_types)

lemma known_type_cases:
  assumes "minimum_length m \<noteq> 0"
  obtains "m \<in> {kAddOrder, kAddOrderMPID}" | "m = kOrderExecuted" | "m = kOrderExecPrice" | "m = kOrderCancel"
    | "m = kOrderDelete" | "m = kOrderReplace" | "m = kTrade" | "m = kCrossTrade" | "m = kStockTradingAction"
    | "m = kRegSHO"
  using assms by (auto simp: minimum_length_def split: if_splits)

lemma decode_body_known:
  assumes "fst (decode_body raw symbols out)"
  shows "minimum_length (raw ! 0) \<noteq> 0"
proof
  assume "minimum_length (raw ! 0) = 0"
  then have "decode_body raw symbols out = (False, out)"
    unfolding minimum_length_def decode_body_def Let_def by (simp split: if_split_asm)
  then show False using assms by simp
qed

lemma decode_body_ok:
  assumes "st_inv symbols" and ok: "fst (decode_body raw symbols out)" and "tk_msg_type out = raw ! 0"
  shows "fields_ok (snd (decode_body raw symbols out))"
  using decode_body_known [OF ok] assms
  by (cases "raw ! 0" rule: known_type_cases) (simp_all add: decode_body_simps decode_oks)

lemma decode_keeps:
  assumes "fst (decode_body raw symbols out)"
  shows "tk_msg_type (snd (decode_body raw symbols out)) = tk_msg_type out \<and>
    tk_timestamp (snd (decode_body raw symbols out)) = tk_timestamp out"
  using decode_body_known [OF assms]
  by (cases "raw ! 0" rule: known_type_cases)
    (simp_all add: decode_body_simps decode_add_def decode_executed_def decode_executed_price_def decode_cancel_def
      decode_delete_def decode_replace_def decode_trade_def decode_cross_def decode_trading_action_def
      decode_reg_sho_def Let_def)

text \<open>What passes the head of the function.\<close>

lemma decode_head:
  assumes "fst (decode_itch buffer symbols out)"
  obtains raw where "buffer = Some raw" "11 \<le> length raw" "be_timestamp48 5 raw < 86400000000000"
    "minimum_length (raw ! 0) \<noteq> 0" "minimum_length (raw ! 0) \<le> length raw"
    "decode_itch buffer symbols out =
       decode_body raw symbols (empty_tick\<lparr>tk_msg_type := raw ! 0, tk_timestamp := be_timestamp48 5 raw\<rparr>)"
proof -
  obtain raw where raw: "buffer = Some raw" using assms by (cases buffer) (auto simp: decode_itch_def)
  let ?o = "empty_tick\<lparr>tk_msg_type := raw ! 0, tk_timestamp := be_timestamp48 5 raw\<rparr>"
  have h: "11 \<le> length raw" "be_timestamp48 5 raw < 86400000000000"
      "minimum_length (raw ! 0) \<noteq> 0 \<longrightarrow> minimum_length (raw ! 0) \<le> length raw"
      "decode_itch buffer symbols out = decode_body raw symbols ?o"
    using assms raw by (auto simp: decode_itch_def Let_def not_less not_le split: if_splits)
  moreover have "minimum_length (raw ! 0) \<noteq> 0" using decode_body_known assms h(4) by metis
  ultimately show thesis using raw that by blast
qed

lemma decoded_wf:
  assumes inv: "st_inv symbols" and ok: "fst (decode_itch buffer symbols out)"
  shows "tick_wf (snd (decode_itch buffer symbols out))"
  using decode_head [OF ok]
proof cases
  case (1 raw)
  then show ?thesis using ok decode_body_ok [OF inv] decode_keeps by (simp add: tick_wf_def)
qed

section \<open>Properties\<close>

text \<open>
  C20: Every message the decoder accepts has one of the known types, a known symbol, a time of
  day, and the reference numbers, quantities and prices its kind needs, whatever bytes arrived
  and whatever the output held before.
\<close>

theorem decode_validates:
  assumes "st_inv symbols" "fst (decode_itch buffer symbols out)"
  shows "tick_wf (snd (decode_itch buffer symbols out))"
  using decoded_wf [OF assms] .

definition sample_delete :: "u8 list" where
  "sample_delete = [0x44, 0, 3, 0, 0, 0, 0, 0, 0, 0, 1, 0, 0, 0, 0, 0, 0, 0, 7]"

lemma sample_delete_decodes:
  "decode_itch (Some sample_delete) st_clear empty_tick =
     (True, empty_tick\<lparr>tk_msg_type := kOrderDelete, tk_timestamp := 1, tk_symbol_idx := 3, tk_order_ref := 7\<rparr>)"
  by (simp add: decode_itch_def sample_delete_def minimum_length_def itch_types decode_body_def decode_delete_def
      be_timestamp48_def be16_def be32_def be64_def field_def of_be_def empty_tick_def word_le_nat_alt)

theorem decode_validates_witness:
  "st_inv st_clear \<and> fst (decode_itch (Some sample_delete) st_clear empty_tick) \<and>
   tick_wf (snd (decode_itch (Some sample_delete) st_clear empty_tick))"
  using decode_validates [of st_clear "Some sample_delete" empty_tick] st_clear_inv sample_delete_decodes by simp

end
