(* ===== verification/Feed_Encode.thy ===== *)
theory Feed_Encode
  imports Itch_Decode
begin

text \<open>
  The ITCH encoders of the simulated feed (\<open>luv_feed_sim.hpp\<close>): big-endian stores, tickers and
  one encoder per message kind.  The theory shows that the decoder reads back every field.
\<close>

section \<open>Encoders\<close>

definition kSimMaxMsgLen :: nat where
  "kSimMaxMsgLen = 50"

definition put_u16_be :: "nat \<Rightarrow> u16 \<Rightarrow> u8 list \<Rightarrow> u8 list" where
  "put_u16_be p v = put_bytes p [ucast (drop_bit 8 v), ucast v]"

definition put_u32_be :: "nat \<Rightarrow> u32 \<Rightarrow> u8 list \<Rightarrow> u8 list" where
  "put_u32_be p v = put_bytes p [ucast (drop_bit 24 v), ucast (drop_bit 16 v), ucast (drop_bit 8 v), ucast v]"

definition put_u48_be :: "nat \<Rightarrow> u64 \<Rightarrow> u8 list \<Rightarrow> u8 list" where
  "put_u48_be p v = put_bytes p [ucast (drop_bit 40 v), ucast (drop_bit 32 v), ucast (drop_bit 24 v),
     ucast (drop_bit 16 v), ucast (drop_bit 8 v), ucast v]"

definition put_u64_be :: "nat \<Rightarrow> u64 \<Rightarrow> u8 list \<Rightarrow> u8 list" where
  "put_u64_be p v = put_bytes p [ucast (drop_bit 56 v), ucast (drop_bit 48 v), ucast (drop_bit 40 v),
     ucast (drop_bit 32 v), ucast (drop_bit 24 v), ucast (drop_bit 16 v), ucast (drop_bit 8 v), ucast v]"

text \<open>The digits are written from the last to the first; the terminating zero is not copied.\<close>

primrec stock_digits :: "nat \<Rightarrow> nat \<Rightarrow> u8 list" where
  "stock_digits 0 i = []"
| "stock_digits (Suc n) i = stock_digits n (i div 10) @ [of_nat (48 + i mod 10)]"

definition format_stock :: "nat \<Rightarrow> u8 list" where
  "format_stock symbol_index = 0x53 # stock_digits 7 symbol_index"

definition write_itch_header :: "u8 \<Rightarrow> u16 \<Rightarrow> u64 \<Rightarrow> u8 list \<Rightarrow> u8 list" where
  "write_itch_header msg_type locate ts dst =
     put_u48_be 5 ts (put_u16_be 3 0 (put_u16_be 1 locate (put_bytes 0 [msg_type] dst)))"

text \<open>
  The bytes each generator writes, given the values it draws; the generators below draw them in
  the order of the code.
\<close>

definition add_order :: "u16 \<Rightarrow> u64 \<Rightarrow> u64 \<Rightarrow> bool \<Rightarrow> u32 \<Rightarrow> u32 \<Rightarrow> u8 list \<Rightarrow> u8 list" where
  "add_order sym_idx ts order_ref buy shares price dst =
     put_u32_be 32 price (put_bytes 24 (format_stock (unat sym_idx)) (put_u32_be 20 shares
       (put_bytes 19 [if buy then 0x42 else 0x53] (put_u64_be 11 order_ref
         (write_itch_header kAddOrder sym_idx ts dst)))))"

definition order_executed :: "u16 \<Rightarrow> u64 \<Rightarrow> u64 \<Rightarrow> u32 \<Rightarrow> u64 \<Rightarrow> u8 list \<Rightarrow> u8 list" where
  "order_executed sym_idx ts ref exec_shares match_num dst =
     put_u64_be 23 match_num (put_u32_be 19 exec_shares (put_u64_be 11 ref
       (write_itch_header kOrderExecuted sym_idx ts dst)))"

definition order_cancel :: "u16 \<Rightarrow> u64 \<Rightarrow> u64 \<Rightarrow> u32 \<Rightarrow> u8 list \<Rightarrow> u8 list" where
  "order_cancel sym_idx ts ref cancel_shares dst =
     put_u32_be 19 cancel_shares (put_u64_be 11 ref (write_itch_header kOrderCancel sym_idx ts dst))"

definition order_delete :: "u16 \<Rightarrow> u64 \<Rightarrow> u64 \<Rightarrow> u8 list \<Rightarrow> u8 list" where
  "order_delete sym_idx ts ref dst = put_u64_be 11 ref (write_itch_header kOrderDelete sym_idx ts dst)"

section \<open>Reading back\<close>

lemma be_fields:
  "field off 2 raw = to_be 2 (unat v) \<Longrightarrow> be16 off raw = v"
  "field off 4 raw = to_be 4 (unat w) \<Longrightarrow> be32 off raw = w"
  "field off 8 raw = to_be 8 (unat x) \<Longrightarrow> be64 off raw = x"
  by (simp_all add: be16_def be32_def be64_def of_be_to_be word_ranges)

lemma be_timestamp_sum:
  fixes a :: u16 and b :: u32
  shows "unat (push_bit 32 (ucast a :: u64) OR ucast b) = unat a * 2 ^ 32 + unat b"
proof -
  have "push_bit 32 (ucast a :: u64) AND ucast b = 0"
    by (rule bit_word_eqI) (auto simp: bit_simps dest: bit_imp_le_length)
  then have "push_bit 32 (ucast a :: u64) OR ucast b = push_bit 32 (ucast a) + ucast b"
    by (simp add: disjunctive_add_eq_or)
  then have eq: "push_bit 32 (ucast a :: u64) OR ucast b = of_nat (unat a * 2 ^ 32 + unat b)"
    by (simp add: push_bit_eq_mult)
  show ?thesis
    unfolding eq unat_of_nat using word_ranges(1) [of a] word_ranges(2) [of b] by simp
qed

lemma be_timestamp_field:
  assumes f: "field off 6 raw = to_be 6 (unat ts)" and ts: "unat ts < 2 ^ 48"
  shows "be_timestamp48 off raw = ts"
proof -
  let ?b = "field off 6 raw"
  have parts: "field off 2 raw = take 2 ?b" "field (off + 2) 4 raw = drop 2 ?b"
    by (simp_all add: field_def drop_take add.commute min_def)
  have l: "length ?b = 6" using f by simp
  have "unat ts = of_be ?b" using f ts by (simp add: of_be_to_be)
  also have "\<dots> = of_be (take 2 ?b @ drop 2 ?b)" by simp
  also have "\<dots> = of_be (take 2 ?b) * 2 ^ 32 + of_be (drop 2 ?b)" unfolding of_be_append using l by simp
  finally have "unat ts = of_be (take 2 ?b) * 2 ^ 32 + of_be (drop 2 ?b)" .
  moreover have "of_be (take 2 ?b) < 65536" "of_be (drop 2 ?b) < 4294967296"
    using of_be_less [of "take 2 ?b"] of_be_less [of "drop 2 ?b"] l by simp_all
  ultimately have "unat (be_timestamp48 off raw) = unat ts"
    unfolding be_timestamp48_def be_timestamp_sum be16_def be32_def parts by (simp add: unat_of_nat)
  then show ?thesis by (simp add: word_unat_eq_iff)
qed

text \<open>Tickers are distinct.\<close>

lemma length_stock_digits [simp]: "length (stock_digits n i) = n"
  by (induction n arbitrary: i) simp_all

lemma stock_digits_inj: "stock_digits n i = stock_digits n j \<Longrightarrow> i mod 10 ^ n = j mod 10 ^ n"
proof (induction n arbitrary: i j)
  case (Suc n)
  have digit: "unat (of_nat (48 + k mod 10) :: u8) = 48 + k mod 10" for k
  proof -
    have "48 + k mod 10 < 256" using mod_less_divisor [of 10 k] by linarith
    then show ?thesis by (simp only: unat_of_nat) simp
  qed
  have eq: "stock_digits n (i div 10) = stock_digits n (j div 10)"
      "(of_nat (48 + i mod 10) :: u8) = of_nat (48 + j mod 10)"
    using Suc.prems by (simp_all only: stock_digits.simps append1_eq_conv)
  have "i mod 10 = j mod 10" using arg_cong [OF eq(2), of unat] unfolding digit by simp
  with Suc.IH [OF eq(1)] show ?case by (simp add: mod_mult2_eq)
qed simp

lemma length_format_stock: "length (format_stock i) = 8"
  by (simp add: format_stock_def)

definition ticker_key :: "nat \<Rightarrow> u64" where
  "ticker_key i = load_ticker_key (format_stock i)"

lemma ticker_key_inj: "i < 10 ^ 7 \<Longrightarrow> j < 10 ^ 7 \<Longrightarrow> ticker_key i = ticker_key j \<Longrightarrow> i = j"
proof -
  assume ij: "i < 10 ^ 7" "j < 10 ^ 7" and "ticker_key i = ticker_key j"
  then have "(le_word (of_le_word (format_stock i) :: u64)) = le_word (of_le_word (format_stock j) :: u64)"
    by (simp add: ticker_key_def load_ticker_key_def format_stock_def)
  then have "format_stock i = format_stock j" by (simp add: word_reads format_stock_def)
  then have "stock_digits 7 i = stock_digits 7 j" by (simp add: format_stock_def)
  from stock_digits_inj [OF this] show "i = j" using ij by simp
qed

text \<open>Reading a field of an encoded message.\<close>

lemma put_be:
  "put_u16_be p v = put_bytes p (to_be 2 (unat v))" "put_u32_be p w = put_bytes p (to_be 4 (unat w))"
  "put_u48_be p x = put_bytes p (to_be 6 (unat x))" "put_u64_be p x = put_bytes p (to_be 8 (unat x))"
  by (simp_all add: put_u16_be_def put_u32_be_def put_u48_be_def put_u64_be_def to_be_word_bytes)

lemmas encoders = write_itch_header_def add_order_def order_executed_def order_cancel_def order_delete_def

lemmas reads = field_put_same field_put_before field_put_after nth_put_same nth_put_other field_take

lemma header_reads:
  assumes "19 \<le> length dst"
  shows "length (write_itch_header m loc ts dst) = length dst"
    "write_itch_header m loc ts dst ! 0 = m"
    "field 1 2 (write_itch_header m loc ts dst) = to_be 2 (unat loc)"
    "field 5 6 (write_itch_header m loc ts dst) = to_be 6 (unat ts)"
  using assms by (simp_all add: write_itch_header_def put_be reads del: length_greater_0_conv One_nat_def)

lemma add_order_reads:
  assumes "36 \<le> length dst" and m: "m = take 36 (add_order sym_idx ts ref buy shares price dst)"
  shows "length m = 36" "m ! 0 = kAddOrder" "field 5 6 m = to_be 6 (unat ts)" "field 11 8 m = to_be 8 (unat ref)"
    "m ! 19 = (if buy then 0x42 else 0x53)" "field 20 4 m = to_be 4 (unat shares)"
    "field 24 8 m = format_stock (unat sym_idx)" "field 32 4 m = to_be 4 (unat price)"
  using assms by (simp_all add: add_order_def put_be reads header_reads length_format_stock del: length_greater_0_conv One_nat_def)

lemma order_executed_reads:
  assumes "31 \<le> length dst" and m: "m = take 31 (order_executed sym_idx ts ref shares match dst)"
  shows "length m = 31" "m ! 0 = kOrderExecuted" "field 1 2 m = to_be 2 (unat sym_idx)"
    "field 5 6 m = to_be 6 (unat ts)" "field 11 8 m = to_be 8 (unat ref)"
    "field 19 4 m = to_be 4 (unat shares)" "field 23 8 m = to_be 8 (unat match)"
  using assms by (simp_all add: order_executed_def put_be reads header_reads del: length_greater_0_conv One_nat_def)

lemma order_cancel_reads:
  assumes "23 \<le> length dst" and m: "m = take 23 (order_cancel sym_idx ts ref shares dst)"
  shows "length m = 23" "m ! 0 = kOrderCancel" "field 1 2 m = to_be 2 (unat sym_idx)"
    "field 5 6 m = to_be 6 (unat ts)" "field 11 8 m = to_be 8 (unat ref)" "field 19 4 m = to_be 4 (unat shares)"
  using assms by (simp_all add: order_cancel_def put_be reads header_reads del: length_greater_0_conv One_nat_def)

lemma order_delete_reads:
  assumes "19 \<le> length dst" and m: "m = take 19 (order_delete sym_idx ts ref dst)"
  shows "length m = 19" "m ! 0 = kOrderDelete" "field 1 2 m = to_be 2 (unat sym_idx)"
    "field 5 6 m = to_be 6 (unat ts)" "field 11 8 m = to_be 8 (unat ref)"
  using assms by (simp_all add: order_delete_def put_be reads header_reads del: length_greater_0_conv One_nat_def)

section \<open>The decoder on encoded messages\<close>

definition kDayNs :: nat where
  "kDayNs = 86400000000000"

lemma day_ts:
  assumes "unat (ts :: u64) < kDayNs"
  shows "unat ts < 2 ^ 48" "\<not> ts \<ge> 86400000000000"
  using assms by (simp_all add: kDayNs_def word_le_nat_alt)

lemma decode_to_body:
  assumes "unat ts < kDayNs" "field 5 6 m = to_be 6 (unat ts)" "11 \<le> length m" "minimum_length (m ! 0) \<le> length m"
  shows "decode_itch (Some m) symbols out =
    decode_body m symbols (empty_tick\<lparr>tk_msg_type := m ! 0, tk_timestamp := ts\<rparr>)"
  using assms day_ts [OF assms(1)] be_timestamp_field [OF assms(2)]
  by (simp add: decode_itch_def Let_def)

lemma lookup_field: "st_lookup t (Some (drop off raw)) = st_lookup_key t (load_ticker_key (field off 8 raw))"
  by (simp add: st_lookup_def load_ticker_key_def field_def)

lemma decode_add_order:
  assumes "36 \<le> length dst" and ts: "unat ts < kDayNs" and "ref \<noteq> 0"
    and "is_valid_quantity (uint shares)" "is_valid_price (uint price)"
    and "st_map symbols (ticker_key (unat sym_idx)) = Some idx"
  shows "decode_itch (Some (take 36 (add_order sym_idx ts ref buy shares price dst))) symbols out =
    (True, empty_tick\<lparr>tk_msg_type := kAddOrder, tk_timestamp := ts, tk_symbol_idx := unat idx, tk_order_ref := ref,
       tk_qty := uint shares, tk_price := uint price, tk_flags := (if buy then kBuy else 0)\<rparr>)"
proof -
  obtain m where m: "m = take 36 (add_order sym_idx ts ref buy shares price dst)" by blast
  note r = add_order_reads [OF assms(1) m]
  note be = be_fields(3) [OF r(4)] be_fields(2) [OF r(6)] be_fields(2) [OF r(8)]
  have look: "st_lookup_key symbols (load_ticker_key (format_stock (unat sym_idx))) = idx" "idx \<noteq> kNotFound"
    using assms(6) by (auto simp: st_map_def ticker_key_def split: if_splits)
  show ?thesis unfolding m [symmetric] using assms(3-5) look
    by (subst decode_to_body [OF ts r(3)])
      (simp_all add: r be minimum_length_def decode_body_simps decode_add_def lookup_field is_side_def del: One_nat_def)
qed

lemma decode_order_executed:
  assumes "31 \<le> length dst" and ts: "unat ts < kDayNs" and "ref \<noteq> 0" "unat sym_idx < kSymbols"
    and "is_valid_quantity (uint shares)"
  shows "decode_itch (Some (take 31 (order_executed sym_idx ts ref shares match_num dst))) symbols out =
    (True, empty_tick\<lparr>tk_msg_type := kOrderExecuted, tk_timestamp := ts, tk_symbol_idx := unat sym_idx,
       tk_order_ref := ref, tk_qty := uint shares, tk_match_num := match_num, tk_flags := kPrintable\<rparr>)"
proof -
  obtain m where m: "m = take 31 (order_executed sym_idx ts ref shares match_num dst)" by blast
  note r = order_executed_reads [OF assms(1) m]
  note be = be_fields(1) [OF r(3)] be_fields(3) [OF r(5)] be_fields(2) [OF r(6)] be_fields(3) [OF r(7)]
  show ?thesis unfolding m [symmetric] using assms(3-5)
    by (subst decode_to_body [OF ts r(4)])
      (simp_all add: r be minimum_length_def decode_body_simps decode_executed_def itch_types del: One_nat_def)
qed

lemma decode_order_cancel:
  assumes "23 \<le> length dst" and ts: "unat ts < kDayNs" and "ref \<noteq> 0" "unat sym_idx < kSymbols"
    and "is_valid_quantity (uint shares)"
  shows "decode_itch (Some (take 23 (order_cancel sym_idx ts ref shares dst))) symbols out =
    (True, empty_tick\<lparr>tk_msg_type := kOrderCancel, tk_timestamp := ts, tk_symbol_idx := unat sym_idx,
       tk_order_ref := ref, tk_qty := uint shares\<rparr>)"
proof -
  obtain m where m: "m = take 23 (order_cancel sym_idx ts ref shares dst)" by blast
  note r = order_cancel_reads [OF assms(1) m]
  note be = be_fields(1) [OF r(3)] be_fields(3) [OF r(5)] be_fields(2) [OF r(6)]
  show ?thesis unfolding m [symmetric] using assms(3-5)
    by (subst decode_to_body [OF ts r(4)])
      (simp_all add: r be minimum_length_def decode_body_simps decode_cancel_def itch_types del: One_nat_def)
qed

lemma decode_order_delete:
  assumes "19 \<le> length dst" and ts: "unat ts < kDayNs" and "ref \<noteq> 0" "unat sym_idx < kSymbols"
  shows "decode_itch (Some (take 19 (order_delete sym_idx ts ref dst))) symbols out =
    (True, empty_tick\<lparr>tk_msg_type := kOrderDelete, tk_timestamp := ts, tk_symbol_idx := unat sym_idx,
       tk_order_ref := ref\<rparr>)"
proof -
  obtain m where m: "m = take 19 (order_delete sym_idx ts ref dst)" by blast
  note r = order_delete_reads [OF assms(1) m]
  note be = be_fields(1) [OF r(3)] be_fields(3) [OF r(5)]
  show ?thesis unfolding m [symmetric] using assms(3,4)
    by (subst decode_to_body [OF ts r(4)])
      (simp_all add: r be minimum_length_def decode_body_simps decode_delete_def itch_types del: One_nat_def)
qed

end
