(* ===== verification/Feed_Sim.thy ===== *)
theory Feed_Sim
  imports Feed_Encode "HOL-Library.Monad_Syntax" "HOL-Library.Multiset"
begin

text \<open>
  The simulated feed of \<open>luv_feed_sim.hpp\<close>: the generator of pseudo-random numbers, the message
  generators, the synthetic source with its reorder window, and the replay source.

  An operation returns \<open>None\<close> where the compiled code divides by zero or leaves an array.
\<close>

section \<open>Random numbers\<close>

record Xoshiro256 =
  xs0 :: u64
  xs1 :: u64
  xs2 :: u64
  xs3 :: u64

definition rotl :: "u64 \<Rightarrow> nat \<Rightarrow> u64" where
  "rotl x k = push_bit k x OR drop_bit (64 - k) x"

definition split_mix :: "u64 \<Rightarrow> u64" where
  "split_mix seed =
     (let z = (seed XOR drop_bit 30 seed) * 0xBF58476D1CE4E5B9; z = (z XOR drop_bit 27 z) * 0x94D049BB133111EB in
      z XOR drop_bit 31 z)"

definition seed_rng :: "u64 \<Rightarrow> Xoshiro256" where
  "seed_rng seed =
     (let step = 0x9E3779B97F4A7C15 in
      \<lparr>xs0 = split_mix (seed + step), xs1 = split_mix (seed + 2 * step),
       xs2 = split_mix (seed + 3 * step), xs3 = split_mix (seed + 4 * step)\<rparr>)"

definition rng_next :: "Xoshiro256 \<Rightarrow> u64 \<times> Xoshiro256" where
  "rng_next g =
     (let result = rotl (xs1 g * 5) 7 * 9; t = push_bit 17 (xs1 g);
          s2 = xs2 g XOR xs0 g; s3 = xs3 g XOR xs1 g; s1 = xs1 g XOR s2; s0 = xs0 g XOR s3 in
      (result, \<lparr>xs0 = s0, xs1 = s1, xs2 = s2 XOR t, xs3 = rotl s3 45\<rparr>))"

definition uniform :: "int \<Rightarrow> int \<Rightarrow> Xoshiro256 \<Rightarrow> (int \<times> Xoshiro256) option" where
  "uniform lo hi g =
     (let range = word_of_int (s64 (hi - lo)) + 1 :: u64; (x, g) = rng_next g in
      if range = 0 then None else Some (s64 (lo + s64 (uint (x mod range))), g))"

definition uniform_u32 :: "u32 \<Rightarrow> u32 \<Rightarrow> Xoshiro256 \<Rightarrow> (u32 \<times> Xoshiro256) option" where
  "uniform_u32 lo hi g =
     (let range = hi - lo + 1; (x, g) = rng_next g in
      if range = 0 then None else Some (lo + ucast (x mod ucast range), g))"

section \<open>Configuration\<close>

text \<open>
  The \<open>double\<close> \<open>drop_rate\<close> is read in three ways: whether it lies in the unit interval, whether
  it is one of its ends, and which draws lie below a thousand times its value.
\<close>

datatype DropRate = RateInvalid | RateZero | RateOne | RateBelow "u32 \<Rightarrow> bool"

datatype Mode = kSynthetic | kReplay

record SimConfig =
  sc_mode :: Mode
  sc_synthetic_symbols :: u32
  sc_target_rate_hz :: u64
  sc_seed :: u64
  sc_prebuf_count :: u32
  sc_drop_rate :: DropRate
  sc_reorder_window :: u32
  sc_burst_size :: u32
  sc_burst_interval :: u32
  sc_min_price :: int
  sc_max_price :: int
  sc_min_qty :: int
  sc_max_qty :: int

definition default_SimConfig :: SimConfig where
  "default_SimConfig = \<lparr>sc_mode = kSynthetic, sc_synthetic_symbols = 128, sc_target_rate_hz = 1000000,
     sc_seed = 0xDEADBEEFCAFEBABE, sc_prebuf_count = 65536, sc_drop_rate = RateZero, sc_reorder_window = 0,
     sc_burst_size = 0, sc_burst_interval = 0, sc_min_price = 1000000, sc_max_price = 5000000,
     sc_min_qty = 1, sc_max_qty = 10000\<rparr>"

section \<open>Generators\<close>

text \<open>A generator returns the filled buffer, the length of the message and the generator's state.\<close>

definition draw_symbol :: "SimConfig \<Rightarrow> Xoshiro256 \<Rightarrow> (u16 \<times> Xoshiro256) option" where
  "draw_symbol cfg g = map_option (\<lambda>(x, g). (ucast x, g)) (uniform_u32 0 (sc_synthetic_symbols cfg - 1) g)"

definition draw_ref :: "u64 \<Rightarrow> Xoshiro256 \<Rightarrow> (u64 \<times> Xoshiro256) option" where
  "draw_ref order_ref_max g =
     (if order_ref_max > 1
      then map_option (\<lambda>(x, g). (word_of_int x, g)) (uniform 1 (sint (order_ref_max - 1)) g)
      else Some (1, g))"

definition gen_add_order ::
  "SimConfig \<Rightarrow> u8 list \<Rightarrow> u64 \<Rightarrow> u64 \<Rightarrow> Xoshiro256 \<Rightarrow> (u8 list \<times> nat \<times> Xoshiro256) option" where
  "gen_add_order cfg dst ts order_ref g = do {
     (sym_idx, g) \<leftarrow> draw_symbol cfg g;
     let (side, g) = rng_next g;
     (shares, g) \<leftarrow> uniform (sc_min_qty cfg) (sc_max_qty cfg) g;
     (price, g) \<leftarrow> uniform (sc_min_price cfg) (sc_max_price cfg) g;
     Some (add_order sym_idx ts order_ref (side AND 1 \<noteq> 0) (word_of_int shares) (word_of_int price) dst, 36, g)
   }"

definition gen_order_executed ::
  "SimConfig \<Rightarrow> u8 list \<Rightarrow> u64 \<Rightarrow> u64 \<Rightarrow> Xoshiro256 \<Rightarrow> (u8 list \<times> nat \<times> Xoshiro256) option" where
  "gen_order_executed cfg dst ts order_ref_max g = do {
     (sym_idx, g) \<leftarrow> draw_symbol cfg g;
     (ref, g) \<leftarrow> draw_ref order_ref_max g;
     (exec_shares, g) \<leftarrow> uniform 1 (sgn (sc_max_qty cfg) * (\<bar>sc_max_qty cfg\<bar> div 2)) g;
     let (match_num, g) = rng_next g;
     Some (order_executed sym_idx ts ref (word_of_int exec_shares) match_num dst, 31, g)
   }"

definition gen_order_cancel ::
  "SimConfig \<Rightarrow> u8 list \<Rightarrow> u64 \<Rightarrow> u64 \<Rightarrow> Xoshiro256 \<Rightarrow> (u8 list \<times> nat \<times> Xoshiro256) option" where
  "gen_order_cancel cfg dst ts order_ref_max g = do {
     (sym_idx, g) \<leftarrow> draw_symbol cfg g;
     (ref, g) \<leftarrow> draw_ref order_ref_max g;
     (cancel_shares, g) \<leftarrow> uniform 1 (sc_max_qty cfg) g;
     Some (order_cancel sym_idx ts ref (word_of_int cancel_shares) dst, 23, g)
   }"

definition gen_order_delete ::
  "SimConfig \<Rightarrow> u8 list \<Rightarrow> u64 \<Rightarrow> u64 \<Rightarrow> Xoshiro256 \<Rightarrow> (u8 list \<times> nat \<times> Xoshiro256) option" where
  "gen_order_delete cfg dst ts order_ref_max g = do {
     (sym_idx, g) \<leftarrow> draw_symbol cfg g;
     (ref, g) \<leftarrow> draw_ref order_ref_max g;
     Some (order_delete sym_idx ts ref dst, 19, g)
   }"

text \<open>One round of the loop of \<open>generate_synthetic_messages\<close>, and the loop.\<close>

definition generate_one ::
  "SimConfig \<Rightarrow> u64 \<Rightarrow> u64 \<Rightarrow> Xoshiro256 \<Rightarrow> (u8 list \<times> nat \<times> u64 \<times> u64 \<times> Xoshiro256) option" where
  "generate_one cfg ts order_ref_seq g = do {
     let dst = replicate kSimMaxMsgLen 0;
     (roll, g) \<leftarrow> uniform_u32 0 99 g;
     (raw, len, g) \<leftarrow>
       (if roll < 60 then gen_add_order cfg dst ts order_ref_seq g
        else if roll < 75 then gen_order_executed cfg dst ts order_ref_seq g
        else if roll < 90 then gen_order_cancel cfg dst ts order_ref_seq g
        else gen_order_delete cfg dst ts order_ref_seq g);
     (gap, g) \<leftarrow> uniform 100 10000 g;
     Some (raw, len, ts + word_of_int gap, if roll < 60 then order_ref_seq + 1 else order_ref_seq, g)
   }"

primrec generate ::
  "SimConfig \<Rightarrow> nat \<Rightarrow> u64 \<Rightarrow> u64 \<Rightarrow> Xoshiro256 \<Rightarrow> ((u8 list \<times> nat) list \<times> Xoshiro256) option" where
  "generate cfg 0 ts order_ref_seq g = Some ([], g)"
| "generate cfg (Suc n) ts order_ref_seq g = do {
     (raw, len, ts, order_ref_seq, g) \<leftarrow> generate_one cfg ts order_ref_seq g;
     (msgs, g) \<leftarrow> generate cfg n ts order_ref_seq g;
     Some ((raw, len) # msgs, g)
   }"

definition generate_synthetic_messages ::
  "SimConfig \<Rightarrow> nat \<Rightarrow> Xoshiro256 \<Rightarrow> ((u8 list \<times> nat) list \<times> Xoshiro256) option" where
  "generate_synthetic_messages cfg prebuf_count g = generate cfg prebuf_count 34200000000000 1 g"

section \<open>The source\<close>

record SimFeedSource =
  sf_cfg :: SimConfig
  sf_total_msgs :: u64
  sf_total_bytes :: u64
  sf_total_dropped :: u64
  sf_raw_buf :: "(u8 list \<times> nat) list"
  sf_prebuf_count :: nat
  sf_prebuf_idx :: nat
  sf_pending_idx :: "nat list"
  sf_pending_count :: nat
  sf_reorder_capacity :: nat
  sf_reorder_source_remaining :: nat
  sf_rng :: Xoshiro256
  sf_symbols :: SymbolTable
  sf_ns_per_msg :: u64
  sf_last_emit_ns :: u64
  sf_messages_since_burst :: u32
  sf_burst_remaining :: u32
  sf_replay_base :: "u8 list"
  sf_replay_cursor :: nat

definition new_source :: "SimConfig \<Rightarrow> SimFeedSource" where
  "new_source cfg = \<lparr>sf_cfg = cfg, sf_total_msgs = 0, sf_total_bytes = 0, sf_total_dropped = 0,
     sf_raw_buf = [], sf_prebuf_count = 0, sf_prebuf_idx = 0, sf_pending_idx = [], sf_pending_count = 0,
     sf_reorder_capacity = 0, sf_reorder_source_remaining = 0, sf_rng = seed_rng 0, sf_symbols = st_clear,
     sf_ns_per_msg = 0, sf_last_emit_ns = 0, sf_messages_since_burst = 0, sf_burst_remaining = 0,
     sf_replay_base = [], sf_replay_cursor = 0\<rparr>"

primrec insert_tickers :: "nat \<Rightarrow> SymbolTable \<Rightarrow> SymbolTable option" where
  "insert_tickers 0 t = Some t"
| "insert_tickers (Suc n) t = do {
     t \<leftarrow> insert_tickers n t;
     map_option snd (st_insert t (Some (format_stock n)) (of_nat n))
   }"

definition ns_per_msg :: "SimConfig \<Rightarrow> u64 \<Rightarrow> u64" where
  "ns_per_msg cfg old = (if sc_target_rate_hz cfg > 0 then 1000000000 div sc_target_rate_hz cfg else old)"

text \<open>
  The slab of at most $2^{32}$ messages fits \<open>size_t\<close> with room to align, so the overflow checks
  pass; whether \<open>mmap\<close> succeeds and the time are arguments.
\<close>

definition init_synthetic :: "bool \<Rightarrow> u64 \<Rightarrow> SimFeedSource \<Rightarrow> (bool \<times> SimFeedSource) option" where
  "init_synthetic mapped now s = do {
     let cfg = sf_cfg s;
     let n = unat (sc_prebuf_count cfg);
     symbols \<leftarrow> insert_tickers (unat (sc_synthetic_symbols cfg)) (sf_symbols s);
     let s = s\<lparr>sf_rng := seed_rng (sc_seed cfg), sf_prebuf_count := n,
              sf_ns_per_msg := ns_per_msg cfg (sf_ns_per_msg s), sf_symbols := symbols\<rparr>;
     if n = 0 then Some (False, s)
     else do {
       let cap = min (unat (sc_reorder_window cfg)) n;
       let s = s\<lparr>sf_reorder_capacity := cap\<rparr>;
       if \<not> mapped then Some (False, s)
       else do {
         (msgs, g) \<leftarrow> generate_synthetic_messages cfg n (sf_rng s);
         Some (True, s\<lparr>sf_raw_buf := msgs, sf_rng := g, sf_pending_idx := replicate cap 0,
                  sf_last_emit_ns := now\<rparr>)
       }
     }
   }"

text \<open>The path, the descriptor, its status and the mapping are one answer: the mapped bytes, if any.\<close>

definition init_replay :: "u8 list option \<Rightarrow> u64 \<Rightarrow> SimFeedSource \<Rightarrow> (bool \<times> SimFeedSource) option" where
  "init_replay contents now s =
     Some (case contents of
       None \<Rightarrow> (False, s)
     | Some bytes \<Rightarrow>
         if bytes = [] then (False, s)
         else (True, s\<lparr>sf_replay_base := bytes, sf_replay_cursor := 0,
                sf_ns_per_msg := ns_per_msg (sf_cfg s) (sf_ns_per_msg s), sf_last_emit_ns := now\<rparr>))"

definition sim_init :: "bool \<Rightarrow> bool \<Rightarrow> u8 list option \<Rightarrow> u64 \<Rightarrow> SimFeedSource \<Rightarrow> (bool \<times> SimFeedSource) option" where
  "sim_init arena_initialised mapped contents now s =
     (if \<not> arena_initialised \<or> sc_drop_rate (sf_cfg s) = RateInvalid then Some (False, s)
      else if sc_mode (sf_cfg s) = kSynthetic then init_synthetic mapped now s
      else init_replay contents now s)"

section \<open>Polling\<close>

definition burst_active :: "SimFeedSource \<Rightarrow> bool" where
  "burst_active s \<longleftrightarrow> sf_burst_remaining s \<noteq> 0"

definition note_attempt :: "SimFeedSource \<Rightarrow> SimFeedSource" where
  "note_attempt s =
     (if sf_burst_remaining s \<noteq> 0 then s\<lparr>sf_burst_remaining := sf_burst_remaining s - 1\<rparr>
      else if sc_burst_size (sf_cfg s) > 0 \<and> sc_burst_interval (sf_cfg s) > 0 then
        let m = sf_messages_since_burst s + 1 in
        if m \<ge> sc_burst_interval (sf_cfg s)
        then s\<lparr>sf_messages_since_burst := 0, sf_burst_remaining := sc_burst_size (sf_cfg s)\<rparr>
        else s\<lparr>sf_messages_since_burst := m\<rparr>
      else s)"

definition should_drop :: "SimFeedSource \<Rightarrow> (bool \<times> SimFeedSource) option" where
  "should_drop s =
     (case sc_drop_rate (sf_cfg s) of
        RateBelow below \<Rightarrow>
          map_option (\<lambda>(x, g). (below x, s\<lparr>sf_rng := g\<rparr>)) (uniform_u32 0 999 (sf_rng s))
      | RateOne \<Rightarrow> Some (True, s)
      | _ \<Rightarrow> Some (False, s))"

text \<open>An assignment to \<open>_pending_idx\<close>, which has \<open>_reorder_capacity\<close> entries.\<close>

definition set_pending :: "nat \<Rightarrow> nat \<Rightarrow> SimFeedSource \<Rightarrow> SimFeedSource option" where
  "set_pending i v s =
     (if i < length (sf_pending_idx s) then Some (s\<lparr>sf_pending_idx := (sf_pending_idx s)[i := v]\<rparr>) else None)"

definition push_pending :: "SimFeedSource \<Rightarrow> SimFeedSource option" where
  "push_pending s =
     map_option (\<lambda>s. s\<lparr>sf_pending_count := Suc (sf_pending_count s),
                  sf_prebuf_idx := (sf_prebuf_idx s + 1) mod sf_prebuf_count s\<rparr>)
       (set_pending (sf_pending_count s) (sf_prebuf_idx s) s)"

primrec fill_pending :: "nat \<Rightarrow> SimFeedSource \<Rightarrow> SimFeedSource option" where
  "fill_pending 0 s = Some s"
| "fill_pending (Suc n) s = (push_pending s \<bind> fill_pending n)"

definition refill :: "SimFeedSource \<Rightarrow> SimFeedSource option" where
  "refill s =
     (if sf_pending_count s = 0 then
        map_option (\<lambda>s. s\<lparr>sf_reorder_source_remaining := sf_prebuf_count s - sf_reorder_capacity s\<rparr>)
          (fill_pending (sf_reorder_capacity s) s)
      else if sf_reorder_source_remaining s \<noteq> 0 then
        map_option (\<lambda>s. s\<lparr>sf_reorder_source_remaining := sf_reorder_source_remaining s - 1\<rparr>) (push_pending s)
      else Some s)"

definition next_synthetic_index :: "SimFeedSource \<Rightarrow> (nat \<times> SimFeedSource) option" where
  "next_synthetic_index s =
     (if sf_reorder_capacity s = 0
      then Some (sf_prebuf_idx s, s\<lparr>sf_prebuf_idx := (sf_prebuf_idx s + 1) mod sf_prebuf_count s\<rparr>)
      else do {
        s \<leftarrow> refill s;
        (choice, g) \<leftarrow> uniform_u32 0 (of_nat (sf_pending_count s) - 1) (sf_rng s);
        let s = s\<lparr>sf_rng := g\<rparr>;
        let n = sf_pending_count s - 1;
        if unat choice < length (sf_pending_idx s) \<and> n < length (sf_pending_idx s) then do {
          let index = sf_pending_idx s ! unat choice;
          s \<leftarrow> set_pending (unat choice) (sf_pending_idx s ! n) (s\<lparr>sf_pending_count := n\<rparr>);
          Some (index, s)
        } else None
      })"

text \<open>Whether the rate allows a message now, and the ring has room.\<close>

definition pace :: "u64 \<Rightarrow> SimFeedSource \<Rightarrow> bool \<times> SimFeedSource" where
  "pace now s =
     (if \<not> burst_active s \<and> sf_ns_per_msg s > 0 then
        if now - sf_last_emit_ns s < sf_ns_per_msg s then (False, s) else (True, s\<lparr>sf_last_emit_ns := now\<rparr>)
      else (True, s))"

definition count_bytes :: "nat \<Rightarrow> SimFeedSource \<Rightarrow> SimFeedSource" where
  "count_bytes n s = s\<lparr>sf_total_bytes := sf_total_bytes s + of_nat n\<rparr>"

text \<open>
  Claiming a slot, decoding into it and committing it when the message is accepted.  A refused
  message leaves the bytes of the slot changed and the ring's cursors as they were.
\<close>

definition decode_into :: "u8 list \<Rightarrow> SymbolTable \<Rightarrow> nat \<Rightarrow> TickMsg SPSCRing \<Rightarrow> bool \<times> TickMsg SPSCRing" where
  "decode_into raw symbols slot ring =
     (let (ok, out) = decode_itch (Some raw) symbols (read_slot slot ring); ring = write_slot slot out ring in
      (ok, if ok then commit ring else ring))"

text \<open>The part of \<open>poll_synthetic\<close> after the message is chosen.\<close>

definition emit_synthetic ::
  "u8 list \<Rightarrow> nat \<Rightarrow> SimFeedSource \<Rightarrow> TickMsg SPSCRing \<Rightarrow> (u32 \<times> SimFeedSource \<times> TickMsg SPSCRing) option" where
  "emit_synthetic raw len s ring = do {
     (drops, s) \<leftarrow> should_drop (note_attempt s);
     if drops then Some (0, count_bytes len (s\<lparr>sf_total_dropped := sf_total_dropped s + 1\<rparr>), ring)
     else case try_claim kTickCapacity ring of
       None \<Rightarrow> Some (0, s, ring)
     | Some slot \<Rightarrow>
         let (ok, ring) = decode_into (take len raw) (sf_symbols s) slot ring in
         Some (if ok then 1 else 0,
           count_bytes len (if ok then s\<lparr>sf_total_msgs := sf_total_msgs s + 1\<rparr> else s), ring)
   }"

definition poll_synthetic ::
  "u64 \<Rightarrow> SimFeedSource \<Rightarrow> TickMsg SPSCRing \<Rightarrow> (u32 \<times> SimFeedSource \<times> TickMsg SPSCRing) option" where
  "poll_synthetic now s ring =
     (let (go, s) = pace now s in
      if \<not> go \<or> unat (ring_size ring) \<ge> kTickCapacity then Some (0, s, ring)
      else do {
        (source_idx, s) \<leftarrow> next_synthetic_index s;
        (if source_idx < length (sf_raw_buf s)
         then let (raw, len) = sf_raw_buf s ! source_idx in emit_synthetic raw len s ring
         else None)
      })"

definition poll_replay ::
  "u64 \<Rightarrow> SimFeedSource \<Rightarrow> TickMsg SPSCRing \<Rightarrow> (u32 \<times> SimFeedSource \<times> TickMsg SPSCRing) option" where
  "poll_replay now s ring =
     (let (go, s) = pace now s; size = length (sf_replay_base s) in
      if \<not> go \<or> unat (ring_size ring) \<ge> kTickCapacity then Some (0, s, ring)
      else
        let s = (if sf_replay_cursor s + 2 > size then s\<lparr>sf_replay_cursor := 0\<rparr> else s); p = sf_replay_cursor s in
        if p + 2 > size then Some (0, s, ring)
        else
          let msg_len = of_be (field p 2 (sf_replay_base s)) in
          if msg_len = 0 \<or> p + 2 + msg_len > size then Some (0, s\<lparr>sf_replay_cursor := 0\<rparr>, ring)
          else do {
            let raw = field (p + 2) msg_len (sf_replay_base s);
            (drops, s) \<leftarrow> should_drop (note_attempt s);
            let done = count_bytes (2 + msg_len) (s\<lparr>sf_replay_cursor := p + 2 + msg_len\<rparr>);
            if drops then Some (0, done\<lparr>sf_total_dropped := sf_total_dropped s + 1\<rparr>, ring)
            else case try_claim kTickCapacity ring of
              None \<Rightarrow> Some (0, s, ring)
            | Some slot \<Rightarrow>
                let (ok, ring) = decode_into raw (sf_symbols s) slot ring in
                Some (if ok then 1 else 0,
                  if ok then done\<lparr>sf_total_msgs := sf_total_msgs s + 1\<rparr> else done, ring)
          })"

definition sim_poll ::
  "u64 \<Rightarrow> SimFeedSource \<Rightarrow> TickMsg SPSCRing \<Rightarrow> (u32 \<times> SimFeedSource \<times> TickMsg SPSCRing) option" where
  "sim_poll now s ring =
     (if sc_mode (sf_cfg s) = kSynthetic then poll_synthetic now s ring else poll_replay now s ring)"

end
