(* ===== verification/Feed_Generate.thy ===== *)
theory Feed_Generate
  imports Feed_Sim
begin

text \<open>
  What the synthetic source generates: the draws stay in their ranges, the tickers are all in the
  symbol table, and every generated message is accepted by the decoder.
\<close>

section \<open>Draws\<close>

lemma uniform_range:
  assumes "lo \<le> hi" "i64 lo" "i64 hi" "hi - lo < INT64_MAX"
  shows "\<exists>v g'. uniform lo hi g = Some (v, g') \<and> lo \<le> v \<and> v \<le> hi"
proof -
  obtain x g' where n: "rng_next g = (x, g')" by (cases "rng_next g")
  let ?d = "hi - lo" and ?r = "word_of_int (s64 (hi - lo)) + 1 :: u64"
  have d: "0 \<le> ?d" "?d < 2 ^ 63 - 1" using assms by (simp_all add: INT64_MAX_def)
  then have s: "s64 ?d = ?d" by (intro s64_id) (simp add: i64_bounds)
  have eq: "?r = word_of_int (?d + 1)" unfolding s by simp
  have r: "uint ?r = ?d + 1" unfolding eq uint_word_of_int using d by simp
  then have r0: "?r \<noteq> 0" using d by auto
  obtain k where k: "uint (x mod ?r) = k" by blast
  have "k = uint x mod (?d + 1)" using k by (simp add: uint_mod r)
  then have m: "0 \<le> k" "k \<le> ?d" using d pos_mod_bound [of "?d + 1" "uint x"] by simp_all
  then have "s64 k = k" "i64 (lo + k)" using d assms(2,3) by (auto intro!: s64_id simp: i64_bounds)
  then have "uniform lo hi g = Some (lo + k, g')"
    using r0 k by (simp add: uniform_def n Let_def s64_id)
  then show ?thesis using m by simp
qed

lemma uniform_u32_range:
  assumes "hi \<noteq> - 1"
  shows "\<exists>v g'. uniform_u32 0 hi g = Some (v, g') \<and> unat v \<le> unat hi"
proof -
  obtain x g' where n: "rng_next g = (x, g')" by (cases "rng_next g")
  let ?r = "hi + 1"
  have r: "unat ?r = Suc (unat hi)" using assms by (metis add.commute unatSuc add_eq_0_iff)
  then have r0: "?r \<noteq> 0" by auto
  have "unat (x mod ucast ?r) = unat x mod Suc (unat hi)" using r word_ranges(2) [of hi]
    by (simp add: unat_mod unsigned_ucast_eq take_bit_nat_eq_self)
  then have "unat (x mod ucast ?r) \<le> unat hi" using mod_less_divisor [of "Suc (unat hi)" "unat x"] by simp
  moreover from this have "unat (ucast (x mod ucast ?r) :: u32) = unat (x mod ucast ?r)"
    using word_ranges(2) [of hi] by (simp add: unsigned_ucast_eq take_bit_eq_mod)
  ultimately show ?thesis using r0 by (simp add: uniform_u32_def n)
qed

section \<open>The symbol table\<close>

lemma st_insert_count: "st_insert t ticker idx = Some (ok, t') \<Longrightarrow> unat (st_count t') \<le> Suc (unat (st_count t))"
proof -
  have "unat (c + 1) \<le> Suc (unat c)" for c :: u32
    using unat_plus_if' [of c 1] by (auto split: if_splits)
  then show "st_insert t ticker idx = Some (ok, t') \<Longrightarrow> unat (st_count t') \<le> Suc (unat (st_count t))"
    by (auto simp: st_insert_def Let_def split: option.splits if_splits)
qed

lemma insert_tickers_spec:
  "n \<le> kSymbols \<Longrightarrow> \<exists>t. insert_tickers n st_clear = Some t \<and> st_inv t \<and> unat (st_count t) \<le> n \<and>
     (\<forall>i<n. st_map t (ticker_key i) = Some (of_nat i))"
proof (induction n)
  case 0
  then show ?case using st_clear_inv by (simp add: st_clear_def)
next
  case (Suc n)
  then obtain t where t: "insert_tickers n st_clear = Some t" "st_inv t" "unat (st_count t) \<le> n"
      "\<forall>i<n. st_map t (ticker_key i) = Some (of_nat i)"
    by auto
  have n: "n < 512" using Suc.prems by simp
  then have "unat (of_nat n :: u16) < kSymbols" by (simp add: unat_of_nat)
  then obtain t' where t': "st_insert t (Some (format_stock n)) (of_nat n) = Some (True, t')" "st_inv t'"
      "st_map t' = (st_map t)(ticker_key n \<mapsto> of_nat n)"
    using st_insert_spec [OF t(2) refl, of "of_nat n" "format_stock n"] t(3) n by (auto simp: ticker_key_def)
  have "st_map t' (ticker_key i) = Some (of_nat i)" if "i < Suc n" for i
    using that t(4) t'(3) ticker_key_inj [of i n] n by (cases "i = n") auto
  then show ?case using t t' st_insert_count [OF t'(1)] by auto
qed

section \<open>Messages\<close>

text \<open>
  A configuration the generators can serve: enough symbols for the table, and ranges of
  quantities and prices the decoder takes.  Half of the largest quantity is drawn from as well.
\<close>

definition sim_cfg_ok :: "SimConfig \<Rightarrow> bool" where
  "sim_cfg_ok cfg \<longleftrightarrow> 0 < unat (sc_synthetic_symbols cfg) \<and> unat (sc_synthetic_symbols cfg) \<le> kSymbols \<and>
     1 \<le> sc_min_qty cfg \<and> sc_min_qty cfg \<le> sc_max_qty cfg \<and> 2 \<le> sc_max_qty cfg \<and> sc_max_qty cfg \<le> kMaxQuantity \<and>
     1 \<le> sc_min_price cfg \<and> sc_min_price cfg \<le> sc_max_price cfg \<and> sc_max_price cfg \<le> kMaxPrice \<and>
     sc_drop_rate cfg \<noteq> RateInvalid \<and> sc_mode cfg = kSynthetic"

definition tickers_in :: "SimConfig \<Rightarrow> SymbolTable \<Rightarrow> bool" where
  "tickers_in cfg t \<longleftrightarrow> st_inv t \<and> (\<forall>i<unat (sc_synthetic_symbols cfg). st_map t (ticker_key i) = Some (of_nat i))"

text \<open>A buffer whose message the decoder accepts, whatever the slot held.\<close>

definition decodes :: "SymbolTable \<Rightarrow> u8 list \<times> nat \<Rightarrow> bool" where
  "decodes t m \<longleftrightarrow> (\<forall>out. fst (decode_itch (Some (take (snd m) (fst m))) t out))"

lemma draw_symbol_ok:
  assumes "sim_cfg_ok cfg"
  shows "\<exists>v g'. draw_symbol cfg g = Some (v, g') \<and> unat v < unat (sc_synthetic_symbols cfg) \<and> unat v < kSymbols"
proof -
  let ?n = "sc_synthetic_symbols cfg"
  have n: "0 < unat ?n" "unat ?n \<le> 512" using assms by (auto simp: sim_cfg_ok_def)
  have h: "unat (?n - 1) = unat ?n - 1" using n(1) by (intro unat_minus_one) auto
  then have "?n - 1 \<noteq> - 1" using n by auto
  then obtain x g' where x: "uniform_u32 0 (?n - 1) g = Some (x, g')" "unat x \<le> unat (?n - 1)"
    using uniform_u32_range by blast
  then have "unat x < unat ?n" using h n by simp
  moreover from this have "unat (ucast x :: u16) = unat x"
    using n by (simp add: unsigned_ucast_eq take_bit_nat_eq_self)
  ultimately show ?thesis using x n by (simp add: draw_symbol_def)
qed

lemma draw_ref_ok:
  assumes "0 < unat m" "unat m < 2 ^ 62"
  shows "\<exists>r g'. draw_ref m g = Some (r, g') \<and> r \<noteq> 0"
proof (cases "m > 1")
  case True
  have u: "unat (m - 1) = unat m - 1" using assms by (intro unat_minus_one) auto
  have "1 < unat m" using True by (simp add: word_less_nat_alt)
  then obtain k where k: "unat m - 1 = k" "1 \<le> k" "k < 2 ^ 62" using assms(2) by simp
  have "uint (m - 1) = int k" unfolding k(1) [symmetric] u [symmetric] by simp
  then have "sint (m - 1) = int k" unfolding sint_uint using k by (simp add: signed_take_bit_int_eq_self)
  then have "1 \<le> sint (m - 1)" "sint (m - 1) < 2 ^ 62" using k by simp_all
  then obtain v g' where v: "uniform 1 (sint (m - 1)) g = Some (v, g')" "1 \<le> v" "v \<le> sint (m - 1)"
    using uniform_range [of 1 "sint (m - 1)" g] by (auto simp: i64_bounds)
  moreover have "uint (word_of_int v :: u64) = v"
    unfolding uint_word_of_int using v \<open>sint (m - 1) < 2 ^ 62\<close> by simp
  then have "(word_of_int v :: u64) \<noteq> 0" using v(2) by auto
  ultimately show ?thesis using True by (simp add: draw_ref_def)
qed (simp add: draw_ref_def)

text \<open>The quantities and prices drawn are those the decoder takes.\<close>

lemma draw_quantity:
  assumes "1 \<le> lo" "lo \<le> hi" "hi \<le> kMaxQuantity"
  shows "\<exists>v g'. uniform lo hi g = Some (v, g') \<and> is_valid_quantity (uint (word_of_int v :: u32))"
proof -
  obtain v g' where v: "uniform lo hi g = Some (v, g')" "lo \<le> v" "v \<le> hi"
    using uniform_range [of lo hi g] assms by (auto simp: i64_bounds kMaxQuantity_def)
  then have "uint (word_of_int v :: u32) = v" using assms by (simp add: uint_word_of_int kMaxQuantity_def)
  then show ?thesis using v assms by (auto simp: is_valid_quantity_def kMinQuantity_def)
qed

lemma draw_price:
  assumes "1 \<le> lo" "lo \<le> hi" "hi \<le> kMaxPrice"
  shows "\<exists>v g'. uniform lo hi g = Some (v, g') \<and> is_valid_price (uint (word_of_int v :: u32))"
proof -
  obtain v g' where v: "uniform lo hi g = Some (v, g')" "lo \<le> v" "v \<le> hi"
    using uniform_range [of lo hi g] assms by (auto simp: i64_bounds kMaxPrice_def)
  then have "uint (word_of_int v :: u32) = v" using assms by (simp add: uint_word_of_int kMaxPrice_def)
  then show ?thesis using v assms by (auto simp: is_valid_price_def kMinPrice_def)
qed

text \<open>Each generator returns a message that decodes.\<close>

lemma gen_add_order_ok:
  assumes cfg: "sim_cfg_ok cfg" and t: "tickers_in cfg t" and "36 \<le> length dst" "unat ts < kDayNs" "ref \<noteq> 0"
  shows "\<exists>raw g'. gen_add_order cfg dst ts ref g = Some (raw, 36, g') \<and> decodes t (raw, 36)"
proof -
  obtain sym_idx g1 where 1: "draw_symbol cfg g = Some (sym_idx, g1)" "unat sym_idx < unat (sc_synthetic_symbols cfg)"
    using draw_symbol_ok [OF cfg] by blast
  obtain b g2 where 2: "rng_next g1 = (b, g2)" by (cases "rng_next g1")
  obtain q g3 where 3: "uniform (sc_min_qty cfg) (sc_max_qty cfg) g2 = Some (q, g3)"
      "is_valid_quantity (uint (word_of_int q :: u32))"
    using draw_quantity cfg by (meson sim_cfg_ok_def)
  obtain p g4 where 4: "uniform (sc_min_price cfg) (sc_max_price cfg) g3 = Some (p, g4)"
      "is_valid_price (uint (word_of_int p :: u32))"
    using draw_price cfg by (meson sim_cfg_ok_def)
  have "st_map t (ticker_key (unat sym_idx)) = Some (of_nat (unat sym_idx))" using t 1(2) by (simp add: tickers_in_def)
  then show ?thesis
    using 1(1) 2 3 4 decode_add_order [of dst ts ref _ _ t sym_idx] assms(3-5)
    by (simp add: gen_add_order_def decodes_def)
qed

lemma gen_order_executed_ok:
  assumes cfg: "sim_cfg_ok cfg" and "31 \<le> length dst" "unat ts < kDayNs" "0 < unat seq" "unat seq < 2 ^ 62"
  shows "\<exists>raw g'. gen_order_executed cfg dst ts seq g = Some (raw, 31, g') \<and> decodes t (raw, 31)"
proof -
  obtain sym_idx g1 where 1: "draw_symbol cfg g = Some (sym_idx, g1)" "unat sym_idx < kSymbols"
    using draw_symbol_ok [OF cfg] by blast
  obtain r g2 where 2: "draw_ref seq g1 = Some (r, g2)" "r \<noteq> 0" using draw_ref_ok assms(4,5) by blast
  have q2: "2 \<le> sc_max_qty cfg" "sc_max_qty cfg \<le> kMaxQuantity" using cfg by (simp_all add: sim_cfg_ok_def)
  then have half: "1 \<le> sgn (sc_max_qty cfg) * (\<bar>sc_max_qty cfg\<bar> div 2)"
      "sgn (sc_max_qty cfg) * (\<bar>sc_max_qty cfg\<bar> div 2) \<le> kMaxQuantity"
    by (simp_all add: sgn_if)
  obtain q g3 where 3: "uniform 1 (sgn (sc_max_qty cfg) * (\<bar>sc_max_qty cfg\<bar> div 2)) g2 = Some (q, g3)"
      "is_valid_quantity (uint (word_of_int q :: u32))"
    using draw_quantity [OF order.refl half, of g2] by blast
  obtain b g4 where 4: "rng_next g3 = (b, g4)" by (cases "rng_next g3")
  show ?thesis
    using 1 2 3 4 decode_order_executed [of dst ts r sym_idx] assms(2,3)
    by (simp add: gen_order_executed_def decodes_def)
qed

lemma gen_order_cancel_ok:
  assumes cfg: "sim_cfg_ok cfg" and "23 \<le> length dst" "unat ts < kDayNs" "0 < unat seq" "unat seq < 2 ^ 62"
  shows "\<exists>raw g'. gen_order_cancel cfg dst ts seq g = Some (raw, 23, g') \<and> decodes t (raw, 23)"
proof -
  obtain sym_idx g1 where 1: "draw_symbol cfg g = Some (sym_idx, g1)" "unat sym_idx < kSymbols"
    using draw_symbol_ok [OF cfg] by blast
  obtain r g2 where 2: "draw_ref seq g1 = Some (r, g2)" "r \<noteq> 0" using draw_ref_ok assms(4,5) by blast
  obtain q g3 where 3: "uniform 1 (sc_max_qty cfg) g2 = Some (q, g3)"
      "is_valid_quantity (uint (word_of_int q :: u32))"
    using draw_quantity [of 1 "sc_max_qty cfg" g2] cfg by (auto simp: sim_cfg_ok_def)
  show ?thesis
    using 1 2 3 decode_order_cancel [of dst ts r sym_idx] assms(2,3)
    by (simp add: gen_order_cancel_def decodes_def)
qed

lemma gen_order_delete_ok:
  assumes cfg: "sim_cfg_ok cfg" and "19 \<le> length dst" "unat ts < kDayNs" "0 < unat seq" "unat seq < 2 ^ 62"
  shows "\<exists>raw g'. gen_order_delete cfg dst ts seq g = Some (raw, 19, g') \<and> decodes t (raw, 19)"
proof -
  obtain sym_idx g1 where 1: "draw_symbol cfg g = Some (sym_idx, g1)" "unat sym_idx < kSymbols"
    using draw_symbol_ok [OF cfg] by blast
  obtain r g2 where 2: "draw_ref seq g1 = Some (r, g2)" "r \<noteq> 0" using draw_ref_ok assms(4,5) by blast
  show ?thesis
    using 1 2 decode_order_delete [of dst ts r sym_idx] assms(2,3)
    by (simp add: gen_order_delete_def decodes_def)
qed

text \<open>
  One round keeps the clock inside the day and the reference numbers inside 62 bits while at
  most \<open>n\<close> rounds are left: each round moves the clock by at most ten microseconds.
\<close>

definition gen_room :: "nat \<Rightarrow> u64 \<Rightarrow> u64 \<Rightarrow> bool" where
  "gen_room n ts seq \<longleftrightarrow> unat ts + n * 10000 < kDayNs \<and> 0 < unat seq \<and> unat seq + n < 2 ^ 62"

lemma generate_one_ok:
  assumes cfg: "sim_cfg_ok cfg" and t: "tickers_in cfg t" and room: "gen_room (Suc n) ts seq"
  shows "\<exists>raw len ts' seq' g'. generate_one cfg ts seq g = Some (raw, len, ts', seq', g') \<and>
    decodes t (raw, len) \<and> gen_room n ts' seq'"
proof -
  let ?dst = "replicate kSimMaxMsgLen (0 :: u8)"
  have ts: "unat ts < kDayNs" and seq: "0 < unat seq" "unat seq < 2 ^ 62" using room by (simp_all add: gen_room_def)
  have seq0: "seq \<noteq> 0" using seq(1) by auto
  obtain roll g1 where 1: "uniform_u32 0 99 g = Some (roll, g1)" using uniform_u32_range [of 99 g] by auto
  let ?gen = "if roll < 60 then gen_add_order cfg ?dst ts seq g1
      else if roll < 75 then gen_order_executed cfg ?dst ts seq g1
      else if roll < 90 then gen_order_cancel cfg ?dst ts seq g1
      else gen_order_delete cfg ?dst ts seq g1"
  have "36 \<le> length ?dst" "31 \<le> length ?dst" "23 \<le> length ?dst" "19 \<le> length ?dst"
    by (simp_all add: kSimMaxMsgLen_def)
  note gens = gen_add_order_ok [OF cfg t this(1) ts seq0, of g1] gen_order_executed_ok [OF cfg this(2) ts seq, of g1 t]
    gen_order_cancel_ok [OF cfg this(3) ts seq, of g1 t] gen_order_delete_ok [OF cfg this(4) ts seq, of g1 t]
  have "\<exists>raw len g2. ?gen = Some (raw, len, g2) \<and> decodes t (raw, len)"
    using gens by (simp split: if_split) blast
  then obtain raw len g2 where 2: "?gen = Some (raw, len, g2)" "decodes t (raw, len)" by blast
  obtain gap g3 where 3: "uniform 100 10000 g2 = Some (gap, g3)" "100 \<le> gap" "gap \<le> 10000"
    using uniform_range [of 100 10000 g2] by (auto simp: i64_bounds)
  have "unat (ts + word_of_int gap) = unat ts + nat gap"
  proof -
    have "unat (word_of_int gap :: u64) = nat gap" using 3 by (simp add: unat_eq_nat_uint uint_word_of_int)
    moreover have "unat ts + nat gap < 2 ^ 64" using 3 ts by (simp add: kDayNs_def)
    ultimately show ?thesis by (simp add: unat_add_lem [THEN iffD1])
  qed
  moreover have "unat (seq + 1) = Suc (unat seq)" using seq(2) unat_add_lem [of seq 1] by simp
  moreover have "nat gap \<le> 10000" using 3 by simp
  ultimately have "gen_room n (ts + word_of_int gap) (if roll < 60 then seq + 1 else seq)"
    using room 3 by (simp add: gen_room_def)
  then show ?thesis using 1 2 3(1) by (simp add: generate_one_def)
qed

lemma generate_ok:
  assumes "sim_cfg_ok cfg" "tickers_in cfg t" "gen_room n ts seq"
  shows "\<exists>msgs g'. generate cfg n ts seq g = Some (msgs, g') \<and> length msgs = n \<and> (\<forall>m\<in>set msgs. decodes t m)"
  using assms(3)
proof (induction n arbitrary: ts seq g)
  case (Suc n)
  obtain raw len ts' seq' g' where one: "generate_one cfg ts seq g = Some (raw, len, ts', seq', g')"
      "decodes t (raw, len)" "gen_room n ts' seq'"
    using generate_one_ok [OF assms(1,2) Suc.prems] by blast
  then show ?case using Suc.IH [OF one(3), of g'] by auto
qed simp

end
