(* ===== verification/Feed_Window.thy ===== *)
theory Feed_Window
  imports Feed_Generate
begin

text \<open>
  The reorder window of the synthetic source: the array of pending indices never overflows, every
  index is inside the buffer, and a whole cycle delivers every message exactly once.
\<close>

section \<open>Invariant of the window\<close>

text \<open>The pending indices are the first \<open>_pending_count\<close> entries of the array.\<close>

definition pending :: "SimFeedSource \<Rightarrow> nat list" where
  "pending s = take (sf_pending_count s) (sf_pending_idx s)"

text \<open>
  Between two calls the array has room for one more index; during a call \<open>refill\<close> may use it.
\<close>

definition window_wf :: "SimFeedSource \<Rightarrow> bool" where
  "window_wf s \<longleftrightarrow> 0 < sf_prebuf_count s \<and> sf_prebuf_count s < 2 ^ 32 \<and> sf_prebuf_idx s < sf_prebuf_count s \<and>
     length (sf_pending_idx s) = sf_reorder_capacity s \<and> sf_reorder_capacity s \<le> sf_prebuf_count s \<and>
     sf_pending_count s \<le> sf_reorder_capacity s \<and> (\<forall>i\<in>set (pending s). i < sf_prebuf_count s)"

definition window_inv :: "SimFeedSource \<Rightarrow> bool" where
  "window_inv s \<longleftrightarrow> window_wf s \<and> (0 < sf_reorder_capacity s \<longrightarrow> sf_pending_count s < sf_reorder_capacity s)"

text \<open>What an operation on the window leaves alone.\<close>

definition same_source :: "SimFeedSource \<Rightarrow> SimFeedSource \<Rightarrow> bool" where
  "same_source s s' \<longleftrightarrow> sf_cfg s' = sf_cfg s \<and> sf_raw_buf s' = sf_raw_buf s \<and> sf_symbols s' = sf_symbols s \<and>
     sf_prebuf_count s' = sf_prebuf_count s \<and> sf_reorder_capacity s' = sf_reorder_capacity s \<and>
     sf_total_msgs s' = sf_total_msgs s \<and> sf_total_dropped s' = sf_total_dropped s \<and>
     sf_total_bytes s' = sf_total_bytes s \<and> sf_burst_remaining s' = sf_burst_remaining s \<and>
     sf_ns_per_msg s' = sf_ns_per_msg s \<and> sf_last_emit_ns s' = sf_last_emit_ns s"

lemma same_source_refl [simp]: "same_source s s"
  by (simp add: same_source_def)

lemma same_source_trans: "same_source s t \<Longrightarrow> same_source t u \<Longrightarrow> same_source s u"
  by (simp add: same_source_def)

text \<open>The indices the cursor takes next.\<close>

definition upcoming :: "SimFeedSource \<Rightarrow> nat \<Rightarrow> nat list" where
  "upcoming s k = map (probe (sf_prebuf_count s) (sf_prebuf_idx s)) [0..<k]"

lemma upcoming_0 [simp]: "upcoming s 0 = []"
  by (simp add: upcoming_def)

lemma upcoming_Suc:
  assumes "sf_prebuf_idx s < sf_prebuf_count s" "sf_prebuf_count s' = sf_prebuf_count s"
    "sf_prebuf_idx s' = (sf_prebuf_idx s + 1) mod sf_prebuf_count s"
  shows "upcoming s (Suc k) = sf_prebuf_idx s # upcoming s' k"
proof -
  have "probe (sf_prebuf_count s) (sf_prebuf_idx s) (Suc i) = probe (sf_prebuf_count s') (sf_prebuf_idx s') i" for i
    using assms by (simp add: probe_def mod_simps)
  then show ?thesis
    using assms(1) by (simp add: upcoming_def upt_conv_Cons map_Suc_upt [symmetric] probe_0 o_def del: upt_Suc)
qed

lemma mset_upcoming:
  assumes "sf_prebuf_idx s < sf_prebuf_count s"
  shows "mset (upcoming s (sf_prebuf_count s)) = mset [0..<sf_prebuf_count s]"
proof -
  let ?n = "sf_prebuf_count s"
  have "distinct (upcoming s ?n)"
    by (auto simp: upcoming_def distinct_map inj_on_def dest: probe_inj)
  moreover have "set (upcoming s ?n) = {..<?n}"
  proof
    show "set (upcoming s ?n) \<subseteq> {..<?n}" using assms by (auto simp: upcoming_def probe_def)
    show "{..<?n} \<subseteq> set (upcoming s ?n)"
    proof
      fix i assume "i \<in> {..<?n}"
      then obtain k where "k < ?n" "probe ?n (sf_prebuf_idx s) k = i" using probe_surj [of i ?n] by auto
      then show "i \<in> set (upcoming s ?n)" unfolding upcoming_def by (auto intro!: image_eqI [of _ _ k])
    qed
  qed
  ultimately show ?thesis using mset_set_set [of "upcoming s ?n"] by (simp add: atLeast0LessThan)
qed

section \<open>Operations on the window\<close>

lemma push_pending_ok:
  assumes "window_wf s" "sf_pending_count s < sf_reorder_capacity s"
  shows "\<exists>s'. push_pending s = Some s' \<and> window_wf s' \<and> same_source s s' \<and>
    pending s' = pending s @ [sf_prebuf_idx s] \<and> sf_pending_count s' = Suc (sf_pending_count s) \<and>
    sf_prebuf_idx s' = (sf_prebuf_idx s + 1) mod sf_prebuf_count s \<and> sf_rng s' = sf_rng s \<and>
    sf_reorder_source_remaining s' = sf_reorder_source_remaining s"
proof -
  let ?s = "s\<lparr>sf_pending_idx := (sf_pending_idx s)[sf_pending_count s := sf_prebuf_idx s],
     sf_pending_count := Suc (sf_pending_count s), sf_prebuf_idx := (sf_prebuf_idx s + 1) mod sf_prebuf_count s\<rparr>"
  have l: "sf_pending_count s < length (sf_pending_idx s)" using assms by (simp add: window_wf_def)
  have p: "pending ?s = pending s @ [sf_prebuf_idx s]"
    using l by (simp add: pending_def take_Suc_conv_app_nth)
  then have "window_wf ?s" using assms l by (auto simp: window_wf_def)
  moreover have "push_pending s = Some ?s" using l by (simp add: push_pending_def set_pending_def)
  ultimately show ?thesis using p by (simp add: same_source_def)
qed

lemma fill_pending_ok:
  assumes "window_wf s" "sf_pending_count s + k \<le> sf_reorder_capacity s"
  shows "\<exists>s'. fill_pending k s = Some s' \<and> window_wf s' \<and> same_source s s' \<and>
    pending s' = pending s @ upcoming s k \<and> sf_pending_count s' = sf_pending_count s + k \<and> sf_rng s' = sf_rng s \<and>
    sf_prebuf_idx s' = probe (sf_prebuf_count s) (sf_prebuf_idx s) k"
  using assms
proof (induction k arbitrary: s)
  case 0
  then show ?case by (simp add: probe_0 window_wf_def)
next
  case (Suc k)
  then obtain s1 where s1: "push_pending s = Some s1" "window_wf s1" "same_source s s1"
      "pending s1 = pending s @ [sf_prebuf_idx s]" "sf_pending_count s1 = Suc (sf_pending_count s)"
      "sf_prebuf_idx s1 = (sf_prebuf_idx s + 1) mod sf_prebuf_count s" "sf_rng s1 = sf_rng s"
    using push_pending_ok [of s] by auto
  have n: "sf_prebuf_count s1 = sf_prebuf_count s" "sf_reorder_capacity s1 = sf_reorder_capacity s"
    using s1(3) by (simp_all add: same_source_def)
  obtain s' where s': "fill_pending k s1 = Some s'" "window_wf s'" "same_source s1 s'"
      "pending s' = pending s1 @ upcoming s1 k" "sf_pending_count s' = sf_pending_count s1 + k" "sf_rng s' = sf_rng s1"
      "sf_prebuf_idx s' = probe (sf_prebuf_count s1) (sf_prebuf_idx s1) k"
    using Suc.IH [OF s1(2)] Suc.prems s1(5) n by auto
  have "upcoming s (Suc k) = sf_prebuf_idx s # upcoming s1 k"
    by (rule upcoming_Suc) (use Suc.prems s1(6) n in \<open>simp_all add: window_wf_def\<close>)
  moreover have "probe (sf_prebuf_count s1) (sf_prebuf_idx s1) k = probe (sf_prebuf_count s) (sf_prebuf_idx s) (Suc k)"
    unfolding n s1(6) by (simp add: probe_def mod_simps)
  ultimately show ?case using s1 s' same_source_trans [OF s1(3) s'(3)] by simp
qed

lemma refill_ok:
  assumes inv: "window_inv s" and cap: "0 < sf_reorder_capacity s"
  defines "added \<equiv> (if sf_pending_count s = 0 then sf_reorder_capacity s
                  else if sf_reorder_source_remaining s \<noteq> 0 then 1 else 0)"
  shows "\<exists>s'. refill s = Some s' \<and> window_wf s' \<and> same_source s s' \<and> pending s' = pending s @ upcoming s added \<and>
    0 < sf_pending_count s' \<and> sf_rng s' = sf_rng s \<and>
    sf_prebuf_idx s' = probe (sf_prebuf_count s) (sf_prebuf_idx s) added \<and>
    sf_reorder_source_remaining s' = (if sf_pending_count s = 0 then sf_prebuf_count s - sf_reorder_capacity s
      else sf_reorder_source_remaining s - 1)"
proof -
  have wf: "window_wf s" using inv by (simp add: window_inv_def)
  have lt: "sf_pending_count s < sf_reorder_capacity s" using inv cap by (simp add: window_inv_def)
  have idx: "sf_prebuf_idx s < sf_prebuf_count s" using wf by (simp add: window_wf_def)
  consider "sf_pending_count s = 0" | "sf_pending_count s \<noteq> 0" "sf_reorder_source_remaining s \<noteq> 0"
    | "sf_pending_count s \<noteq> 0" "sf_reorder_source_remaining s = 0" by blast
  then show ?thesis
  proof cases
    case 1
    then obtain s' where s': "fill_pending (sf_reorder_capacity s) s = Some s'" "window_wf s'" "same_source s s'"
        "pending s' = pending s @ upcoming s (sf_reorder_capacity s)" "sf_pending_count s' = sf_reorder_capacity s"
        "sf_rng s' = sf_rng s"
        "sf_prebuf_idx s' = probe (sf_prebuf_count s) (sf_prebuf_idx s) (sf_reorder_capacity s)"
      using fill_pending_ok [OF wf, of "sf_reorder_capacity s"] by auto
    then show ?thesis using 1 cap unfolding added_def
      by (auto simp: refill_def window_wf_def same_source_def pending_def)
  next
    case 2
    then show ?thesis using push_pending_ok [OF wf lt] idx unfolding added_def
      by (auto simp: refill_def window_wf_def same_source_def pending_def upcoming_def probe_0 probe_def)
  next
    case 3
    then show ?thesis using wf idx unfolding added_def by (simp add: refill_def probe_0)
  qed
qed

text \<open>Taking one index out of the window by moving the last one into its place.\<close>

lemma swap_out_mset:
  assumes "c < k" "k \<le> length xs"
  shows "add_mset (xs ! c) (mset (take (k - 1) (xs[c := xs ! (k - 1)]))) = mset (take k xs)"
proof -
  obtain j where j: "k = Suc j" using assms(1) by (cases k) auto
  have split: "take k xs = take j xs @ [xs ! j]" using assms j by (simp add: take_Suc_conv_app_nth)
  show ?thesis
  proof (cases "c = j")
    case True
    then show ?thesis using split j by simp
  next
    case False
    then have c: "c < length (take j xs)" using assms j by simp
    then have "take j (xs[c := xs ! j]) = (take j xs)[c := xs ! j]" by (simp add: take_update_swap)
    moreover have "mset ((take j xs)[c := xs ! j]) = add_mset (xs ! j) (mset (take j xs) - {#xs ! c#})"
      using c by (simp add: mset_update)
    moreover have "xs ! c \<in># mset (take j xs)" using c by (metis nth_mem nth_take length_take min_less_iff_conj set_mset_mset)
    ultimately show ?thesis using split j by simp
  qed
qed

definition added :: "SimFeedSource \<Rightarrow> nat" where
  "added s = (if sf_pending_count s = 0 then sf_reorder_capacity s
     else if sf_reorder_source_remaining s \<noteq> 0 then 1 else 0)"

definition remaining_after :: "SimFeedSource \<Rightarrow> nat" where
  "remaining_after s = (if sf_pending_count s = 0 then sf_prebuf_count s - sf_reorder_capacity s
     else sf_reorder_source_remaining s - 1)"

lemma next_index_window:
  assumes inv: "window_inv s" and cap: "0 < sf_reorder_capacity s"
  shows "\<exists>i s'. next_synthetic_index s = Some (i, s') \<and> window_inv s' \<and> same_source s s' \<and>
    add_mset i (mset (pending s')) = mset (pending s @ upcoming s (added s)) \<and>
    sf_pending_count s' = sf_pending_count s + added s - 1 \<and> sf_reorder_source_remaining s' = remaining_after s \<and>
    sf_prebuf_idx s' = probe (sf_prebuf_count s) (sf_prebuf_idx s) (added s)"
proof -
  obtain s1 where s1: "refill s = Some s1" "window_wf s1" "same_source s s1"
      "pending s1 = pending s @ upcoming s (added s)" "0 < sf_pending_count s1" "sf_rng s1 = sf_rng s"
      "sf_prebuf_idx s1 = probe (sf_prebuf_count s) (sf_prebuf_idx s) (added s)"
      "sf_reorder_source_remaining s1 = remaining_after s"
    using refill_ok [OF inv cap] unfolding added_def remaining_after_def by blast
  let ?k = "sf_pending_count s1" and ?xs = "sf_pending_idx s1"
  have k: "?k \<le> length ?xs" "?k < 2 ^ 32" "?k \<le> sf_reorder_capacity s1" using s1(2) by (auto simp: window_wf_def)
  have len: "length (pending s1) = ?k" "length (pending s) = sf_pending_count s"
    using k inv by (simp_all add: pending_def window_inv_def window_wf_def)
  then have count: "?k = sf_pending_count s + added s" using s1(4) by (simp add: upcoming_def)
  have u: "unat (of_nat ?k - 1 :: u32) = ?k - 1"
  proof -
    have "unat (of_nat ?k :: u32) = ?k" using k(2) by (simp add: unat_of_nat)
    then show ?thesis using s1(5) unat_minus_one [of "of_nat ?k :: u32"] by (metis not_gr0 unat_0)
  qed
  have "(of_nat ?k - 1 :: u32) \<noteq> - 1"
  proof
    assume "(of_nat ?k - 1 :: u32) = - 1"
    then have "?k - 1 = unat (- 1 :: u32)" using u by simp
    then show False using k(2) s1(5) by (simp add: unsigned_minus_1_eq_mask mask_eq_exp_minus_1)
  qed
  then obtain c g where c: "uniform_u32 0 (of_nat ?k - 1) (sf_rng s1) = Some (c, g)" "unat c \<le> ?k - 1"
    using uniform_u32_range [of "of_nat ?k - 1" "sf_rng s1"] u by auto
  then have ck: "unat c < ?k" using s1(5) by linarith
  let ?s = "s1\<lparr>sf_rng := g, sf_pending_count := ?k - 1, sf_pending_idx := ?xs[unat c := ?xs ! (?k - 1)]\<rparr>"
  have "next_synthetic_index s = Some (?xs ! unat c, ?s)"
    using cap s1(1,5) c(1) ck k(1) by (simp add: next_synthetic_index_def set_pending_def Let_def)
  moreover have ms: "add_mset (?xs ! unat c) (mset (pending ?s)) = mset (pending s1)"
    using swap_out_mset [OF ck k(1)] by (simp add: pending_def)
  moreover have "window_inv ?s"
  proof -
    have "set (pending ?s) \<subseteq> set (pending s1)"
      using arg_cong [OF ms, of set_mset] by auto
    then show ?thesis using s1(2,5) k by (auto simp: window_inv_def window_wf_def)
  qed
  ultimately show ?thesis using s1 count by (simp add: same_source_def)
qed

lemma next_index_plain:
  assumes "window_inv s" "sf_reorder_capacity s = 0"
  shows "\<exists>s'. next_synthetic_index s = Some (sf_prebuf_idx s, s') \<and> window_inv s' \<and> same_source s s' \<and>
    sf_pending_count s' = 0 \<and> sf_prebuf_idx s' = (sf_prebuf_idx s + 1) mod sf_prebuf_count s"
  using assms by (auto simp: next_synthetic_index_def window_inv_def window_wf_def same_source_def pending_def)

section \<open>A cycle\<close>

primrec take_indices :: "nat \<Rightarrow> SimFeedSource \<Rightarrow> (nat list \<times> SimFeedSource) option" where
  "take_indices 0 s = Some ([], s)"
| "take_indices (Suc k) s = do {
     (i, s) \<leftarrow> next_synthetic_index s;
     (is, s) \<leftarrow> take_indices k s;
     Some (i # is, s)
   }"

lemma probe_probe: "probe n (probe n i a) b = probe n i (a + b)"
  by (simp add: probe_def mod_simps add.assoc)

lemma upcoming_append:
  assumes "sf_prebuf_count s' = sf_prebuf_count s" "sf_prebuf_idx s' = probe (sf_prebuf_count s) (sf_prebuf_idx s) a"
  shows "upcoming s a @ upcoming s' b = upcoming s (a + b)"
proof -
  have "[0..<a + b] = [0..<a] @ map (\<lambda>i. a + i) [0..<b]"
    using map_add_upt [of a b] upt_add_eq_append [of 0 a b] by (simp only: add.commute [of _ a])
  then show ?thesis using assms by (simp add: upcoming_def probe_probe)
qed

text \<open>With a window of at most one index the messages come in order.\<close>

lemma take_indices_plain:
  assumes "window_inv s" "sf_reorder_capacity s \<le> 1" "sf_pending_count s = 0"
  shows "\<exists>s'. take_indices k s = Some (upcoming s k, s') \<and> window_inv s' \<and> sf_pending_count s' = 0 \<and>
    sf_prebuf_idx s' = probe (sf_prebuf_count s) (sf_prebuf_idx s) k"
  using assms
proof (induction k arbitrary: s)
  case 0
  then show ?case by (simp add: probe_0 window_inv_def window_wf_def)
next
  case (Suc k)
  have idx: "sf_prebuf_idx s < sf_prebuf_count s" using Suc.prems(1) by (simp add: window_inv_def window_wf_def)
  obtain s1 where s1: "next_synthetic_index s = Some (sf_prebuf_idx s, s1)" "window_inv s1" "same_source s s1"
      "sf_pending_count s1 = 0" "sf_prebuf_idx s1 = (sf_prebuf_idx s + 1) mod sf_prebuf_count s"
  proof (cases "sf_reorder_capacity s = 0")
    case True
    then show ?thesis using next_index_plain [OF Suc.prems(1)] that by blast
  next
    case False
    then have one: "added s = 1" using Suc.prems by (simp add: added_def)
    have p: "pending s = []" using Suc.prems(3) by (simp add: pending_def)
    obtain i s1 where i: "next_synthetic_index s = Some (i, s1)" "window_inv s1" "same_source s s1"
        "add_mset i (mset (pending s1)) = mset (pending s @ upcoming s (added s))"
        "sf_pending_count s1 = sf_pending_count s + added s - 1"
        "sf_prebuf_idx s1 = probe (sf_prebuf_count s) (sf_prebuf_idx s) (added s)"
      using next_index_window [OF Suc.prems(1)] False by auto
    have "pending s1 = []" using i(5) Suc.prems(3) one by (simp add: pending_def)
    then have "i = sf_prebuf_idx s" using i(4) idx p one by (simp add: upcoming_def probe_0)
    moreover have "sf_prebuf_idx s1 = (sf_prebuf_idx s + 1) mod sf_prebuf_count s"
      using i(6) one by (simp add: probe_def)
    ultimately show ?thesis using i(1-3,5) Suc.prems(3) one that by simp
  qed
  have n: "sf_prebuf_count s1 = sf_prebuf_count s" "sf_reorder_capacity s1 = sf_reorder_capacity s"
    using s1(3) by (simp_all add: same_source_def)
  have u: "upcoming s (Suc k) = sf_prebuf_idx s # upcoming s1 k" by (rule upcoming_Suc [OF idx n(1) s1(5)])
  have "probe (sf_prebuf_count s1) (sf_prebuf_idx s1) k = probe (sf_prebuf_count s) (sf_prebuf_idx s) (Suc k)"
    unfolding n s1(5) by (simp add: probe_def mod_simps)
  then show ?case using Suc.IH [OF s1(2) _ s1(4)] Suc.prems(2) n u s1(1) by auto
qed

text \<open>Once the window is filled, the rest of the cycle comes out in some order.\<close>

lemma take_indices_drain:
  assumes "window_inv s" "0 < sf_reorder_capacity s" "sf_pending_count s = 0 \<longrightarrow> sf_reorder_source_remaining s = 0"
  shows "\<exists>xs s'. take_indices (sf_pending_count s + sf_reorder_source_remaining s) s = Some (xs, s') \<and> window_inv s' \<and>
    mset xs = mset (pending s @ upcoming s (sf_reorder_source_remaining s)) \<and> sf_pending_count s' = 0 \<and>
    sf_prebuf_idx s' = probe (sf_prebuf_count s) (sf_prebuf_idx s) (sf_reorder_source_remaining s)"
  using assms
proof (induction "sf_pending_count s + sf_reorder_source_remaining s" arbitrary: s)
  case 0
  then show ?case by (simp add: pending_def probe_0 window_inv_def window_wf_def)
next
  case (Suc k)
  then have p: "sf_pending_count s \<noteq> 0" by auto
  obtain i s1 where i: "next_synthetic_index s = Some (i, s1)" "window_inv s1" "same_source s s1"
      "add_mset i (mset (pending s1)) = mset (pending s @ upcoming s (added s))"
      "sf_pending_count s1 = sf_pending_count s + added s - 1" "sf_reorder_source_remaining s1 = remaining_after s"
      "sf_prebuf_idx s1 = probe (sf_prebuf_count s) (sf_prebuf_idx s) (added s)"
    using next_index_window [OF Suc.prems(1,2)] by blast
  have a: "added s = min 1 (sf_reorder_source_remaining s)" "remaining_after s = sf_reorder_source_remaining s - added s"
    using p by (auto simp: added_def remaining_after_def min_def)
  have n: "sf_prebuf_count s1 = sf_prebuf_count s" "sf_reorder_capacity s1 = sf_reorder_capacity s"
    using i(3) by (simp_all add: same_source_def)
  have k: "k = sf_pending_count s1 + sf_reorder_source_remaining s1" using Suc.hyps(2) i(5,6) a p by auto
  have fin: "sf_pending_count s1 = 0 \<longrightarrow> sf_reorder_source_remaining s1 = 0" using i(5,6) a p by auto
  obtain xs s' where r: "take_indices k s1 = Some (xs, s')" "window_inv s'"
      "mset xs = mset (pending s1 @ upcoming s1 (sf_reorder_source_remaining s1))" "sf_pending_count s' = 0"
      "sf_prebuf_idx s' = probe (sf_prebuf_count s1) (sf_prebuf_idx s1) (sf_reorder_source_remaining s1)"
    using Suc.hyps(1) [OF k i(2) _ fin] k n Suc.prems(2) by auto
  have sum: "added s + sf_reorder_source_remaining s1 = sf_reorder_source_remaining s" using i(6) a by simp
  have "upcoming s (added s) @ upcoming s1 (sf_reorder_source_remaining s1) = upcoming s (sf_reorder_source_remaining s)"
    using upcoming_append [OF n(1) i(7), of "sf_reorder_source_remaining s1"] sum by simp
  then have "mset (i # xs) = mset (pending s @ upcoming s (sf_reorder_source_remaining s))"
    using i(4) r(3) by (metis (no_types, lifting) append.assoc mset.simps(2) mset_append union_mset_add_mset_left)
  moreover have "sf_prebuf_idx s' = probe (sf_prebuf_count s) (sf_prebuf_idx s) (sf_reorder_source_remaining s)"
    using r(5) i(7) n sum by (simp add: probe_probe)
  ultimately show ?case using i(1) r(1,2,4) Suc.hyps(2) by (intro exI [of _ "i # xs"] exI [of _ s']) (simp flip: Suc.hyps(2))
qed

lemma take_indices_cycle:
  assumes inv: "window_inv s" and p: "sf_pending_count s = 0"
  shows "\<exists>xs s'. take_indices (sf_prebuf_count s) s = Some (xs, s') \<and> window_inv s' \<and> sf_pending_count s' = 0 \<and>
    sf_prebuf_idx s' = sf_prebuf_idx s \<and> mset xs = mset (upcoming s (sf_prebuf_count s))"
proof -
  let ?n = "sf_prebuf_count s" and ?c = "sf_reorder_capacity s"
  have n: "0 < ?n" "sf_prebuf_idx s < ?n" "?c \<le> ?n" using inv by (simp_all add: window_inv_def window_wf_def)
  have round: "probe ?n (sf_prebuf_idx s) ?n = sf_prebuf_idx s" using n by (simp add: probe_def)
  show ?thesis
  proof (cases "?c \<le> 1")
    case True
    then show ?thesis using take_indices_plain [OF inv _ p, of ?n] round by auto
  next
    case False
    obtain i s1 where i: "next_synthetic_index s = Some (i, s1)" "window_inv s1" "same_source s s1"
        "add_mset i (mset (pending s1)) = mset (pending s @ upcoming s (added s))"
        "sf_pending_count s1 = sf_pending_count s + added s - 1" "sf_reorder_source_remaining s1 = remaining_after s"
        "sf_prebuf_idx s1 = probe ?n (sf_prebuf_idx s) (added s)"
      using next_index_window [OF inv] False by auto
    have a: "added s = ?c" "remaining_after s = ?n - ?c" using p by (simp_all add: added_def remaining_after_def)
    have s1n: "sf_prebuf_count s1 = ?n" "sf_reorder_capacity s1 = ?c" using i(3) by (simp_all add: same_source_def)
    have cnt: "sf_pending_count s1 = ?c - 1" "sf_reorder_source_remaining s1 = ?n - ?c" using i(5,6) a p by simp_all
    have pre: "0 < sf_reorder_capacity s1" "sf_pending_count s1 = 0 \<longrightarrow> sf_reorder_source_remaining s1 = 0"
      using cnt s1n False by simp_all
    obtain xs s' where r: "take_indices (?c - 1 + (?n - ?c)) s1 = Some (xs, s')" "window_inv s'"
        "mset xs = mset (pending s1 @ upcoming s1 (?n - ?c))" "sf_pending_count s' = 0"
        "sf_prebuf_idx s' = probe ?n (sf_prebuf_idx s1) (?n - ?c)"
      using take_indices_drain [OF i(2) pre] unfolding cnt s1n by blast
    have "Suc (?c - 1 + (?n - ?c)) = ?n" using n False by simp
    then have run: "take_indices ?n s = Some (i # xs, s')" using i(1) r(1) take_indices.simps(2) [of "?c - 1 + (?n - ?c)" s] by simp
    have "upcoming s ?c @ upcoming s1 (?n - ?c) = upcoming s ?n"
      using upcoming_append [OF s1n(1) i(7), of "?n - ?c"] a n by simp
    moreover have "mset (i # xs) = mset (upcoming s ?c @ upcoming s1 (?n - ?c))"
      using i(4) r(3) a p by (simp add: pending_def)
    ultimately have "mset (i # xs) = mset (upcoming s ?n)" by simp
    moreover have "sf_prebuf_idx s' = sf_prebuf_idx s" using r(5) i(7) a n round by (simp add: probe_probe)
    ultimately show ?thesis using run r(2,4) by blast
  qed
qed

end
