(* ===== verification/Feed_Properties.thy ===== *)
theory Feed_Properties
  imports Feed_Window
begin

text \<open>
  Properties of the simulated feed: the encoders and the decoder are inverse to each other, a
  synthetic source delivers a well-formed tick whenever the rate, the ring and the drop injection
  allow it, the reorder window permutes a cycle, and a replay source delivers no message that
  names its stock.
\<close>

section \<open>Invariant of a source\<close>

definition sim_inv :: "SimFeedSource \<Rightarrow> bool" where
  "sim_inv s \<longleftrightarrow> window_inv s \<and> st_inv (sf_symbols s) \<and> length (sf_raw_buf s) = sf_prebuf_count s \<and>
     (\<forall>m\<in>set (sf_raw_buf s). decodes (sf_symbols s) m) \<and> sc_mode (sf_cfg s) = kSynthetic"

lemma init_synthetic_ok:
  assumes cfg: "sim_cfg_ok cfg"
  shows "\<exists>s. init_synthetic True now (new_source cfg) = Some (unat (sc_prebuf_count cfg) \<noteq> 0, s) \<and>
    (unat (sc_prebuf_count cfg) \<noteq> 0 \<longrightarrow> sim_inv s \<and> sf_pending_count s = 0)"
proof -
  let ?n = "unat (sc_prebuf_count cfg)"
  obtain t where t: "insert_tickers (unat (sc_synthetic_symbols cfg)) st_clear = Some t" "st_inv t"
      "\<forall>i<unat (sc_synthetic_symbols cfg). st_map t (ticker_key i) = Some (of_nat i)"
    using insert_tickers_spec [of "unat (sc_synthetic_symbols cfg)"] cfg by (auto simp: sim_cfg_ok_def)
  have "gen_room ?n 34200000000000 1" using word_ranges(2) [of "sc_prebuf_count cfg"]
    by (simp add: gen_room_def kDayNs_def)
  then obtain msgs g where g: "generate cfg ?n 34200000000000 1 (seed_rng (sc_seed cfg)) = Some (msgs, g)"
      "length msgs = ?n" "\<forall>m\<in>set msgs. decodes t m"
    using generate_ok [OF cfg, of t ?n 34200000000000 1 "seed_rng (sc_seed cfg)"] t by (auto simp: tickers_in_def)
  show ?thesis using t g cfg word_ranges(2) [of "sc_prebuf_count cfg"]
    by (auto simp: init_synthetic_def new_source_def generate_synthetic_messages_def sim_inv_def window_inv_def
        window_wf_def pending_def sim_cfg_ok_def Let_def)
qed

lemma should_drop_total: "\<exists>d g. should_drop s = Some (d, s\<lparr>sf_rng := g\<rparr>)"
proof (cases "sc_drop_rate (sf_cfg s)")
  case (RateBelow below)
  obtain x g where "uniform_u32 0 999 (sf_rng s) = Some (x, g)" using uniform_u32_range [of 999 "sf_rng s"] by auto
  then have "should_drop s = Some (below x, s\<lparr>sf_rng := g\<rparr>)" using RateBelow by (simp add: should_drop_def)
  then show ?thesis by blast
next
  case RateOne
  then have "should_drop s = Some (True, s\<lparr>sf_rng := sf_rng s\<rparr>)" by (simp add: should_drop_def)
  then show ?thesis by blast
next
  case RateZero
  then have "should_drop s = Some (False, s\<lparr>sf_rng := sf_rng s\<rparr>)" by (simp add: should_drop_def)
  then show ?thesis by blast
next
  case RateInvalid
  then have "should_drop s = Some (False, s\<lparr>sf_rng := sf_rng s\<rparr>)" by (simp add: should_drop_def)
  then show ?thesis by blast
qed

text \<open>The steps of a poll that only touch the clock, the bursts, the counters and the generator.\<close>

definition quiet :: "SimFeedSource \<Rightarrow> SimFeedSource \<Rightarrow> bool" where
  "quiet s s' \<longleftrightarrow> sf_cfg s' = sf_cfg s \<and> sf_raw_buf s' = sf_raw_buf s \<and> sf_symbols s' = sf_symbols s \<and>
     sf_prebuf_count s' = sf_prebuf_count s \<and> sf_reorder_capacity s' = sf_reorder_capacity s \<and>
     sf_prebuf_idx s' = sf_prebuf_idx s \<and> sf_pending_idx s' = sf_pending_idx s \<and>
     sf_pending_count s' = sf_pending_count s \<and> sf_replay_base s' = sf_replay_base s"

lemma quiet_steps:
  "quiet s (snd (pace now s))" "quiet s (note_attempt s)" "quiet s (s\<lparr>sf_rng := g\<rparr>)" "quiet s (count_bytes k s)"
  "quiet s (s\<lparr>sf_total_msgs := m\<rparr>)" "quiet s (s\<lparr>sf_total_dropped := m\<rparr>)"
  by (simp_all add: quiet_def pace_def note_attempt_def count_bytes_def Let_def)

lemma quiet_trans: "quiet s t \<Longrightarrow> quiet t u \<Longrightarrow> quiet s u"
  by (simp add: quiet_def)

lemma quiet_inv: "quiet s s' \<Longrightarrow> sim_inv s \<Longrightarrow> sim_inv s'"
  by (simp add: quiet_def sim_inv_def window_inv_def window_wf_def pending_def)

lemma counters_kept:
  "sf_total_msgs (snd (pace now s)) = sf_total_msgs s" "sf_total_dropped (snd (pace now s)) = sf_total_dropped s"
  "sf_total_msgs (note_attempt s) = sf_total_msgs s" "sf_total_dropped (note_attempt s) = sf_total_dropped s"
  "sf_total_msgs (count_bytes k s) = sf_total_msgs s" "sf_total_dropped (count_bytes k s) = sf_total_dropped s"
  by (simp_all add: pace_def note_attempt_def count_bytes_def Let_def)

lemma next_index_ok:
  assumes "sim_inv s"
  shows "\<exists>i s'. next_synthetic_index s = Some (i, s') \<and> sim_inv s' \<and> same_source s s' \<and> i < length (sf_raw_buf s')"
proof (cases "sf_reorder_capacity s = 0")
  case True
  then show ?thesis using next_index_plain [of s] assms
    by (auto simp: sim_inv_def same_source_def window_inv_def window_wf_def)
next
  case False
  have w: "window_inv s" using assms by (simp add: sim_inv_def)
  obtain i s' where i: "next_synthetic_index s = Some (i, s')" "window_inv s'" "same_source s s'"
      "add_mset i (mset (pending s')) = mset (pending s @ upcoming s (added s))"
    using next_index_window [OF w] False by blast
  have "i \<in> set (pending s @ upcoming s (added s))" using arg_cong [OF i(4), of set_mset] by auto
  then have "i < sf_prebuf_count s" using w by (auto simp: window_inv_def window_wf_def upcoming_def probe_less)
  then show ?thesis using i(1-3) assms by (auto simp: sim_inv_def same_source_def)
qed

text \<open>Decoding into a claimed slot is pushing the decoded tick.\<close>

lemma decode_into_push:
  assumes "try_claim kTickCapacity ring = Some slot" "decodes t (raw, len)" "st_inv t"
  shows "\<exists>tick ring'. decode_into (take len raw) t slot ring = (True, ring') \<and>
    ring_push kTickCapacity ring tick = Some ring' \<and> tick_wf tick"
proof -
  let ?d = "decode_itch (Some (take len raw)) t (read_slot slot ring)"
  have "fst ?d" using assms(2) by (simp add: decodes_def)
  then have "tick_wf (snd ?d)" using decoded_wf [OF assms(3)] by blast
  moreover have "decode_into (take len raw) t slot ring = (True, commit (write_slot slot (snd ?d) ring))"
    using \<open>fst ?d\<close> by (simp add: decode_into_def case_prod_unfold Let_def)
  ultimately show ?thesis using assms(1) by (auto simp: ring_push_def)
qed

section \<open>Polling\<close>

text \<open>
  The outcomes of a poll that delivers a tick, and of one that does not: the rate was too high,
  the ring was full, or the message was dropped on purpose.
\<close>

definition delivers :: "SimFeedSource \<Rightarrow> TickMsg SPSCRing \<Rightarrow> SimFeedSource \<Rightarrow> TickMsg SPSCRing \<Rightarrow> bool" where
  "delivers s ring s' ring' \<longleftrightarrow> sf_total_msgs s' = sf_total_msgs s + 1 \<and> sf_total_dropped s' = sf_total_dropped s \<and>
     (\<exists>tick. tick_wf tick \<and> ring_push kTickCapacity ring tick = Some ring')"

definition drops_one :: "SimFeedSource \<Rightarrow> SimFeedSource \<Rightarrow> bool" where
  "drops_one s s' \<longleftrightarrow> sc_drop_rate (sf_cfg s) \<noteq> RateZero \<and> sf_total_msgs s' = sf_total_msgs s \<and>
     sf_total_dropped s' = sf_total_dropped s + 1"

definition idles :: "SimFeedSource \<Rightarrow> SimFeedSource \<Rightarrow> bool" where
  "idles s s' \<longleftrightarrow> sf_total_msgs s' = sf_total_msgs s \<and> sf_total_dropped s' = sf_total_dropped s"

definition withholds ::
  "u64 \<Rightarrow> SimFeedSource \<Rightarrow> TickMsg SPSCRing \<Rightarrow> SimFeedSource \<Rightarrow> TickMsg SPSCRing \<Rightarrow> bool" where
  "withholds now s ring s' ring' \<longleftrightarrow> ring' = ring \<and>
     ((\<not> fst (pace now s) \<or> try_claim kTickCapacity ring = None) \<and> idles s s' \<or> drops_one s s')"

lemmas outcomes = delivers_def drops_one_def idles_def withholds_def

lemma ring_full_claim: "kTickCapacity \<le> unat (ring_size ring) \<Longrightarrow> try_claim kTickCapacity ring = None"
  by (simp add: try_claim_def ring_size_def)

lemma should_drop_zero: "sc_drop_rate (sf_cfg s) = RateZero \<Longrightarrow> should_drop s = Some (d, s') \<Longrightarrow> \<not> d"
  by (simp add: should_drop_def)

lemma emit_synthetic_ok:
  assumes dec: "decodes (sf_symbols s) (raw, len)" "st_inv (sf_symbols s)"
  shows "\<exists>n s' ring'. emit_synthetic raw len s ring = Some (n, s', ring') \<and> quiet s s' \<and>
    (n = 1 \<and> delivers s ring s' ring' \<or>
     n = 0 \<and> ring' = ring \<and> (try_claim kTickCapacity ring = None \<and> idles s s' \<or> drops_one s s'))"
proof -
  let ?a = "note_attempt s"
  obtain d g where d: "should_drop ?a = Some (d, ?a\<lparr>sf_rng := g\<rparr>)" using should_drop_total by blast
  let ?s = "?a\<lparr>sf_rng := g\<rparr>"
  have q: "quiet s ?s" using quiet_trans [OF quiet_steps(2,3)] .
  have k: "sf_cfg ?s = sf_cfg s" "sf_total_msgs ?s = sf_total_msgs s" "sf_total_dropped ?s = sf_total_dropped s"
      "sf_symbols ?s = sf_symbols s"
    using q counters_kept(3,4) [of s] by (simp_all add: quiet_def)
  consider "d" | "\<not> d" "try_claim kTickCapacity ring = None" | slot where "\<not> d" "try_claim kTickCapacity ring = Some slot"
    by (cases "try_claim kTickCapacity ring") auto
  then show ?thesis
  proof cases
    case 1
    let ?s' = "count_bytes len (?s\<lparr>sf_total_dropped := sf_total_dropped ?s + 1\<rparr>)"
    have "quiet s ?s'" using quiet_trans [OF quiet_trans [OF q quiet_steps(6)] quiet_steps(4)] .
    moreover have "drops_one s ?s'" using should_drop_zero [OF _ d] 1 k by (auto simp: outcomes count_bytes_def)
    ultimately show ?thesis using d 1 by (simp add: emit_synthetic_def)
  next
    case 2
    then show ?thesis using d q k by (simp add: emit_synthetic_def outcomes)
  next
    case (3 slot)
    obtain tick ring' where t: "decode_into (take len raw) (sf_symbols s) slot ring = (True, ring')"
        "ring_push kTickCapacity ring tick = Some ring'" "tick_wf tick"
      using decode_into_push [OF 3(2) dec] by blast
    let ?s' = "count_bytes len (?s\<lparr>sf_total_msgs := sf_total_msgs ?s + 1\<rparr>)"
    have "quiet s ?s'" using quiet_trans [OF quiet_trans [OF q quiet_steps(5)] quiet_steps(4)] .
    moreover have "delivers s ring ?s' ring'" using t k by (auto simp: outcomes count_bytes_def)
    ultimately show ?thesis using d 3 t(1) k(4) by (simp add: emit_synthetic_def)
  qed
qed

lemma poll_synthetic_ok:
  assumes inv: "sim_inv s"
  shows "\<exists>n s' ring'. poll_synthetic now s ring = Some (n, s', ring') \<and> sim_inv s' \<and> sf_cfg s' = sf_cfg s \<and>
    (n = 1 \<and> delivers s ring s' ring' \<or> n = 0 \<and> withholds now s ring s' ring')"
proof -
  obtain go s1 where p: "pace now s = (go, s1)" by (cases "pace now s")
  have s1: "quiet s s1" "sf_total_msgs s1 = sf_total_msgs s" "sf_total_dropped s1 = sf_total_dropped s"
    using quiet_steps(1) [of s now] counters_kept(1,2) [of now s] p by simp_all
  note inv1 = quiet_inv [OF s1(1) inv]
  show ?thesis
  proof (cases "\<not> go \<or> kTickCapacity \<le> unat (ring_size ring)")
    case True
    then show ?thesis using p s1 inv1 ring_full_claim [of ring]
      by (auto simp: poll_synthetic_def outcomes quiet_def)
  next
    case False
    obtain i s2 where i: "next_synthetic_index s1 = Some (i, s2)" "sim_inv s2" "same_source s1 s2"
        "i < length (sf_raw_buf s2)"
      using next_index_ok [OF inv1] by blast
    obtain raw len where m: "sf_raw_buf s2 ! i = (raw, len)" by (cases "sf_raw_buf s2 ! i")
    have dec: "decodes (sf_symbols s2) (raw, len)" "st_inv (sf_symbols s2)"
      using i(2,4) m nth_mem [OF i(4)] by (auto simp: sim_inv_def)
    obtain n s' ring' where e: "emit_synthetic raw len s2 ring = Some (n, s', ring')" "quiet s2 s'"
        "n = 1 \<and> delivers s2 ring s' ring' \<or>
         n = 0 \<and> ring' = ring \<and> (try_claim kTickCapacity ring = None \<and> idles s2 s' \<or> drops_one s2 s')"
      using emit_synthetic_ok [OF dec] by blast
    have "poll_synthetic now s ring = Some (n, s', ring')" using False p i(1,4) m e(1) by (simp add: poll_synthetic_def)
    moreover have "sim_inv s'" by (rule quiet_inv [OF e(2) i(2)])
    moreover have "sf_cfg s' = sf_cfg s" "sf_cfg s2 = sf_cfg s" "sf_total_msgs s2 = sf_total_msgs s"
        "sf_total_dropped s2 = sf_total_dropped s"
      using e(2) i(3) s1 by (simp_all add: quiet_def same_source_def)
    moreover from this e(3) have "n = 1 \<and> delivers s ring s' ring' \<or> n = 0 \<and> withholds now s ring s' ring'"
      by (auto simp: outcomes)
    ultimately show ?thesis by blast
  qed
qed

text \<open>A source in use: initialised, then polled any number of times into rings in any state.\<close>

inductive sim_reach :: "SimConfig \<Rightarrow> SimFeedSource \<Rightarrow> bool" for cfg where
  start: "sim_init True True bytes now (new_source cfg) = Some (True, s) \<Longrightarrow> sim_reach cfg s"
| poll: "sim_reach cfg s \<Longrightarrow> sim_poll now s ring = Some (n, s', ring') \<Longrightarrow> sim_reach cfg s'"

lemma synthetic_reach:
  assumes "sim_reach cfg s" "sim_cfg_ok cfg"
  shows "sim_inv s \<and> sf_cfg s = cfg"
  using assms
proof induction
  case (start bytes now s)
  then have "init_synthetic True now (new_source cfg) = Some (True, s)"
    by (auto simp: sim_init_def sim_cfg_ok_def new_source_def split: if_splits)
  moreover from this have "sf_cfg s = cfg"
    by (auto simp: init_synthetic_def new_source_def Let_def bind_eq_Some_conv split: if_splits)
  ultimately show ?case using init_synthetic_ok [OF start(2), of now] by auto
next
  case (poll s now ring n s' ring')
  then have inv: "sim_inv s" "sf_cfg s = cfg" "sim_poll now s ring = poll_synthetic now s ring"
    by (auto simp: sim_poll_def sim_inv_def)
  then show ?case using poll_synthetic_ok [OF inv(1), of now ring] poll(2) by auto
qed

section \<open>Replay\<close>

lemma empty_table_lookup: "st_lookup st_clear p = kNotFound"
  using st_clear_inv by (auto simp: st_lookup_def st_map_def fun_eq_iff split: option.splits if_splits)

text \<open>The kinds of message that carry no ticker.\<close>

definition by_locate :: "u8 \<Rightarrow> bool" where
  "by_locate m \<longleftrightarrow> m \<in> {kOrderExecuted, kOrderExecPrice, kOrderCancel, kOrderDelete, kOrderReplace}"

lemma decode_without_tickers:
  assumes ok: "fst (decode_itch buffer st_clear out)"
  shows "by_locate (tk_msg_type (snd (decode_itch buffer st_clear out)))"
  using decode_head [OF ok]
proof cases
  case (1 raw)
  have b: "fst (decode_body raw st_clear (empty_tick\<lparr>tk_msg_type := raw ! 0, tk_timestamp := be_timestamp48 5 raw\<rparr>))"
    using ok 1(6) by simp
  have "by_locate (raw ! 0)" using 1(4) b
    by (cases "raw ! 0" rule: known_type_cases)
      (simp_all add: decode_body_simps decode_add_def decode_trade_def decode_cross_def decode_trading_action_def
        decode_reg_sho_def empty_table_lookup by_locate_def)
  then show ?thesis using decode_keeps [OF b] 1(6) by simp
qed

lemma replay_poll_push:
  assumes "poll_replay now s ring = Some (1, s', ring')" "sf_symbols s = st_clear"
  shows "\<exists>tick. by_locate (tk_msg_type tick) \<and> ring_push kTickCapacity ring tick = Some ring'"
proof -
  have sym: "sf_symbols (snd (pace now s)) = st_clear" "sf_symbols (note_attempt t) = sf_symbols t" for t
    using assms(2) by (simp_all add: pace_def note_attempt_def Let_def)
  have "\<exists>raw slot. try_claim kTickCapacity ring = Some slot \<and> decode_into raw st_clear slot ring = (True, ring')"
  proof -
    obtain go s1 where p: "pace now s = (go, s1)" by (cases "pace now s")
    have s1: "sf_symbols s1 = st_clear" using sym(1) p by simp
    have drop: "sf_symbols s3 = sf_symbols s2" if "should_drop (note_attempt s2) = Some (d, s3)" for s2 d s3
      using that should_drop_total [of "note_attempt s2"] sym(2) [of s2] by auto
    show ?thesis
      using assms(1) s1 drop unfolding poll_replay_def p
      by (auto simp: Let_def bind_eq_Some_conv split: if_splits option.splits prod.splits)
  qed
  then obtain raw slot where c: "try_claim kTickCapacity ring = Some slot" "decode_into raw st_clear slot ring = (True, ring')"
    by blast
  let ?d = "decode_itch (Some raw) st_clear (read_slot slot ring)"
  have "fst ?d" "ring' = commit (write_slot slot (snd ?d) ring)"
    using c(2) by (auto simp: decode_into_def case_prod_unfold Let_def split: if_splits)
  then show ?thesis using decode_without_tickers [of "Some raw" "read_slot slot ring"] c(1) by (auto simp: ring_push_def)
qed

lemma poll_replay_symbols:
  assumes "poll_replay now s ring = Some (n, s', ring')"
  shows "sf_symbols s' = sf_symbols s \<and> sf_cfg s' = sf_cfg s"
proof -
  obtain go s1 where p: "pace now s = (go, s1)" by (cases "pace now s")
  have s1: "quiet s s1" using quiet_steps(1) [of s now] p by simp
  have drop: "quiet s2 s3" if "should_drop (note_attempt s2) = Some (d, s3)" for s2 d s3
    using that should_drop_total [of "note_attempt s2"] quiet_trans [OF quiet_steps(2,3)] by auto
  show ?thesis
    using assms s1 unfolding poll_replay_def p
    by (auto simp: Let_def bind_eq_Some_conv count_bytes_def quiet_def dest!: drop
        split: if_splits option.splits prod.splits)
qed

lemma replay_reach:
  assumes "sim_reach cfg s" "sc_mode cfg = kReplay"
  shows "sf_symbols s = st_clear \<and> sf_cfg s = cfg"
  using assms
proof induction
  case (start bytes now s)
  then show ?case by (auto simp: sim_init_def init_replay_def new_source_def split: if_splits option.splits)
next
  case (poll s now ring n s' ring')
  then have inv: "sf_symbols s = st_clear" "sf_cfg s = cfg" "sim_poll now s ring = poll_replay now s ring"
    by (auto simp: sim_poll_def)
  then show ?case using poll_replay_symbols [of now s ring n s' ring'] poll(2) by auto
qed

section \<open>Properties\<close>

text \<open>
  C13: The encoders of the simulator and the ITCH decoder agree: for every symbol of a simulator's
  own ticker table, each of the four message kinds decodes to exactly the values encoded, whatever
  the buffer and the output held before.
\<close>

theorem itch_roundtrip:
  assumes "n \<le> kSymbols" "insert_tickers n st_clear = Some symbols" "unat sym_idx < n" "kSimMaxMsgLen \<le> length dst"
    and "unat ts < kDayNs" "ref \<noteq> 0" "is_valid_quantity (uint shares)" "is_valid_price (uint price)"
  shows "decode_itch (Some (take 36 (add_order sym_idx ts ref buy shares price dst))) symbols out =
      (True, \<lparr>tk_msg_type = kAddOrder, tk_flags = (if buy then kBuy else 0), tk_symbol_idx = unat sym_idx,
        tk_timestamp = ts, tk_price = uint price, tk_qty = uint shares, tk_order_ref = ref, tk_match_num = 0\<rparr>) \<and>
    decode_itch (Some (take 31 (order_executed sym_idx ts ref shares match_num dst))) symbols out =
      (True, \<lparr>tk_msg_type = kOrderExecuted, tk_flags = kPrintable, tk_symbol_idx = unat sym_idx,
        tk_timestamp = ts, tk_price = 0, tk_qty = uint shares, tk_order_ref = ref, tk_match_num = match_num\<rparr>) \<and>
    decode_itch (Some (take 23 (order_cancel sym_idx ts ref shares dst))) symbols out =
      (True, \<lparr>tk_msg_type = kOrderCancel, tk_flags = 0, tk_symbol_idx = unat sym_idx,
        tk_timestamp = ts, tk_price = 0, tk_qty = uint shares, tk_order_ref = ref, tk_match_num = 0\<rparr>) \<and>
    decode_itch (Some (take 19 (order_delete sym_idx ts ref dst))) symbols out =
      (True, \<lparr>tk_msg_type = kOrderDelete, tk_flags = 0, tk_symbol_idx = unat sym_idx,
        tk_timestamp = ts, tk_price = 0, tk_qty = 0, tk_order_ref = ref, tk_match_num = 0\<rparr>)"
proof -
  have "st_map symbols (ticker_key (unat sym_idx)) = Some (of_nat (unat sym_idx))"
    using insert_tickers_spec [OF assms(1)] assms(2,3) by auto
  then have m: "st_map symbols (ticker_key (unat sym_idx)) = Some sym_idx" by simp
  have l: "36 \<le> length dst" "31 \<le> length dst" "23 \<le> length dst" "19 \<le> length dst" "unat sym_idx < kSymbols"
    using assms(1,3,4) by (simp_all add: kSimMaxMsgLen_def)
  show ?thesis
    using decode_add_order [OF l(1) assms(5-8) m, of buy out]
      decode_order_executed [OF l(2) assms(5,6) l(5) assms(7), of match_num symbols out]
      decode_order_cancel [OF l(3) assms(5,6) l(5) assms(7), of symbols out]
      decode_order_delete [OF l(4) assms(5,6) l(5), of symbols out]
    by (simp add: empty_tick_def)
qed

theorem itch_roundtrip_witness:
  "\<exists>symbols. insert_tickers 3 st_clear = Some symbols \<and>
    decode_itch (Some (take 36 (add_order 2 1 7 True 100 50 (replicate 50 0)))) symbols empty_tick =
      (True, \<lparr>tk_msg_type = kAddOrder, tk_flags = kBuy, tk_symbol_idx = 2, tk_timestamp = 1, tk_price = 50,
        tk_qty = 100, tk_order_ref = 7, tk_match_num = 0\<rparr>)"
proof -
  obtain symbols where s: "insert_tickers 3 st_clear = Some symbols" using insert_tickers_spec [of 3] by auto
  then show ?thesis
    using itch_roundtrip [OF _ s, of 2 "replicate 50 0" 1 7 100 50 True empty_tick]
    by (simp add: kSimMaxMsgLen_def kDayNs_def is_valid_quantity_def is_valid_price_def kMinQuantity_def
        kMaxQuantity_def kMinPrice_def kMaxPrice_def)
qed

text \<open>
  C18: Polling a synthetic source always returns, in every state it can reach.  It delivers one
  well-formed tick at the end of the ring and counts it, unless the rate limit or a full ring
  forbids it or the message is dropped by the configured injection, which is counted as well: no
  generated message is ever refused by the decoder, and no array is left.
\<close>

theorem synthetic_poll_delivers:
  assumes "sim_cfg_ok cfg" "sim_reach cfg s" "ring_inv kTickCapacity ring"
  shows "\<exists>n s' ring'. sim_poll now s ring = Some (n, s', ring') \<and> ring_inv kTickCapacity ring' \<and>
    (n = 1 \<and> sf_total_msgs s' = sf_total_msgs s + 1 \<and> sf_total_dropped s' = sf_total_dropped s \<and>
       (\<exists>tick. tick_wf tick \<and> ring_contents kTickCapacity ring' = ring_contents kTickCapacity ring @ [tick]) \<or>
     n = 0 \<and> withholds now s ring s' ring')"
proof -
  have inv: "sim_inv s" using synthetic_reach [OF assms(2,1)] by simp
  then have poll: "sim_poll now s ring = poll_synthetic now s ring" by (simp add: sim_poll_def sim_inv_def)
  obtain n s' ring' where r: "poll_synthetic now s ring = Some (n, s', ring')"
      "n = 1 \<and> delivers s ring s' ring' \<or> n = 0 \<and> withholds now s ring s' ring'"
    using poll_synthetic_ok [OF inv] by blast
  then show ?thesis using poll assms(3) tick.push_some [OF assms(3)] by (auto simp: delivers_def withholds_def)
qed

definition sample_ring :: "TickMsg SPSCRing" where
  "sample_ring = \<lparr>rg_head = 0, rg_tail = 0, rg_slots = Some (\<lambda>_. empty_tick)\<rparr>"

lemma sample_ring_inv: "ring_inv kTickCapacity sample_ring"
  by (simp add: ring_inv_def sample_ring_def)

lemma default_cfg_ok: "sim_cfg_ok default_SimConfig"
  by (simp add: sim_cfg_ok_def default_SimConfig_def kMaxQuantity_def kMaxPrice_def)

lemma default_starts: "\<exists>s. sim_reach default_SimConfig s \<and> sf_pending_count s = 0"
proof -
  obtain s where "init_synthetic True 0 (new_source default_SimConfig) = Some (True, s)" "sf_pending_count s = 0"
    using init_synthetic_ok [OF default_cfg_ok, of 0] by (auto simp: default_SimConfig_def)
  moreover from this have "sim_reach default_SimConfig s"
    by (intro sim_reach.start [of None 0]) (simp add: sim_init_def new_source_def default_SimConfig_def)
  ultimately show ?thesis by blast
qed

theorem synthetic_poll_delivers_witness:
  "\<exists>s n s' ring'. sim_reach default_SimConfig s \<and> sim_poll 1000 s sample_ring = Some (n, s', ring') \<and>
     ring_inv kTickCapacity ring'"
  using synthetic_poll_delivers [OF default_cfg_ok _ sample_ring_inv, of _ 1000] default_starts by metis

text \<open>
  C25: The reorder window only permutes: from any reachable state with an empty window, one cycle
  of the buffer yields every message index exactly once and leaves the window empty and the cursor
  where it was.
\<close>

theorem reorder_cycle:
  assumes "sim_cfg_ok cfg" "sim_reach cfg s" "sf_pending_count s = 0"
  shows "\<exists>xs s'. take_indices (sf_prebuf_count s) s = Some (xs, s') \<and> mset xs = mset [0..<sf_prebuf_count s] \<and>
    sf_pending_count s' = 0 \<and> sf_prebuf_idx s' = sf_prebuf_idx s"
proof -
  have inv: "window_inv s" using synthetic_reach [OF assms(2,1)] by (simp add: sim_inv_def)
  then have "sf_prebuf_idx s < sf_prebuf_count s" by (simp add: window_inv_def window_wf_def)
  then show ?thesis using take_indices_cycle [OF inv assms(3)] mset_upcoming [of s] by auto
qed

theorem reorder_cycle_witness:
  "\<exists>s xs s'. sim_reach default_SimConfig s \<and> take_indices (sf_prebuf_count s) s = Some (xs, s') \<and>
     mset xs = mset [0..<sf_prebuf_count s]"
  using reorder_cycle [OF default_cfg_ok] default_starts by metis

text \<open>
  C34: A replay source never delivers an add order, a trade, a cross, a halt or a short-sale
  message: nothing fills its ticker table, so every message that names its stock is refused, and
  whatever it delivers only refers to orders that were never added.
\<close>

theorem replay_delivers_no_listing:
  assumes "sc_mode cfg = kReplay" "sim_reach cfg s" "ring_inv kTickCapacity ring"
    and "sim_poll now s ring = Some (1, s', ring')"
  shows "\<exists>tick. by_locate (tk_msg_type tick) \<and>
    ring_contents kTickCapacity ring' = ring_contents kTickCapacity ring @ [tick]"
proof -
  have "sf_symbols s = st_clear" "sim_poll now s ring = poll_replay now s ring"
    using replay_reach [OF assms(2,1)] assms(1) by (simp_all add: sim_poll_def)
  then obtain tick where "by_locate (tk_msg_type tick)" "ring_push kTickCapacity ring tick = Some ring'"
    using replay_poll_push [of now s ring s' ring'] assms(4) by auto
  then show ?thesis using tick.push_some [OF assms(3)] by blast
qed

definition replay_cfg :: SimConfig where
  "replay_cfg = default_SimConfig\<lparr>sc_mode := kReplay, sc_target_rate_hz := 0\<rparr>"

definition replay_source :: SimFeedSource where
  "replay_source = (new_source replay_cfg)\<lparr>sf_replay_base := 0 # 19 # sample_delete, sf_replay_cursor := 0\<rparr>"

lemma replay_source_reach: "sim_reach replay_cfg replay_source"
  by (rule sim_reach.start [of "Some (0 # 19 # sample_delete)" 0])
    (simp add: sim_init_def init_replay_def replay_source_def replay_cfg_def new_source_def default_SimConfig_def
      ns_per_msg_def)

lemma replay_source_poll: "\<exists>s' ring'. sim_poll 0 replay_source sample_ring = Some (1, s', ring')"
proof -
  have len: "length sample_delete = 19" by (simp add: sample_delete_def)
  have f: "of_be (field 0 2 (0 # 19 # sample_delete)) = 19" "field (Suc (Suc 0)) 19 (0 # 19 # sample_delete) = sample_delete"
    by (simp_all add: field_def of_be_def len)
  have pace: "pace 0 replay_source = (True, replay_source)" "sf_replay_base replay_source = 0 # 19 # sample_delete"
      "sf_replay_cursor replay_source = 0" "should_drop (note_attempt replay_source) = Some (False, replay_source)"
      "sf_symbols replay_source = st_clear" "sc_mode (sf_cfg replay_source) = kReplay"
    by (simp_all add: pace_def replay_source_def new_source_def burst_active_def should_drop_def note_attempt_def
        replay_cfg_def default_SimConfig_def)
  have ring: "try_claim kTickCapacity sample_ring = Some 0" "unat (ring_size sample_ring) = 0" "0 < kTickCapacity"
      "read_slot 0 sample_ring = empty_tick"
    by (simp_all add: try_claim_def sample_ring_def ring_size_def read_slot_def kTickCapacity_def)
  have "fst (decode_into sample_delete st_clear 0 sample_ring)"
    by (simp add: decode_into_def ring sample_delete_decodes)
  then show ?thesis
    by (cases "decode_into sample_delete st_clear 0 sample_ring")
      (simp add: sim_poll_def poll_replay_def pace f ring len Let_def)
qed

theorem replay_delivers_no_listing_witness:
  "\<exists>s' ring' tick. sim_poll 0 replay_source sample_ring = Some (1, s', ring') \<and> by_locate (tk_msg_type tick) \<and>
     ring_contents kTickCapacity ring' = ring_contents kTickCapacity sample_ring @ [tick]"
proof -
  obtain s' ring' where r: "sim_poll 0 replay_source sample_ring = Some (1, s', ring')" using replay_source_poll by blast
  have "sc_mode replay_cfg = kReplay" by (simp add: replay_cfg_def)
  from replay_delivers_no_listing [OF this replay_source_reach sample_ring_inv r] show ?thesis using r by blast
qed

end
