(* ===== verification/Risk.thy ===== *)
theory Risk
  imports Arena
begin

text \<open>
  The data types of \<open>luv_execution.hpp\<close>, its branch-free integer helpers and \<open>PreTradeRisk\<close>.
  The theory shows that the helpers compute what they stand for at every 64-bit value and that
  \<open>evaluate\<close> accepts an order exactly when every limit holds in unbounded arithmetic.
\<close>

section \<open>Types\<close>

definition kSideBuy :: u8 where "kSideBuy = 0"
definition kSideSell :: u8 where "kSideSell = 1"

definition kRejectNone :: u8 where "kRejectNone = 0"
definition kRejectQty :: u8 where "kRejectQty = 1"
definition kRejectPosition :: u8 where "kRejectPosition = 2"
definition kRejectStaleAlpha :: u8 where "kRejectStaleAlpha = 4"
definition kRejectHalted :: u8 where "kRejectHalted = 8"
definition kRejectFlatSignal :: u8 where "kRejectFlatSignal = 16"
definition kRejectOrderCapacity :: u8 where "kRejectOrderCapacity = 32"
definition kRejectInvalidSymbol :: u8 where "kRejectInvalidSymbol = 64"
definition kRejectPrice :: u8 where "kRejectPrice = 128"

lemmas reject_bits = kRejectNone_def kRejectQty_def kRejectPosition_def kRejectStaleAlpha_def kRejectHalted_def
  kRejectFlatSignal_def kRejectOrderCapacity_def kRejectInvalidSymbol_def kRejectPrice_def

record RiskLimits =
  lim_max_order_qty :: int
  lim_max_abs_position :: int
  lim_max_alpha_age_ns :: u64
  lim_min_price :: int
  lim_max_price :: int
  lim_reference_price :: int
  lim_max_price_collar_pct :: int
  lim_max_gross_loss :: int
  lim_max_consecutive_rejections :: u32

definition default_limits :: RiskLimits where
  "default_limits = \<lparr>lim_max_order_qty = 1000, lim_max_abs_position = 100000, lim_max_alpha_age_ns = 250000,
     lim_min_price = kMinPrice, lim_max_price = kMaxPrice, lim_reference_price = 0, lim_max_price_collar_pct = 10,
     lim_max_gross_loss = 0, lim_max_consecutive_rejections = 5\<rparr>"

definition limits_valid :: "RiskLimits \<Rightarrow> bool" where
  "limits_valid l \<longleftrightarrow> is_valid_quantity (lim_max_order_qty l) \<and> lim_max_abs_position l \<ge> 0 \<and>
     is_valid_price (lim_min_price l) \<and> lim_max_price l \<ge> lim_min_price l \<and> lim_max_price l \<le> kMaxPrice \<and>
     lim_reference_price l \<ge> 0 \<and> lim_max_price_collar_pct l \<ge> 0 \<and> lim_max_price_collar_pct l \<le> 100 \<and>
     lim_max_gross_loss l \<ge> 0"

record OrderIntent =
  oi_symbol_idx :: nat
  oi_side :: u8
  oi_qty :: int
  oi_price :: int
  oi_alpha_timestamp_ns :: u64
  oi_now_ns :: u64
  oi_client_order_id :: u32
  oi_time_in_force :: u8

record OrderReplaceIntent =
  ri_symbol_idx :: nat
  ri_original_order_id :: u32
  ri_replacement_order_id :: u32
  ri_new_qty :: int
  ri_new_price :: int
  ri_alpha_timestamp_ns :: u64
  ri_now_ns :: u64
  ri_time_in_force :: u8

record RiskDecision =
  rd_pass :: bool
  rd_reject_mask :: u8

section \<open>Integer helpers\<close>

definition clamp_u32 :: "int \<Rightarrow> u32" where
  "clamp_u32 v =
     (let non_negative = v \<ge> 0; fits_u32 = u64_of v \<le> 0xFFFFFFFF; clipped = (if v < 0 then 0 else 0xFFFFFFFF) in
      if non_negative \<and> fits_u32 then word_of_int v else clipped)"

definition signed_qty_delta :: "u8 \<Rightarrow> int \<Rightarrow> int" where
  "signed_qty_delta side qty =
     (let sign_mask = - uint (side AND 1) in s64 ((qty XOR sign_mask) - sign_mask))"

definition abs_i64 :: "int \<Rightarrow> u64" where
  "abs_i64 v =
     (let bits = word_of_int v; sign = drop_bit 63 bits in (bits XOR (0 - sign)) + sign)"

section \<open>Pre-trade risk\<close>

text \<open>
  \<open>_arena\<close> is a null pointer until \<open>init\<close>; the limits are an array of \<open>kSymbols\<close> entries.  The
  risk states live in the arena and are passed along.
\<close>

record PreTradeRisk =
  pr_arena :: bool
  pr_limits :: "nat \<Rightarrow> RiskLimits"

definition risk_init :: "bool \<Rightarrow> PreTradeRisk \<Rightarrow> bool \<times> PreTradeRisk" where
  "risk_init arena_initialised r =
     (if \<not> arena_initialised then (False, r) else (True, r\<lparr>pr_arena := True, pr_limits := (\<lambda>_. default_limits)\<rparr>))"

definition set_limits :: "nat \<Rightarrow> RiskLimits \<Rightarrow> PreTradeRisk \<Rightarrow> bool \<times> PreTradeRisk" where
  "set_limits symb limits r =
     (if symb \<ge> kSymbols \<or> \<not> limits_valid limits then (False, r)
      else (True, r\<lparr>pr_limits := (pr_limits r)(symb := limits)\<rparr>))"

definition risk_limits :: "PreTradeRisk \<Rightarrow> nat \<Rightarrow> RiskLimits" where
  "risk_limits r symb = pr_limits r (if symb < kSymbols then symb else 0)"

text \<open>The parts of \<open>evaluate\<close>, one per flag of the code.\<close>

definition valid_qty :: "RiskLimits \<Rightarrow> OrderIntent \<Rightarrow> bool" where
  "valid_qty limits intent \<longleftrightarrow> oi_qty intent > 0 \<and> oi_qty intent \<le> lim_max_order_qty limits"

definition safe_qty :: "RiskLimits \<Rightarrow> OrderIntent \<Rightarrow> int" where
  "safe_qty limits intent = (if valid_qty limits intent then oi_qty intent else 0)"

definition valid_pos :: "RiskLimits \<Rightarrow> RiskState \<Rightarrow> OrderIntent \<Rightarrow> bool" where
  "valid_pos limits risk intent \<longleftrightarrow>
     (let signed_delta = signed_qty_delta (oi_side intent) (safe_qty limits intent);
          projected = s64 (rs_net_position risk + signed_delta) in
      \<not> add_overflow (rs_net_position risk) signed_delta \<and> lim_max_abs_position limits \<ge> 0 \<and>
      int (unat (abs_i64 projected)) \<le> u64_of (lim_max_abs_position limits))"

definition valid_alpha :: "RiskLimits \<Rightarrow> OrderIntent \<Rightarrow> bool" where
  "valid_alpha limits intent \<longleftrightarrow>
     (let timestamp_ordered = oi_now_ns intent \<ge> oi_alpha_timestamp_ns intent;
          age_ns = (if timestamp_ordered then oi_now_ns intent - oi_alpha_timestamp_ns intent else 0) in
      timestamp_ordered \<and> age_ns \<le> lim_max_alpha_age_ns limits)"

definition valid_price :: "RiskLimits \<Rightarrow> OrderIntent \<Rightarrow> bool" where
  "valid_price limits intent \<longleftrightarrow>
     oi_price intent \<ge> (if lim_min_price limits > 0 then lim_min_price limits else 1) \<and>
     u64_of (oi_price intent) \<le> (if lim_max_price limits > 0 then u64_of (lim_max_price limits) else 0xFFFFFFFF) \<and>
     u64_of (oi_price intent) \<le> 0xFFFFFFFF"

definition collar_ok :: "RiskLimits \<Rightarrow> OrderIntent \<Rightarrow> bool" where
  "collar_ok limits intent =
     (if lim_reference_price limits > 0 \<and> lim_max_price_collar_pct limits > 0 then
        let price = u64_of (oi_price intent); reference = u64_of (lim_reference_price limits);
            diff = (if price \<ge> reference then price - reference else reference - price);
            max_allowed_diff = (reference * u64_of (lim_max_price_collar_pct limits)) mod 2 ^ 64 div 100 in
        diff \<le> max_allowed_diff
      else True)"

definition loss_ok :: "RiskLimits \<Rightarrow> RiskState \<Rightarrow> bool" where
  "loss_ok limits risk \<longleftrightarrow> lim_max_gross_loss limits \<le> 0 \<or> rs_current_drawdown risk \<le> lim_max_gross_loss limits"

definition valid_notional :: "RiskLimits \<Rightarrow> RiskState \<Rightarrow> OrderIntent \<Rightarrow> bool" where
  "valid_notional limits risk intent \<longleftrightarrow>
     (let order_notional = s64 (oi_price intent * safe_qty limits intent) in
      valid_price limits intent \<and> collar_ok limits intent \<and>
      \<not> mul_overflow (oi_price intent) (safe_qty limits intent) \<and>
      \<not> add_overflow (rs_gross_exposure risk) order_notional \<and> rs_gross_exposure risk \<ge> 0)"

definition evaluate :: "PreTradeRisk \<Rightarrow> (nat \<Rightarrow> RiskState) \<Rightarrow> OrderIntent \<Rightarrow> RiskDecision" where
  "evaluate r risks intent =
     (if \<not> pr_arena r \<or> oi_symbol_idx intent \<ge> kSymbols then \<lparr>rd_pass = False, rd_reject_mask = kRejectInvalidSymbol\<rparr>
      else
        let limits = pr_limits r (oi_symbol_idx intent); risk = risks (oi_symbol_idx intent);
            qty = valid_qty limits intent; pos = valid_pos limits risk intent; alpha = valid_alpha limits intent;
            halt = rs_halted risk = 0; price = valid_price limits intent \<and> collar_ok limits intent;
            loss = loss_ok limits risk; notional = valid_notional limits risk intent;
            pass = qty \<and> pos \<and> alpha \<and> halt \<and> price \<and> notional \<and> loss;
            reject = (if qty then 0 else kRejectQty) OR (if pos then 0 else kRejectPosition) OR
              (if alpha then 0 else kRejectStaleAlpha) OR (if halt \<and> loss then 0 else kRejectHalted) OR
              (if price \<and> notional then 0 else kRejectPrice)
        in \<lparr>rd_pass = pass, rd_reject_mask = reject AND (if pass then 0 else 0xFF)\<rparr>)"

section \<open>The helpers\<close>

lemma clamp_u32_eq: "i64 v \<Longrightarrow> uint (clamp_u32 v) = max 0 (min v 0xFFFFFFFF)"
  by (cases "v < 0") (auto simp: clamp_u32_def Let_def u64_of_nonneg uint_word_of_int max_def min_def)

lemma signed_qty_delta_eq:
  assumes "i64 qty"
  shows "signed_qty_delta side qty = (if side AND 1 = 0 then qty else s64 (- qty))"
proof (cases "side AND 1 = 0")
  case True
  then show ?thesis using assms by (simp add: signed_qty_delta_def s64_id)
next
  case False
  then have "side AND 1 = 1" by (metis and_one_eq of_bool_eq_0_iff of_bool_eq(2) mod2_eq_if)
  then have "signed_qty_delta side qty = s64 ((qty XOR - 1) + 1)" by (simp add: signed_qty_delta_def)
  also have "(qty XOR - 1) + 1 = - qty" by (simp add: not_int_def)
  finally show ?thesis using False by simp
qed

lemma sign_bit: "uint (drop_bit 63 w) = uint w div 2 ^ 63" for w :: u64
proof -
  have "unat (drop_bit 63 w) = drop_bit 63 (unat w)" by (rule unat_drop_bit_eq)
  also have "\<dots> = unat w div 2 ^ 63" by (rule drop_bit_eq_div)
  finally have "int (unat (drop_bit 63 w)) = int (unat w) div 2 ^ 63" by (simp only: of_nat_div of_nat_power of_nat_numeral)
  then show ?thesis by simp
qed

lemma abs_i64_eq:
  assumes "i64 v"
  shows "int (unat (abs_i64 v)) = \<bar>v\<bar>"
proof (cases "0 \<le> v")
  case True
  have u: "uint (word_of_int v :: u64) = v" unfolding uint_word_of_int using True assms by (simp add: i64_bounds)
  have "uint (drop_bit 63 (word_of_int v :: u64)) = v div 2 ^ 63"
    unfolding sign_bit u ..
  then have "drop_bit 63 (word_of_int v :: u64) = 0" using True assms by (simp add: word_uint_eq_iff i64_bounds)
  then have "abs_i64 v = word_of_int v" by (simp add: abs_i64_def Let_def)
  then show ?thesis using u True by simp
next
  case False
  have u: "uint (word_of_int v :: u64) = v + 2 ^ 64"
    using u64_of_neg [OF assms] False by (simp add: uint_word_of_int u64_of_def)
  have "uint (drop_bit 63 (word_of_int v :: u64)) = (v + 2 ^ 64) div 2 ^ 63"
    unfolding sign_bit u ..
  also have "\<dots> = 1" using False assms by (intro int_div_pos_eq [of _ _ 1 "v + 2 ^ 63"]) (simp_all add: i64_bounds)
  finally have sign: "drop_bit 63 (word_of_int v :: u64) = 1" by (simp add: word_uint_eq_iff)
  have "abs_i64 v = NOT (word_of_int v) + 1" by (simp add: abs_i64_def Let_def sign)
  also have "\<dots> = - word_of_int v" by (simp add: minus_eq_not_plus_1)
  also have "\<dots> = word_of_int (- v)" by simp
  finally have "uint (abs_i64 v) = - v" using False assms by (simp only: uint_word_of_int) (simp add: i64_bounds)
  then show ?thesis using False by simp
qed

section \<open>The decision\<close>

text \<open>
  The limits in unbounded arithmetic.  \<open>within_limits\<close> is what the gateway promises about an
  accepted order; the collar is read as a percentage of the reference price.
\<close>

definition signed_qty :: "u8 \<Rightarrow> int \<Rightarrow> int" where
  "signed_qty side qty = (if side AND 1 = 0 then qty else - qty)"

definition position_ok :: "RiskLimits \<Rightarrow> RiskState \<Rightarrow> OrderIntent \<Rightarrow> bool" where
  "position_ok limits risk intent \<longleftrightarrow>
     \<bar>rs_net_position risk + signed_qty (oi_side intent) (oi_qty intent)\<bar> \<le> lim_max_abs_position limits"

definition price_ok :: "RiskLimits \<Rightarrow> RiskState \<Rightarrow> OrderIntent \<Rightarrow> bool" where
  "price_ok limits risk intent \<longleftrightarrow>
     lim_min_price limits \<le> oi_price intent \<and> oi_price intent \<le> lim_max_price limits \<and>
     (0 < lim_reference_price limits \<and> 0 < lim_max_price_collar_pct limits \<longrightarrow>
       100 * \<bar>oi_price intent - lim_reference_price limits\<bar> \<le>
         lim_max_price_collar_pct limits * lim_reference_price limits) \<and>
     0 \<le> rs_gross_exposure risk \<and> rs_gross_exposure risk + oi_price intent * oi_qty intent \<le> INT64_MAX"

definition fresh_ok :: "RiskLimits \<Rightarrow> OrderIntent \<Rightarrow> bool" where
  "fresh_ok limits intent \<longleftrightarrow> unat (oi_alpha_timestamp_ns intent) \<le> unat (oi_now_ns intent) \<and>
     unat (oi_now_ns intent) - unat (oi_alpha_timestamp_ns intent) \<le> unat (lim_max_alpha_age_ns limits)"

definition within_limits :: "RiskLimits \<Rightarrow> RiskState \<Rightarrow> OrderIntent \<Rightarrow> bool" where
  "within_limits limits risk intent \<longleftrightarrow>
     0 < oi_qty intent \<and> oi_qty intent \<le> lim_max_order_qty limits \<and> position_ok limits risk intent \<and>
     fresh_ok limits intent \<and> rs_halted risk = 0 \<and> price_ok limits risk intent \<and>
     (0 < lim_max_gross_loss limits \<longrightarrow> rs_current_drawdown risk \<le> lim_max_gross_loss limits)"

text \<open>
  The limits the exactness of the decision is shown for: accepted by \<open>set_limits\<close>, and with a reference
  price in the range of prices, which \<open>set_limits\<close> does not check.  Beyond it the product that bounds the
  collar can wrap.
\<close>

definition limits_ok :: "RiskLimits \<Rightarrow> bool" where
  "limits_ok l \<longleftrightarrow> limits_valid l \<and> i64 (lim_max_abs_position l) \<and> lim_reference_price l \<le> kMaxPrice"

definition risk_ok :: "RiskState \<Rightarrow> bool" where
  "risk_ok risk \<longleftrightarrow> i64 (rs_net_position risk) \<and> i64 (rs_gross_exposure risk)"

lemma quantity_range: "is_valid_quantity q \<Longrightarrow> i64 q"
  by (simp add: numeric_valid i64_bounds)

lemma signed_qty_delta_small:
  assumes "0 \<le> qty" "qty \<le> INT64_MAX"
  shows "signed_qty_delta side qty = signed_qty side qty"
proof -
  have "i64 qty" "i64 (- qty)" using assms by (simp_all add: i64_bounds)
  then show ?thesis by (simp add: signed_qty_delta_eq s64_id signed_qty_def)
qed

lemma valid_pos_iff:
  assumes l: "limits_ok limits" and r: "risk_ok risk" and q: "valid_qty limits intent"
  shows "valid_pos limits risk intent \<longleftrightarrow> position_ok limits risk intent"
proof -
  let ?d = "signed_qty (oi_side intent) (oi_qty intent)" and ?n = "rs_net_position risk"
  have "0 \<le> oi_qty intent" "oi_qty intent \<le> INT64_MAX"
    using q l by (auto simp: valid_qty_def limits_ok_def limits_valid_def numeric_valid i64_bounds)
  then have d: "signed_qty_delta (oi_side intent) (safe_qty limits intent) = ?d"
    using q signed_qty_delta_small by (simp add: safe_qty_def)
  have m: "0 \<le> lim_max_abs_position limits" "i64 (lim_max_abs_position limits)"
    using l by (simp_all add: limits_ok_def limits_valid_def)
  show ?thesis
  proof (cases "i64 (?n + ?d)")
    case True
    then show ?thesis using m d abs_i64_eq [OF True]
      by (simp add: valid_pos_def position_ok_def Let_def add_overflow_def s64_id u64_of_nonneg)
  next
    case False
    then have "\<not> \<bar>?n + ?d\<bar> \<le> lim_max_abs_position limits" using m by (auto simp: i64_bounds)
    then show ?thesis using False d by (simp add: valid_pos_def position_ok_def Let_def add_overflow_def)
  qed
qed

lemma valid_alpha_iff: "valid_alpha limits intent \<longleftrightarrow> fresh_ok limits intent"
  by (auto simp: valid_alpha_def fresh_ok_def Let_def word_le_nat_alt unat_sub)

lemma collar_iff:
  assumes "limits_ok limits" "0 \<le> oi_price intent" "oi_price intent \<le> kMaxPrice"
  shows "collar_ok limits intent \<longleftrightarrow>
    (0 < lim_reference_price limits \<and> 0 < lim_max_price_collar_pct limits \<longrightarrow>
       100 * \<bar>oi_price intent - lim_reference_price limits\<bar> \<le>
         lim_max_price_collar_pct limits * lim_reference_price limits)"
proof -
  let ?r = "lim_reference_price limits" and ?c = "lim_max_price_collar_pct limits" and ?p = "oi_price intent"
  have b: "0 \<le> ?r" "?r \<le> kMaxPrice" "0 \<le> ?c" "?c \<le> 100" using assms by (simp_all add: limits_ok_def limits_valid_def)
  have i: "i64 ?r" "i64 ?p" "i64 ?c" using b assms by (simp_all add: i64_bounds kMaxPrice_def)
  have "?r * ?c \<le> kMaxPrice * 100" using b by (intro mult_mono) simp_all
  then have "(?r * ?c) mod 2 ^ 64 = ?r * ?c" using b by (simp add: kMaxPrice_def)
  moreover have "d \<le> (?r * ?c) div 100 \<longleftrightarrow> 100 * d \<le> ?c * ?r" for d
  proof -
    have "d \<le> (?r * ?c) div 100 \<longleftrightarrow> d * 100 \<le> ?r * ?c" by (metis div_less_iff_mult not_less zero_less_numeral)
    then show ?thesis by (simp add: mult.commute)
  qed
  ultimately show ?thesis using b i assms(2) by (simp add: collar_ok_def Let_def u64_of_nonneg abs_if)
qed

lemma valid_price_iff:
  assumes "limits_ok limits" "i64 (oi_price intent)"
  shows "valid_price limits intent \<longleftrightarrow> lim_min_price limits \<le> oi_price intent \<and> oi_price intent \<le> lim_max_price limits"
proof -
  have b: "1 \<le> lim_min_price limits" "lim_min_price limits \<le> lim_max_price limits" "lim_max_price limits \<le> kMaxPrice"
    using assms by (simp_all add: limits_ok_def limits_valid_def numeric_valid)
  then have "u64_of (lim_max_price limits) = lim_max_price limits"
    by (simp add: u64_of_nonneg i64_bounds kMaxPrice_def)
  moreover have "u64_of (oi_price intent) = oi_price intent" if "lim_min_price limits \<le> oi_price intent"
    using that b assms(2) by (simp add: u64_of_nonneg)
  ultimately show ?thesis using b by (auto simp: valid_price_def kMaxPrice_def)
qed

lemma valid_notional_iff:
  assumes l: "limits_ok limits" and r: "risk_ok risk" and q: "valid_qty limits intent" and p: "i64 (oi_price intent)"
  shows "valid_price limits intent \<and> collar_ok limits intent \<and> valid_notional limits risk intent \<longleftrightarrow>
    price_ok limits risk intent"
proof (cases "valid_price limits intent")
  case True
  then have b: "1 \<le> oi_price intent" "oi_price intent \<le> kMaxPrice"
    using valid_price_iff [OF l p] l by (auto simp: limits_ok_def limits_valid_def numeric_valid)
  have qb: "0 < oi_qty intent" "oi_qty intent \<le> kMaxQuantity"
    using q l by (auto simp: valid_qty_def limits_ok_def limits_valid_def numeric_valid)
  have n: "0 \<le> oi_price intent * oi_qty intent" "oi_price intent * oi_qty intent \<le> kMaxPrice * kMaxQuantity"
    using b qb by (auto intro!: mult_mono)
  then have i: "i64 (oi_price intent * oi_qty intent)" by (simp add: i64_bounds numeric_limits)
  have sq: "safe_qty limits intent = oi_qty intent" using q by (simp add: safe_qty_def)
  have add: "0 \<le> rs_gross_exposure risk \<Longrightarrow> add_overflow (rs_gross_exposure risk) (oi_price intent * oi_qty intent) \<longleftrightarrow>
      \<not> rs_gross_exposure risk + oi_price intent * oi_qty intent \<le> INT64_MAX"
    using n by (auto simp: add_overflow_def i64_bounds)
  have "valid_notional limits risk intent \<longleftrightarrow> collar_ok limits intent \<and> 0 \<le> rs_gross_exposure risk \<and>
      rs_gross_exposure risk + oi_price intent * oi_qty intent \<le> INT64_MAX"
    using True i sq add by (auto simp: valid_notional_def Let_def mul_overflow_def s64_id)
  then show ?thesis using True valid_price_iff [OF l p] collar_iff [OF l _ b(2)] b(1) by (auto simp: price_ok_def)
next
  case False
  then show ?thesis using valid_price_iff [OF l p] by (auto simp: price_ok_def)
qed

text \<open>The bits of the mask, for any outcome of the five checks.\<close>

lemma reject_mask_bits:
  fixes q p a h c :: bool
  defines "m \<equiv> (((if q then 0 else kRejectQty) OR (if p then 0 else kRejectPosition) OR
     (if a then 0 else kRejectStaleAlpha) OR (if h then 0 else kRejectHalted) OR (if c then 0 else kRejectPrice)) AND
     (if q \<and> p \<and> a \<and> h \<and> c then 0 else 0xFF))"
  shows "(m = 0 \<longleftrightarrow> q \<and> p \<and> a \<and> h \<and> c) \<and> (m AND kRejectQty = 0 \<longleftrightarrow> q) \<and> (m AND kRejectPosition = 0 \<longleftrightarrow> p) \<and>
    (m AND kRejectStaleAlpha = 0 \<longleftrightarrow> a) \<and> (m AND kRejectHalted = 0 \<longleftrightarrow> h) \<and> (m AND kRejectPrice = 0 \<longleftrightarrow> c)"
  by (cases q; cases p; cases a; cases h; cases c) (simp_all add: m_def reject_bits)

text \<open>The flags and the mask together decide the limits.\<close>

lemma evaluate_decides:
  assumes "pr_arena r" "oi_symbol_idx intent < kSymbols" "i64 (oi_price intent)"
    and "limits_ok (pr_limits r (oi_symbol_idx intent))" "risk_ok (risks (oi_symbol_idx intent))"
  shows "let d = evaluate r risks intent; m = rd_reject_mask d;
      limits = pr_limits r (oi_symbol_idx intent); risk = risks (oi_symbol_idx intent) in
    (rd_pass d \<longleftrightarrow> within_limits limits risk intent) \<and> (m = kRejectNone \<longleftrightarrow> rd_pass d) \<and>
    (m AND kRejectQty = 0 \<longleftrightarrow> 0 < oi_qty intent \<and> oi_qty intent \<le> lim_max_order_qty limits) \<and>
    (m AND kRejectStaleAlpha = 0 \<longleftrightarrow> fresh_ok limits intent) \<and>
    (m AND kRejectHalted = 0 \<longleftrightarrow> rs_halted risk = 0 \<and> loss_ok limits risk) \<and>
    (m AND kRejectQty = 0 \<longrightarrow>
      (m AND kRejectPosition = 0 \<longleftrightarrow> position_ok limits risk intent) \<and>
      (m AND kRejectPrice = 0 \<longleftrightarrow> price_ok limits risk intent))"
proof -
  let ?l = "pr_limits r (oi_symbol_idx intent)" and ?k = "risks (oi_symbol_idx intent)"
  let ?q = "valid_qty ?l intent" and ?p = "valid_pos ?l ?k intent" and ?a = "valid_alpha ?l intent"
    and ?h = "rs_halted ?k = 0 \<and> loss_ok ?l ?k"
    and ?c = "(valid_price ?l intent \<and> collar_ok ?l intent) \<and> valid_notional ?l ?k intent"
  let ?m = "rd_reject_mask (evaluate r risks intent)"
  have pass: "rd_pass (evaluate r risks intent) \<longleftrightarrow> ?q \<and> ?p \<and> ?a \<and> ?h \<and> ?c"
    using assms(1,2) by (auto simp: evaluate_def Let_def)
  have m: "?m = (((if ?q then 0 else kRejectQty) OR (if ?p then 0 else kRejectPosition) OR
     (if ?a then 0 else kRejectStaleAlpha) OR (if ?h then 0 else kRejectHalted) OR (if ?c then 0 else kRejectPrice)) AND
     (if ?q \<and> ?p \<and> ?a \<and> ?h \<and> ?c then 0 else 0xFF))"
    using assms(1,2) unfolding evaluate_def Let_def by auto
  note bits = reject_mask_bits [of ?q ?p ?a ?h ?c, folded m]
  have qty: "?q \<longleftrightarrow> 0 < oi_qty intent \<and> oi_qty intent \<le> lim_max_order_qty ?l" by (simp add: valid_qty_def)
  have pos: "?q \<Longrightarrow> ?p \<longleftrightarrow> position_ok ?l ?k intent" using valid_pos_iff [OF assms(4,5)] .
  have price: "?q \<Longrightarrow> ?c \<longleftrightarrow> price_ok ?l ?k intent" using valid_notional_iff [OF assms(4,5) _ assms(3)] by auto
  have loss: "loss_ok ?l ?k \<longleftrightarrow> (0 < lim_max_gross_loss ?l \<longrightarrow> rs_current_drawdown ?k \<le> lim_max_gross_loss ?l)"
    by (auto simp: loss_ok_def)
  have "?q \<and> ?p \<and> ?a \<and> ?h \<and> ?c \<longleftrightarrow> within_limits ?l ?k intent"
    unfolding within_limits_def using qty pos price loss valid_alpha_iff [of ?l intent] by blast
  then show ?thesis
    unfolding Let_def pass kRejectNone_def using bits qty pos price valid_alpha_iff [of ?l intent] by auto
qed

section \<open>Properties\<close>

text \<open>
  C8: The branch-free checks of \<open>evaluate\<close> decide the risk limits exactly: an order passes if and
  only if, in unbounded arithmetic, its quantity, the projected position, the age of its signal,
  the price with its collar, the gross exposure after it and the drawdown are all within the
  limits and the symbol is not halted.  The mask is zero exactly then, and each of its bits names
  a failed check.
\<close>

theorem risk_decision_exact:
  assumes "pr_arena r" "oi_symbol_idx intent < kSymbols" "i64 (oi_price intent)"
    and "limits_ok (pr_limits r (oi_symbol_idx intent))" "risk_ok (risks (oi_symbol_idx intent))"
  shows "let d = evaluate r risks intent; m = rd_reject_mask d;
      limits = pr_limits r (oi_symbol_idx intent); risk = risks (oi_symbol_idx intent) in
    (rd_pass d \<longleftrightarrow> within_limits limits risk intent) \<and> (m = kRejectNone \<longleftrightarrow> rd_pass d) \<and>
    (m AND kRejectQty = 0 \<longleftrightarrow> 0 < oi_qty intent \<and> oi_qty intent \<le> lim_max_order_qty limits) \<and>
    (m AND kRejectStaleAlpha = 0 \<longleftrightarrow> fresh_ok limits intent) \<and>
    (m AND kRejectHalted = 0 \<longleftrightarrow> rs_halted risk = 0 \<and> loss_ok limits risk) \<and>
    (m AND kRejectQty = 0 \<longrightarrow>
      (m AND kRejectPosition = 0 \<longleftrightarrow> position_ok limits risk intent) \<and>
      (m AND kRejectPrice = 0 \<longleftrightarrow> price_ok limits risk intent))"
  using assms by (rule evaluate_decides)

definition sample_risk :: PreTradeRisk where
  "sample_risk = \<lparr>pr_arena = True, pr_limits = (\<lambda>_. default_limits)\<rparr>"

definition sample_intent :: OrderIntent where
  "sample_intent = \<lparr>oi_symbol_idx = 5, oi_side = kSideSell, oi_qty = 100, oi_price = 1500000,
     oi_alpha_timestamp_ns = 1000, oi_now_ns = 2000, oi_client_order_id = 7, oi_time_in_force = 0\<rparr>"

theorem risk_decision_exact_witness:
  "rd_pass (evaluate sample_risk (\<lambda>_. se_risk zero_exec_state) sample_intent)"
  using risk_decision_exact [of sample_risk sample_intent "\<lambda>_. se_risk zero_exec_state"]
  by (simp add: Let_def sample_risk_def sample_intent_def default_limits_def zero_exec_state_def limits_ok_def
      limits_valid_def risk_ok_def numeric_valid i64_bounds within_limits_def position_ok_def price_ok_def
      fresh_ok_def signed_qty_def kSideSell_def)

end
