(* ===== verification/Ouch.thy ===== *)
theory Ouch
  imports Risk Bytes
begin

text \<open>
  The OUCH side of the gateway: \<open>OuchPacketTemplates\<close> of \<open>luv_execution.hpp\<close>, which patches fixed
  offsets of a prepared packet, and the parser of venue messages in \<open>luv_ouch.hpp\<close>.  The theory shows
  that a built packet carries the fields of its order and that the parser accepts exactly the framed
  messages of the five kinds.
\<close>

section \<open>Outbound packets\<close>

record OutboundPacket =
  pk_len :: nat
  pk_bytes :: "u8 list"

definition empty_packet :: OutboundPacket where
  "empty_packet = \<lparr>pk_len = 0, pk_bytes = replicate 64 0\<rparr>"

definition kEnterOrderLen :: nat where "kEnterOrderLen = 48"
definition kReplaceOrderLen :: nat where "kReplaceOrderLen = 32"

definition kMsgTypeOffset :: nat where "kMsgTypeOffset = 0"
definition kTokenOffset :: nat where "kTokenOffset = 1"
definition kSideOffset :: nat where "kSideOffset = 5"
definition kQtyOffset :: nat where "kQtyOffset = 6"
definition kSymbolOffset :: nat where "kSymbolOffset = 10"
definition kPriceOffset :: nat where "kPriceOffset = 18"
definition kTimeInForceOffset :: nat where "kTimeInForceOffset = 22"
definition kFirmOffset :: nat where "kFirmOffset = 26"
definition kDisplayOffset :: nat where "kDisplayOffset = 30"
definition kCapacityOffset :: nat where "kCapacityOffset = 31"
definition kIntermarketSweepOffset :: nat where "kIntermarketSweepOffset = 32"
definition kMinQtyOffset :: nat where "kMinQtyOffset = 33"
definition kCrossTypeOffset :: nat where "kCrossTypeOffset = 37"
definition kCustomerTypeOffset :: nat where "kCustomerTypeOffset = 38"

definition kReplaceMsgTypeOffset :: nat where "kReplaceMsgTypeOffset = 0"
definition kReplaceExistingTokenOffset :: nat where "kReplaceExistingTokenOffset = 1"
definition kReplaceReplacementTokenOffset :: nat where "kReplaceReplacementTokenOffset = 5"
definition kReplaceQtyOffset :: nat where "kReplaceQtyOffset = 9"
definition kReplacePriceOffset :: nat where "kReplacePriceOffset = 13"
definition kReplaceTimeInForceOffset :: nat where "kReplaceTimeInForceOffset = 17"
definition kReplaceDisplayOffset :: nat where "kReplaceDisplayOffset = 21"

lemmas ouch_offsets = kEnterOrderLen_def kReplaceOrderLen_def kMsgTypeOffset_def kTokenOffset_def kSideOffset_def
  kQtyOffset_def kSymbolOffset_def kPriceOffset_def kTimeInForceOffset_def kFirmOffset_def kDisplayOffset_def
  kCapacityOffset_def kIntermarketSweepOffset_def kMinQtyOffset_def kCrossTypeOffset_def kCustomerTypeOffset_def
  kReplaceMsgTypeOffset_def kReplaceExistingTokenOffset_def kReplaceReplacementTokenOffset_def kReplaceQtyOffset_def
  kReplacePriceOffset_def kReplaceTimeInForceOffset_def kReplaceDisplayOffset_def

definition store_u32_be :: "nat \<Rightarrow> u32 \<Rightarrow> u8 list \<Rightarrow> u8 list" where
  "store_u32_be dst v =
     put_bytes dst [ucast (drop_bit 24 v), ucast (drop_bit 16 v), ucast (drop_bit 8 v), ucast v]"

text \<open>
  \<open>make_symbol\<close> prints with the format \<open>S%03u\<close> and four spaces; indices below a thousand have at most
  three digits, so the eight bytes copied are the letter, the digits and the spaces.
\<close>

definition make_symbol :: "nat \<Rightarrow> u8 list" where
  "make_symbol symb = [0x53, of_nat (48 + symb div 100 mod 10), of_nat (48 + symb div 10 mod 10),
     of_nat (48 + symb mod 10)] @ replicate 4 0x20"

definition init_template :: "nat \<Rightarrow> nat \<Rightarrow> u8 list" where
  "init_template symb side =
     (let t = replicate kEnterOrderLen 0;
          t = put_bytes kMsgTypeOffset [0x4F] t;
          t = put_bytes kSideOffset [if side = 0 then 0x42 else 0x53] t;
          t = put_bytes kSymbolOffset (make_symbol symb) t;
          t = store_u32_be kTimeInForceOffset 0 t;
          t = put_bytes kFirmOffset [0x4C, 0x55, 0x56, 0x20] t;
          t = put_bytes kDisplayOffset [0x59] t;
          t = put_bytes kCapacityOffset [0x41] t;
          t = put_bytes kIntermarketSweepOffset [0x4E] t;
          t = store_u32_be kMinQtyOffset 0 t;
          t = put_bytes kCrossTypeOffset [0x4E] t
      in put_bytes kCustomerTypeOffset [0x20] t)"

record OuchPacketTemplates =
  ot_templates :: "nat \<Rightarrow> nat \<Rightarrow> u8 list"
  ot_initialised :: bool

definition new_templates :: OuchPacketTemplates where
  "new_templates = \<lparr>ot_templates = (\<lambda>_ _. replicate kEnterOrderLen 0), ot_initialised = False\<rparr>"

definition ouch_init :: "OuchPacketTemplates \<Rightarrow> OuchPacketTemplates" where
  "ouch_init t = t\<lparr>ot_templates := (\<lambda>symb side. if symb < kSymbols \<and> side < 2 then init_template symb side
     else ot_templates t symb side), ot_initialised := True\<rparr>"

definition build_enter_order ::
  "OuchPacketTemplates \<Rightarrow> OrderIntent \<Rightarrow> OutboundPacket \<Rightarrow> bool \<times> OutboundPacket" where
  "build_enter_order t intent out =
     (if \<not> ot_initialised t \<or> oi_symbol_idx intent \<ge> kSymbols then (False, out)
      else
        let bytes = put_bytes 0 (ot_templates t (oi_symbol_idx intent) (unat (oi_side intent AND 1))) (pk_bytes out);
            bytes = store_u32_be kTokenOffset (oi_client_order_id intent) bytes;
            bytes = store_u32_be kQtyOffset (clamp_u32 (oi_qty intent)) bytes;
            bytes = store_u32_be kPriceOffset (clamp_u32 (oi_price intent)) bytes;
            bytes = store_u32_be kTimeInForceOffset (ucast (oi_time_in_force intent)) bytes
        in (True, \<lparr>pk_len = kEnterOrderLen, pk_bytes = bytes\<rparr>))"

definition build_replace_order ::
  "OuchPacketTemplates \<Rightarrow> OrderReplaceIntent \<Rightarrow> OutboundPacket \<Rightarrow> bool \<times> OutboundPacket" where
  "build_replace_order t intent out =
     (if \<not> ot_initialised t \<or> ri_symbol_idx intent \<ge> kSymbols then (False, out)
      else
        let bytes = replicate 64 0;
            bytes = put_bytes kReplaceMsgTypeOffset [0x55] bytes;
            bytes = store_u32_be kReplaceExistingTokenOffset (ri_original_order_id intent) bytes;
            bytes = store_u32_be kReplaceReplacementTokenOffset (ri_replacement_order_id intent) bytes;
            bytes = store_u32_be kReplaceQtyOffset (clamp_u32 (ri_new_qty intent)) bytes;
            bytes = store_u32_be kReplacePriceOffset (clamp_u32 (ri_new_price intent)) bytes;
            bytes = store_u32_be kReplaceTimeInForceOffset (ucast (ri_time_in_force intent)) bytes;
            bytes = put_bytes kReplaceDisplayOffset [0x59] bytes
        in (True, \<lparr>pk_len = kReplaceOrderLen, pk_bytes = bytes\<rparr>))"

section \<open>Inbound messages\<close>

datatype EventType = kAccepted | kRejected | kExecuted | kCanceled | kReplaced

record Event =
  ev_type :: EventType
  ev_order_id :: u64
  ev_quantity :: int
  ev_price :: int
  ev_reason :: u8

definition ouch_be32 :: "nat \<Rightarrow> u8 list \<Rightarrow> u32" where
  "ouch_be32 off d = push_bit 24 (ucast (d ! off)) OR push_bit 16 (ucast (d ! (off + 1))) OR
     push_bit 8 (ucast (d ! (off + 2))) OR ucast (d ! (off + 3))"

definition ouch_be64 :: "nat \<Rightarrow> u8 list \<Rightarrow> u64" where
  "ouch_be64 off d = foldl shift_in 0 (field off 8 d)"

definition kAcceptedLength :: nat where "kAcceptedLength = 9"
definition kRejectedLength :: nat where "kRejectedLength = 10"
definition kExecutedLength :: nat where "kExecutedLength = 13"
definition kCanceledLength :: nat where "kCanceledLength = 9"
definition kReplacedLength :: nat where "kReplacedLength = 17"
definition kMaxBodyLength :: nat where "kMaxBodyLength = kReplacedLength"

lemmas ouch_lengths = kAcceptedLength_def kRejectedLength_def kExecutedLength_def kCanceledLength_def
  kReplacedLength_def kMaxBodyLength_def

text \<open>The switch of \<open>parse\<close> on a body; \<open>None\<close> is a refusal.\<close>

definition parse_body :: "u8 list \<Rightarrow> Event option" where
  "parse_body body =
     (let id = ouch_be64 1 body; n = length body; t = body ! 0;
          parsed = \<lparr>ev_type = kRejected, ev_order_id = id, ev_quantity = 0, ev_price = 0, ev_reason = 0\<rparr> in
      if id = 0 then None
      else if t = 0x41 then (if n \<noteq> kAcceptedLength then None else Some (parsed\<lparr>ev_type := kAccepted\<rparr>))
      else if t = 0x4A then
        (if n \<noteq> kRejectedLength then None else Some (parsed\<lparr>ev_type := kRejected, ev_reason := body ! 9\<rparr>))
      else if t = 0x45 then
        (if n \<noteq> kExecutedLength then None
         else let q = uint (ouch_be32 9 body) in
           if q \<le> 0 then None else Some (parsed\<lparr>ev_type := kExecuted, ev_quantity := q\<rparr>))
      else if t = 0x43 then (if n \<noteq> kCanceledLength then None else Some (parsed\<lparr>ev_type := kCanceled\<rparr>))
      else if t = 0x55 then
        (if n \<noteq> kReplacedLength then None
         else let q = uint (ouch_be32 9 body); p = uint (ouch_be32 13 body) in
           if q \<le> 0 \<or> p \<le> 0 then None
           else Some (parsed\<lparr>ev_type := kReplaced, ev_quantity := q, ev_price := p\<rparr>))
      else None)"

text \<open>The event and the number of bytes consumed, which is zero on a refusal.\<close>

definition parse :: "u8 list option \<Rightarrow> (Event \<times> nat) option" where
  "parse buffer =
     (case buffer of
        None \<Rightarrow> None
      | Some d \<Rightarrow>
          if length d < 2 then None
          else
            let body_length = unat (d ! 0) * 256 + unat (d ! 1) in
            if body_length < 9 \<or> body_length > kMaxBodyLength \<or> length d < body_length + 2 then None
            else map_option (\<lambda>e. (e, body_length + 2)) (parse_body (field 2 body_length d)))"

section \<open>The fields of a built packet\<close>

lemma store_u32_be_eq: "store_u32_be off v = put_bytes off (to_be 4 (unat v))"
  by (simp add: store_u32_be_def to_be_word_bytes fun_eq_iff)

lemma length_make_symbol [simp]: "length (make_symbol symb) = 8"
  by (simp add: make_symbol_def)

lemma length_init_template [simp]: "length (init_template symb side) = 48"
  by (simp add: init_template_def Let_def store_u32_be_eq ouch_offsets)

lemmas field_puts = field_put_same field_put_before field_put_after

lemma template_fields:
  "field 0 1 (init_template symb side) = [0x4F]"
  "field 5 1 (init_template symb side) = [if side = 0 then 0x42 else 0x53]"
  "field 10 8 (init_template symb side) = make_symbol symb"
  by (simp_all add: init_template_def Let_def store_u32_be_eq ouch_offsets field_puts)

text \<open>
  An enter-order packet as its receiver reads it: message type, token, side, quantity, symbol text,
  price and time in force at their fixed offsets, integers big-endian.
\<close>

definition enter_order_wire :: "OrderIntent \<Rightarrow> u8 list \<Rightarrow> bool" where
  "enter_order_wire intent bytes \<longleftrightarrow>
     field 0 1 bytes = [0x4F] \<and> of_be (field 1 4 bytes) = unat (oi_client_order_id intent) \<and>
     field 5 1 bytes = [if oi_side intent AND 1 = 0 then 0x42 else 0x53] \<and>
     int (of_be (field 6 4 bytes)) = oi_qty intent \<and> field 10 8 bytes = make_symbol (oi_symbol_idx intent) \<and>
     int (of_be (field 18 4 bytes)) = oi_price intent \<and> of_be (field 22 4 bytes) = unat (oi_time_in_force intent)"

definition replace_order_wire :: "OrderReplaceIntent \<Rightarrow> u8 list \<Rightarrow> bool" where
  "replace_order_wire intent bytes \<longleftrightarrow>
     field 0 1 bytes = [0x55] \<and> of_be (field 1 4 bytes) = unat (ri_original_order_id intent) \<and>
     of_be (field 5 4 bytes) = unat (ri_replacement_order_id intent) \<and>
     int (of_be (field 9 4 bytes)) = ri_new_qty intent \<and> int (of_be (field 13 4 bytes)) = ri_new_price intent \<and>
     of_be (field 17 4 bytes) = unat (ri_time_in_force intent) \<and> field 21 1 bytes = [0x59]"

lemma of_be_u32: "of_be (to_be 4 (unat (v :: u32))) = unat v"
  using word_ranges(2) [of v] by (simp add: of_be_to_be)

lemma clamp_u32_id: "0 \<le> v \<Longrightarrow> v \<le> 0xFFFFFFFF \<Longrightarrow> uint (clamp_u32 v) = v"
  using clamp_u32_eq [of v] by (simp add: i64_bounds)

lemma unat_ucast_u8: "unat (ucast (v :: u8) :: u32) = unat v" "of_be (to_be 4 (unat v)) = unat v"
proof -
  have "unat v < 256" using unsigned_less [of v, where ?'a = nat] by simp
  then show "unat (ucast v :: u32) = unat v" "of_be (to_be 4 (unat v)) = unat v"
    by (simp_all add: unsigned_ucast_eq take_bit_nat_eq_self_iff of_be_to_be)
qed

definition templates_ready :: "OuchPacketTemplates \<Rightarrow> bool" where
  "templates_ready t \<longleftrightarrow> ot_initialised t \<and> (\<forall>symb<kSymbols. \<forall>side<2. ot_templates t symb side = init_template symb side)"

lemma ouch_init_ready: "templates_ready (ouch_init t)"
  by (simp add: templates_ready_def ouch_init_def)

lemma side_bit: "unat (side AND 1) < 2" "unat (side AND 1) = 0 \<longleftrightarrow> side AND 1 = 0" for side :: u8
proof -
  have "side AND 1 = 0 \<or> side AND 1 = 1" by (metis and_one_eq of_bool_eq_0_iff of_bool_eq(2) mod2_eq_if)
  then show "unat (side AND 1) < 2" "unat (side AND 1) = 0 \<longleftrightarrow> side AND 1 = 0" by auto
qed

lemma build_enter_order_wire:
  assumes "templates_ready t" "oi_symbol_idx intent < kSymbols" "length (pk_bytes out) = 64"
    and "0 \<le> oi_qty intent" "oi_qty intent \<le> 0xFFFFFFFF" "0 \<le> oi_price intent" "oi_price intent \<le> 0xFFFFFFFF"
  shows "\<exists>bytes. build_enter_order t intent out = (True, \<lparr>pk_len = 48, pk_bytes = bytes\<rparr>) \<and>
    length bytes = 64 \<and> enter_order_wire intent bytes"
proof -
  let ?side = "unat (oi_side intent AND 1)"
  let ?t = "init_template (oi_symbol_idx intent) ?side"
  have t: "ot_initialised t" "ot_templates t (oi_symbol_idx intent) ?side = ?t"
    using assms(1,2) side_bit(1) [of "oi_side intent"] by (auto simp: templates_ready_def)
  have l: "length (put_bytes 0 ?t (pk_bytes out)) = 64" using assms(3) by simp
  have f: "field off n (put_bytes 0 ?t (pk_bytes out)) = field off n ?t" if "off + n \<le> 48" for off n
    using that by (simp add: put_bytes_def field_def)
  show ?thesis
    using assms l t side_bit(2) [of "oi_side intent"]
    by (simp add: build_enter_order_def Let_def store_u32_be_eq ouch_offsets enter_order_wire_def field_puts f
        template_fields of_be_u32 clamp_u32_id unat_ucast_u8 del: One_nat_def)
qed

lemma build_replace_order_wire:
  assumes "ot_initialised t" "ri_symbol_idx intent < kSymbols"
    and "0 \<le> ri_new_qty intent" "ri_new_qty intent \<le> 0xFFFFFFFF" "0 \<le> ri_new_price intent" "ri_new_price intent \<le> 0xFFFFFFFF"
  shows "\<exists>bytes. build_replace_order t intent out = (True, \<lparr>pk_len = 32, pk_bytes = bytes\<rparr>) \<and>
    length bytes = 64 \<and> replace_order_wire intent bytes"
  using assms
  by (simp add: build_replace_order_def Let_def store_u32_be_eq ouch_offsets replace_order_wire_def field_puts
      of_be_u32 clamp_u32_id unat_ucast_u8 del: One_nat_def)

section \<open>The language of the parser\<close>

text \<open>The messages of the protocol: the body of an event and its frame.\<close>

definition event_body :: "Event \<Rightarrow> u8 list" where
  "event_body e = (let id = to_be 8 (unat (ev_order_id e)); q = to_be 4 (nat (ev_quantity e)) in
     case ev_type e of
       kAccepted \<Rightarrow> 0x41 # id
     | kRejected \<Rightarrow> 0x4A # id @ [ev_reason e]
     | kExecuted \<Rightarrow> 0x45 # id @ q
     | kCanceled \<Rightarrow> 0x43 # id
     | kReplaced \<Rightarrow> 0x55 # id @ q @ to_be 4 (nat (ev_price e)))"

definition event_frame :: "Event \<Rightarrow> u8 list" where
  "event_frame e = to_be 2 (length (event_body e)) @ event_body e"

definition event_wf :: "Event \<Rightarrow> bool" where
  "event_wf e \<longleftrightarrow> ev_order_id e \<noteq> 0 \<and> (ev_type e \<noteq> kRejected \<longrightarrow> ev_reason e = 0) \<and>
     (if ev_type e = kExecuted \<or> ev_type e = kReplaced then 0 < ev_quantity e \<and> ev_quantity e < 2 ^ 32 else ev_quantity e = 0) \<and>
     (if ev_type e = kReplaced then 0 < ev_price e \<and> ev_price e < 2 ^ 32 else ev_price e = 0)"

lemma ouch_be64_eq: "ouch_be64 off d = of_nat (of_be (field off 8 d))"
  by (simp add: ouch_be64_def shift_in_be)

lemma field_4: "off + 4 \<le> length d \<Longrightarrow> field off 4 d = [d ! off, d ! (off + 1), d ! (off + 2), d ! (off + 3)]"
  by (rule nth_equalityI) (auto simp: field_def less_Suc_eq numeral_eq_Suc)

lemma ouch_be32_eq: "off + 4 \<le> length d \<Longrightarrow> ouch_be32 off d = of_nat (of_be (field off 4 d))"
proof -
  assume "off + 4 \<le> length d"
  then have "of_nat (of_be (field off 4 d)) = (foldl shift_in 0 [d ! off, d ! (off + 1), d ! (off + 2), d ! (off + 3)] :: u32)"
    by (simp only: field_4 shift_in_be)
  also have "\<dots> = ouch_be32 off d" by (simp add: ouch_be32_def shift_in_def push_bit_or or.assoc)
  finally show ?thesis ..
qed

lemma of_nat_of_be:
  "length bs = 4 \<Longrightarrow> unat (of_nat (of_be bs) :: u32) = of_be bs"
  "length bs = 8 \<Longrightarrow> unat (of_nat (of_be bs) :: u64) = of_be bs"
  using of_be_less [of bs] by (simp_all add: unat_of_nat)


text \<open>A body of at least nine bytes is its type, its order id and the rest.\<close>

lemma body_split:
  assumes "9 \<le> length body"
  shows "body = body ! 0 # to_be 8 (unat (ouch_be64 1 body)) @ drop 9 body"
proof -
  have l: "length (field 1 8 body) = 8" using assms by (simp add: length_field)
  have "to_be 8 (unat (ouch_be64 1 body)) = field 1 8 body"
    using to_be_of_be [of "field 1 8 body"] of_nat_of_be(2) [OF l] l by (simp add: ouch_be64_eq)
  moreover have "body = body ! 0 # drop 1 body" using assms by (cases body) auto
  moreover have "drop 1 body = field 1 8 body @ drop 9 body" using append_take_drop_id [of 8 "drop 1 body"] by (simp add: field_def)
  ultimately show ?thesis by simp
qed

lemma quantity_field:
  assumes "off + 4 \<le> length body"
  shows "drop off body = to_be 4 (unat (ouch_be32 off body)) @ drop (off + 4) body"
proof -
  have l: "length (field off 4 body) = 4" using assms by (simp add: length_field)
  have "to_be 4 (unat (ouch_be32 off body)) = field off 4 body"
    using to_be_of_be [of "field off 4 body"] of_nat_of_be(1) [OF l] ouch_be32_eq [OF assms] l by simp
  then show ?thesis using append_take_drop_id [of 4 "drop off body"] by (simp add: field_def add.commute)
qed


lemma parse_body_sound:
  assumes "9 \<le> length body" "parse_body body = Some e"
  shows "event_wf e \<and> body = event_body e"
proof -
  note b = body_split [OF assms(1)]
  have id: "ouch_be64 1 body \<noteq> 0" using assms(2) by (auto simp: parse_body_def Let_def)
  have u: "uint (ouch_be32 off body) < 2 ^ 32" for off using uint_bounded [of "ouch_be32 off body"] by simp
  consider "body ! 0 = 0x41" | "body ! 0 = 0x4A" | "body ! 0 = 0x45" | "body ! 0 = 0x43" | "body ! 0 = 0x55"
    using assms(2) id by (auto simp: parse_body_def Let_def split: if_splits)
  then show ?thesis
  proof cases
    case 1
    then have "length body = 9" "e = \<lparr>ev_type = kAccepted, ev_order_id = ouch_be64 1 body, ev_quantity = 0, ev_price = 0, ev_reason = 0\<rparr>"
      using assms(2) id by (auto simp: parse_body_def Let_def ouch_lengths split: if_splits)
    then show ?thesis using b 1 id by (simp add: event_wf_def event_body_def)
  next
    case 2
    then have l: "length body = 10" "e = \<lparr>ev_type = kRejected, ev_order_id = ouch_be64 1 body, ev_quantity = 0, ev_price = 0, ev_reason = body ! 9\<rparr>"
      using assms(2) id by (auto simp: parse_body_def Let_def ouch_lengths split: if_splits)
    then have "drop 9 body = [body ! 9]" using Cons_nth_drop_Suc [of 9 body] by simp
    then show ?thesis using b 2 l id by (simp add: event_wf_def event_body_def)
  next
    case 3
    then have l: "length body = 13" "0 < uint (ouch_be32 9 body)"
        "e = \<lparr>ev_type = kExecuted, ev_order_id = ouch_be64 1 body, ev_quantity = uint (ouch_be32 9 body), ev_price = 0, ev_reason = 0\<rparr>"
      using assms(2) id by (simp_all add: parse_body_def Let_def ouch_lengths order_less_le split: if_splits)
    then show ?thesis using b 3 id u [of 9] quantity_field [of 9 body] by (simp add: event_wf_def event_body_def)
  next
    case 4
    then have "length body = 9" "e = \<lparr>ev_type = kCanceled, ev_order_id = ouch_be64 1 body, ev_quantity = 0, ev_price = 0, ev_reason = 0\<rparr>"
      using assms(2) id by (auto simp: parse_body_def Let_def ouch_lengths split: if_splits)
    then show ?thesis using b 4 id by (simp add: event_wf_def event_body_def)
  next
    case 5
    then have l: "length body = 17" "0 < uint (ouch_be32 9 body)" "0 < uint (ouch_be32 13 body)"
        "e = \<lparr>ev_type = kReplaced, ev_order_id = ouch_be64 1 body, ev_quantity = uint (ouch_be32 9 body),
           ev_price = uint (ouch_be32 13 body), ev_reason = 0\<rparr>"
      using assms(2) id by (simp_all add: parse_body_def Let_def ouch_lengths order_less_le split: if_splits)
    then show ?thesis
      using b 5 id u [of 9] u [of 13] quantity_field [of 9 body] quantity_field [of 13 body]
      by (simp add: event_wf_def event_body_def)
  qed
qed


lemma parse_body_complete:
  assumes "event_wf e"
  shows "parse_body (event_body e) = Some e"
proof -
  let ?id = "to_be 8 (unat (ev_order_id e))"
  have id: "ouch_be64 1 (t # ?id @ rest) = ev_order_id e" for t rest
    using word_ranges(3) [of "ev_order_id e"] by (simp add: ouch_be64_eq field_def of_be_to_be)
  have w: "uint (of_nat (of_be (to_be 4 (nat q))) :: u32) = q" if "0 < q" "q < 2 ^ 32" for q
  proof -
    have "of_be (to_be 4 (nat q)) = nat q" using that by (simp add: of_be_to_be nat_less_iff)
    moreover have "unat (of_nat (nat q) :: u32) = nat q" using that by (simp only: unat_of_nat) (simp add: nat_less_iff)
    ultimately have "int (unat (of_nat (of_be (to_be 4 (nat q))) :: u32)) = q" using that by simp
    then show ?thesis by simp
  qed
  have q: "uint (ouch_be32 9 (t # ?id @ to_be 4 (nat q) @ rest)) = q" if "0 < q" "q < 2 ^ 32" for t q rest
    using w [OF that] by (simp add: ouch_be32_eq field_def)
  have p: "uint (ouch_be32 13 (t # ?id @ to_be 4 n @ to_be 4 (nat q))) = q" if "0 < q" "q < 2 ^ 32" for t q n
    using w [OF that] by (simp add: ouch_be32_eq field_def)
  show ?thesis
  proof (cases "ev_type e")
    case kExecuted
    then show ?thesis using assms id [of "0x45" "to_be 4 (nat (ev_quantity e))"] q [of "ev_quantity e" "0x45" "[]"]
      by (simp add: event_wf_def event_body_def parse_body_def Let_def ouch_lengths)
  next
    case kReplaced
    then show ?thesis
      using assms id [of "0x55" "to_be 4 (nat (ev_quantity e)) @ to_be 4 (nat (ev_price e))"]
        q [of "ev_quantity e" "0x55" "to_be 4 (nat (ev_price e))"] p [of "ev_price e" "0x55" "nat (ev_quantity e)"]
      by (simp add: event_wf_def event_body_def parse_body_def Let_def ouch_lengths)
  next
    case kRejected
    then show ?thesis using assms id [of "0x4A" "[ev_reason e]"]
      by (simp add: event_wf_def event_body_def parse_body_def Let_def ouch_lengths nth_append)
  next
    case kAccepted
    then show ?thesis using assms id [of "0x41" "[]"]
      by (simp add: event_wf_def event_body_def parse_body_def Let_def ouch_lengths)
  next
    case kCanceled
    then show ?thesis using assms id [of "0x43" "[]"]
      by (simp add: event_wf_def event_body_def parse_body_def Let_def ouch_lengths)
  qed
qed

lemma event_body_length: "9 \<le> length (event_body e)" "length (event_body e) \<le> 17"
  by (simp_all add: event_body_def Let_def split: EventType.split)

lemma parse_Some:
  assumes "parse (Some d) = Some (e, n)"
  defines "m \<equiv> unat (d ! 0) * 256 + unat (d ! 1)"
  shows "2 \<le> length d" "9 \<le> m" "m + 2 \<le> length d" "n = m + 2" "parse_body (field 2 m d) = Some e" "event_wf e" "field 2 m d = event_body e"
proof -
  show m: "2 \<le> length d" "9 \<le> m" "m + 2 \<le> length d" "n = m + 2" "parse_body (field 2 m d) = Some e"
    using assms(1) by (auto simp: parse_def Let_def m_def split: if_splits)
  then have "9 \<le> length (field 2 m d)" by (simp add: length_field)
  then show "event_wf e" "field 2 m d = event_body e" using parse_body_sound m(5) by blast+
qed

section \<open>Property\<close>

text \<open>
  C15: The venue-message parser recognises exactly the five framed message kinds: it accepts a
  buffer, with an event and a length, if and only if the event is well formed (an order id,
  positive quantities and prices where the kind has them) and the buffer starts with its frame,
  whose length is what is consumed.  Whatever follows the frame is left alone, and every other
  buffer, truncated or oversized, is refused.
\<close>

theorem ouch_parse_exact:
  "parse (Some d) = Some (e, n) \<longleftrightarrow>
     event_wf e \<and> n = length (event_frame e) \<and> take n d = event_frame e"
proof
  assume p: "parse (Some d) = Some (e, n)"
  define m where "m = unat (d ! 0) * 256 + unat (d ! 1)"
  note P = parse_Some [OF p, folded m_def]
  have l: "length (field 2 m d) = m" using P(3) by (simp add: length_field)
  have d2: "take 2 d = [d ! 0, d ! 1]" using P(1) by (cases d rule: list.exhaust; cases "tl d") auto
  have "of_be [d ! 0, d ! 1] = m" by (simp add: m_def of_be_def)
  then have "to_be 2 m = take 2 d" using to_be_of_be [of "[d ! 0, d ! 1]"] d2 by (simp add: numeral_2_eq_2)
  then show "event_wf e \<and> n = length (event_frame e) \<and> take n d = event_frame e"
    using P l take_field [of 2 d m] by (simp add: event_frame_def add.commute)
next
  assume r: "event_wf e \<and> n = length (event_frame e) \<and> take n d = event_frame e"
  let ?m = "length (event_body e)"
  have d: "d = to_be 2 ?m @ event_body e @ drop n d"
    by (metis r append_take_drop_id append.assoc event_frame_def)
  have "to_be 2 ?m = [of_nat (?m div 256 mod 256), of_nat (?m mod 256)]"
    by (simp add: to_be_def numeral_2_eq_2)
  then have hd: "d ! 0 = of_nat (?m div 256 mod 256)" "d ! 1 = of_nat (?m mod 256)"
    by (subst d, simp)+
  have "unat (d ! 0) * 256 + unat (d ! 1) = ?m"
    using event_body_length [of e] by (simp only: hd unat_byte) (simp add: mod_div_mult_eq)
  moreover have "field 2 ?m d = event_body e" by (subst d) (simp add: field_def)
  moreover have "length d \<ge> ?m + 2" by (subst d) simp
  ultimately show "parse (Some d) = Some (e, n)"
    using r event_body_length [of e] parse_body_complete [of e]
    by (simp add: parse_def Let_def ouch_lengths event_frame_def)
qed

end
