(* ===== verification/Gateway.thy ===== *)
theory Gateway
  imports Ouch Circuit_Breaker Rate_Limiter Reconciliation Recovery Audit_Log
begin

text \<open>
  \<open>ExecutionGateway\<close> of \<open>luv_execution.hpp\<close>: admission of orders through the breaker, the rate
  limiter, the risk check, the reconciliation ledger and the two logs, and the venue reports that
  settle them.  This theory holds the operations; \<open>Gateway_Inv\<close> has the invariant and
  \<open>Gateway_Properties\<close> the properties.
\<close>

section \<open>State\<close>

text \<open>
  \<open>gw_arena\<close> says whether \<open>_arena\<close> was set; the execution states of the arena are \<open>gw_states\<close>.  The
  two logs are null pointers until they are attached.  The callback and its context are code of the
  caller, so only whether one is set is kept and its answer comes with the environment.
\<close>

record ExecutionGateway =
  gw_arena :: bool
  gw_states :: "nat \<Rightarrow> SymbolExecState"
  gw_risk :: PreTradeRisk
  gw_ouch :: OuchPacketTemplates
  gw_breaker :: CircuitBreaker
  gw_reconciliation :: ReconciliationLedger
  gw_rate_limiter :: OrderRateLimiter
  gw_audit_log :: "DurableAuditLog option"
  gw_recovery_ledger :: "RecoveryLedger option"
  gw_fill_callback :: bool
  gw_last_fill_timestamp_ns :: u64
  gw_fill_report_count :: u64
  gw_dropped_fill_notifications :: u64

record FillEvent =
  fe_order_id :: u64
  fe_filled_qty :: int
  fe_fill_price :: int
  fe_timestamp_ns :: u64

text \<open>
  What a call finds outside the program: the hash function, the answers of the operating system to
  the writes and syncs of the two logs, the clocks, and the answer of the fill callback.
\<close>

record GatewayEnv =
  ge_sha :: "u8 list \<Rightarrow> u8 list option"
  ge_audit_writes :: "write_answer list"
  ge_audit_synced :: bool
  ge_wal_writes :: "write_answer list"
  ge_wal_synced :: bool
  ge_now_ns :: u64
  ge_utc_now_ns :: u64
  ge_fill_callback :: "FillEvent \<Rightarrow> bool"

text \<open>The default capacity of \<open>ReconciliationLedger\<close>.\<close>

abbreviation (input) kLedgerCapacity :: nat where "kLedgerCapacity \<equiv> 65536"

definition new_gateway :: "u32 \<Rightarrow> (nat \<Rightarrow> SymbolExecState) \<Rightarrow> ExecutionGateway" where
  "new_gateway rate_limit states =
     \<lparr>gw_arena = False, gw_states = states, gw_risk = \<lparr>pr_arena = False, pr_limits = (\<lambda>_. default_limits)\<rparr>,
      gw_ouch = new_templates, gw_breaker = new_breaker 1 0, gw_reconciliation = new_ledger,
      gw_rate_limiter = new_limiter rate_limit, gw_audit_log = None, gw_recovery_ledger = None,
      gw_fill_callback = False, gw_last_fill_timestamp_ns = 0, gw_fill_report_count = 0,
      gw_dropped_fill_notifications = 0\<rparr>"

definition gateway_init :: "bool \<Rightarrow> ExecutionGateway \<Rightarrow> bool \<times> ExecutionGateway" where
  "gateway_init arena_initialised g =
     (if \<not> arena_initialised then (False, g)
      else
        let g = g\<lparr>gw_arena := True\<rparr> in
        case risk_init arena_initialised (gw_risk g) of (ok, r) \<Rightarrow>
          if \<not> ok then (False, g)
          else (True, g\<lparr>gw_risk := r, gw_ouch := ouch_init (gw_ouch g), gw_breaker := cb_reset (gw_breaker g),
                       gw_fill_report_count := 0, gw_dropped_fill_notifications := 0\<rparr>))"

definition set_audit_log :: "DurableAuditLog option \<Rightarrow> ExecutionGateway \<Rightarrow> ExecutionGateway" where
  "set_audit_log audit_log g = g\<lparr>gw_audit_log := audit_log\<rparr>"

definition set_recovery_ledger :: "RecoveryLedger option \<Rightarrow> ExecutionGateway \<Rightarrow> ExecutionGateway" where
  "set_recovery_ledger ledger g = g\<lparr>gw_recovery_ledger := ledger\<rparr>"

definition set_fill_event_callback :: "bool \<Rightarrow> ExecutionGateway \<Rightarrow> ExecutionGateway" where
  "set_fill_event_callback callback g = g\<lparr>gw_fill_callback := callback\<rparr>"

section \<open>Updates the operations share\<close>

definition upd_state :: "nat \<Rightarrow> (SymbolExecState \<Rightarrow> SymbolExecState) \<Rightarrow> ExecutionGateway \<Rightarrow> ExecutionGateway" where
  "upd_state symb f g = g\<lparr>gw_states := (gw_states g)(symb := f (gw_states g symb))\<rparr>"

definition upd_risk :: "(RiskState \<Rightarrow> RiskState) \<Rightarrow> SymbolExecState \<Rightarrow> SymbolExecState" where
  "upd_risk f s = s\<lparr>se_risk := f (se_risk s)\<rparr>"

definition upd_order :: "nat \<Rightarrow> ActiveOrder \<Rightarrow> SymbolExecState \<Rightarrow> SymbolExecState" where
  "upd_order i o' s = s\<lparr>se_orders := (se_orders s)[i := o']\<rparr>"

definition set_halted :: "RiskState \<Rightarrow> RiskState" where
  "set_halted r = r\<lparr>rs_halted := 1\<rparr>"

definition inc_reject :: "RiskState \<Rightarrow> RiskState" where
  "inc_reject r = r\<lparr>rs_reject_count := rs_reject_count r + 1\<rparr>"

definition dec_count :: "RiskState \<Rightarrow> RiskState" where
  "dec_count r = (if rs_order_count r > 0 then r\<lparr>rs_order_count := rs_order_count r - 1\<rparr> else r)"

definition count_reject :: "nat \<Rightarrow> ExecutionGateway \<Rightarrow> ExecutionGateway" where
  "count_reject symb = upd_state symb (upd_risk inc_reject)"

definition halt_state :: "nat \<Rightarrow> ExecutionGateway \<Rightarrow> ExecutionGateway" where
  "halt_state symb = upd_state symb (upd_risk set_halted)"

definition release_token :: "ExecutionGateway \<Rightarrow> ExecutionGateway" where
  "release_token g = g\<lparr>gw_rate_limiter := rl_release (gw_rate_limiter g)\<rparr>"

definition breaker_failure :: "u64 \<Rightarrow> ExecutionGateway \<Rightarrow> ExecutionGateway" where
  "breaker_failure t g = g\<lparr>gw_breaker := record_failure t (gw_breaker g)\<rparr>"

text \<open>\<open>_breaker.trip()\<close>, whose timestamp defaults to zero.\<close>

definition breaker_trip :: "ExecutionGateway \<Rightarrow> ExecutionGateway" where
  "breaker_trip g = g\<lparr>gw_breaker := trip 0 (gw_breaker g)\<rparr>"

text \<open>The refusal at the end of a report that cannot be reconciled.\<close>

definition halt_and_trip :: "nat \<Rightarrow> ExecutionGateway \<Rightarrow> bool \<times> ExecutionGateway" where
  "halt_and_trip symb g = (False, breaker_trip (halt_state symb g))"

definition refuse :: "u8 \<Rightarrow> RiskDecision \<Rightarrow> RiskDecision" where
  "refuse reason d = d\<lparr>rd_pass := False, rd_reject_mask := rd_reject_mask d OR reason\<rparr>"

definition no_packet :: "OutboundPacket \<Rightarrow> OutboundPacket" where
  "no_packet packet = packet\<lparr>pk_len := 0\<rparr>"

text \<open>The first index of a slot with a property, as the loops over \<open>orders\<close> find it.\<close>

fun first_slot :: "('a \<Rightarrow> bool) \<Rightarrow> 'a list \<Rightarrow> nat option" where
  "first_slot P [] = None"
| "first_slot P (x # xs) = (if P x then Some 0 else map_option Suc (first_slot P xs))"

definition audit_append ::
    "GatewayEnv \<Rightarrow> u64 \<Rightarrow> u64 \<Rightarrow> int \<Rightarrow> int \<Rightarrow> u8 \<Rightarrow> u8 \<Rightarrow> ExecutionGateway \<Rightarrow> (bool \<times> ExecutionGateway) option" where
  "audit_append env timestamp order_id price qty side type g =
     (case gw_audit_log g of
        None \<Rightarrow> Some (True, g)
      | Some l \<Rightarrow> map_option (\<lambda>(ok, l'). (ok, g\<lparr>gw_audit_log := Some l'\<rparr>))
          (al_append (ge_sha env) (ge_audit_writes env) (ge_audit_synced env) l timestamp order_id price qty 0 side type))"

definition wal_append :: "GatewayEnv \<Rightarrow> RecoveryEvent \<Rightarrow> ExecutionGateway \<Rightarrow> (bool \<times> ExecutionGateway) option" where
  "wal_append env event g =
     (case gw_recovery_ledger g of
        None \<Rightarrow> Some (True, g)
      | Some l \<Rightarrow> map_option (\<lambda>(ok, l'). (ok, g\<lparr>gw_recovery_ledger := Some l'\<rparr>))
          (append_and_flush (ge_wal_writes env) (ge_wal_synced env) l event))"

definition ledger_cancel :: "u64 \<Rightarrow> ExecutionGateway \<Rightarrow> (bool \<times> ExecutionGateway) option" where
  "ledger_cancel order_id g =
     map_option (\<lambda>(ok, l). (ok, g\<lparr>gw_reconciliation := l\<rparr>)) (rc_cancel kLedgerCapacity (gw_reconciliation g) order_id)"

section \<open>Reservations\<close>

definition release_reservation :: "u8 \<Rightarrow> int \<Rightarrow> int \<Rightarrow> RiskState \<Rightarrow> RiskState" where
  "release_reservation side qty price risk =
     (let delta = signed_qty_delta side qty;
          risk = risk\<lparr>rs_net_position := (case checked_sub (rs_net_position risk) delta of
                    Some next_pos \<Rightarrow> next_pos | None \<Rightarrow> s64 (rs_net_position risk - delta))\<rparr>
      in risk\<lparr>rs_gross_exposure :=
           (case Option.bind (checked_mul price qty) (checked_sub (rs_gross_exposure risk)) of
              Some next_gross \<Rightarrow> next_gross
            | None \<Rightarrow> s64 (rs_gross_exposure risk - s64 (price * qty)))\<rparr>)"

definition order_of :: "OrderIntent \<Rightarrow> ActiveOrder" where
  "order_of intent =
     \<lparr>ao_order_id = ucast (oi_client_order_id intent), ao_price = oi_price intent, ao_qty = oi_qty intent,
      ao_filled_qty = 0, ao_symbol_idx = oi_symbol_idx intent, ao_side = oi_side intent AND 1, ao_state = 1,
      ao_time_in_force = oi_time_in_force intent\<rparr>"

definition reserve_risk :: "OrderIntent \<Rightarrow> RiskState \<Rightarrow> RiskState" where
  "reserve_risk intent r =
     r\<lparr>rs_net_position := s64 (rs_net_position r + signed_qty_delta (oi_side intent) (oi_qty intent)),
       rs_gross_exposure := s64 (rs_gross_exposure r + s64 (oi_price intent * oi_qty intent)),
       rs_order_count := rs_order_count r + 1\<rparr>"

definition reserve_order_slot :: "OrderIntent \<Rightarrow> ExecutionGateway \<Rightarrow> bool \<times> ExecutionGateway" where
  "reserve_order_slot intent g =
     (let symb = oi_symbol_idx intent; state = gw_states g symb in
      if unat (rs_order_count (se_risk state)) \<ge> kMaxActiveOrders then
        (False, upd_state symb (upd_risk (inc_reject \<circ> set_halted)) g)
      else case first_slot (\<lambda>x. ao_state x = 0 \<or> ao_state x = 3) (se_orders state) of
        None \<Rightarrow> (False, g)
      | Some slot \<Rightarrow> (True, upd_state symb (upd_risk (reserve_risk intent) \<circ> upd_order slot (order_of intent)) g))"

definition release_order_slot :: "OrderIntent \<Rightarrow> ExecutionGateway \<Rightarrow> ExecutionGateway" where
  "release_order_slot intent g =
     (let symb = oi_symbol_idx intent; state = gw_states g symb in
      case first_slot (\<lambda>x. ao_order_id x = ucast (oi_client_order_id intent)) (se_orders state) of
        None \<Rightarrow> g
      | Some i \<Rightarrow> upd_state symb (upd_risk (release_reservation (oi_side intent) (oi_qty intent) (oi_price intent) \<circ> dec_count)
                    \<circ> upd_order i empty_order) g)"

section \<open>Admission\<close>

text \<open>The undoing of a reservation when one of the logs refuses the order.\<close>

definition abort_order :: "OrderIntent \<Rightarrow> ExecutionGateway \<Rightarrow> ExecutionGateway option" where
  "abort_order intent g =
     map_option (\<lambda>(_, g). breaker_failure (oi_now_ns intent)
         (count_reject (oi_symbol_idx intent) (release_token (release_order_slot intent g))))
       (ledger_cancel (ucast (oi_client_order_id intent)) g)"

text \<open>The part of \<open>try_build\<close> that commits an order whose packet was built.\<close>

definition commit_order ::
    "GatewayEnv \<Rightarrow> OrderIntent \<Rightarrow> RiskDecision \<Rightarrow> OutboundPacket \<Rightarrow> ExecutionGateway \<Rightarrow>
     (RiskDecision \<times> OutboundPacket \<times> ExecutionGateway) option" where
  "commit_order env intent decision packet g =
     (let symb = oi_symbol_idx intent; id = ucast (oi_client_order_id intent);
          (registered, l) = register_order kLedgerCapacity (gw_reconciliation g) id (oi_qty intent);
          g = g\<lparr>gw_reconciliation := l\<rparr> in
      if \<not> registered then
        Some (refuse kRejectPosition decision, no_packet packet,
              breaker_failure (oi_now_ns intent) (count_reject symb (release_token g)))
      else
        let (reserved, g) = reserve_order_slot intent g in
        if \<not> reserved then
          map_option (\<lambda>(_, g). (refuse kRejectPosition decision, no_packet packet,
              breaker_failure (oi_now_ns intent) (release_token g))) (ledger_cancel id g)
        else
          case audit_append env (oi_now_ns intent) id (oi_price intent) (oi_qty intent) (oi_side intent) 0x41 g of
            None \<Rightarrow> None
          | Some (audited, g) \<Rightarrow>
              if \<not> audited then
                map_option (\<lambda>g. (refuse kRejectHalted decision, no_packet packet, g)) (abort_order intent g)
              else
                case wal_append env \<lparr>re_type = kAdd, re_order_id = id, re_quantity = oi_qty intent,
                    re_price = oi_price intent, re_side = oi_side intent, re_timestamp_ns = oi_now_ns intent\<rparr> g of
                  None \<Rightarrow> None
                | Some (logged, g) \<Rightarrow>
                    if \<not> logged then
                      map_option (\<lambda>g. (refuse kRejectHalted decision, no_packet packet, g)) (abort_order intent g)
                    else Some (decision, packet, g))"

text \<open>
  \<open>try_build\<close>; \<open>None\<close> while a write is outstanding.  The last \<open>else\<close> of the code, for a decision that
  does not pass, is behind the early returns and has no branch here.
\<close>

definition try_build ::
    "GatewayEnv \<Rightarrow> OrderIntent \<Rightarrow> OutboundPacket \<Rightarrow> ExecutionGateway \<Rightarrow>
     (RiskDecision \<times> OutboundPacket \<times> ExecutionGateway) option" where
  "try_build env intent packet g =
     (let symb = oi_symbol_idx intent; packet = no_packet packet in
      if \<not> gw_arena g \<or> symb \<ge> kSymbols then
        Some (\<lparr>rd_pass = False, rd_reject_mask = kRejectInvalidSymbol\<rparr>, packet, g)
      else
        let (allowed, b) = allow_at (oi_now_ns intent) (gw_breaker g); g = g\<lparr>gw_breaker := b\<rparr> in
        if \<not> allowed then
          Some (\<lparr>rd_pass = False, rd_reject_mask = kRejectHalted\<rparr>, packet, halt_state symb (count_reject symb g))
        else
          let (acquired, l) = try_acquire (gw_rate_limiter g); g = g\<lparr>gw_rate_limiter := l\<rparr> in
          if \<not> acquired then
            Some (\<lparr>rd_pass = False, rd_reject_mask = kRejectHalted\<rparr>, packet, halt_state symb (count_reject symb g))
          else
            let decision = evaluate (gw_risk g) (\<lambda>s. se_risk (gw_states g s)) intent;
                risk_pass = rd_pass decision;
                capacity_ok = unat (rs_order_count (se_risk (gw_states g symb))) < kMaxActiveOrders;
                decision = (if capacity_ok then decision else refuse kRejectOrderCapacity decision) in
            if \<not> risk_pass then Some (decision, packet, count_reject symb (release_token g))
            else if \<not> capacity_ok then
              Some (decision, packet, halt_state symb (count_reject symb (release_token g)))
            else
              let (built, packet) = build_enter_order (gw_ouch g) intent packet;
                  decision = (if built then decision else refuse kRejectFlatSignal decision) in
              if \<not> rd_pass decision then
                Some (decision, no_packet packet, count_reject symb (release_token g))
              else commit_order env intent decision (packet\<lparr>pk_len := pk_len packet AND 255\<rparr>) g)"

definition try_replace ::
    "GatewayEnv \<Rightarrow> OrderReplaceIntent \<Rightarrow> OutboundPacket \<Rightarrow> ExecutionGateway \<Rightarrow>
     (RiskDecision \<times> OutboundPacket \<times> ExecutionGateway) option" where
  "try_replace env intent packet g =
     (let symb = ri_symbol_idx intent; packet = no_packet packet; original = ucast (ri_original_order_id intent) in
      if \<not> gw_arena g \<or> symb \<ge> kSymbols then
        Some (\<lparr>rd_pass = False, rd_reject_mask = kRejectInvalidSymbol\<rparr>, packet, g)
      else
        let (allowed, b) = allow_at (ri_now_ns intent) (gw_breaker g); g = g\<lparr>gw_breaker := b\<rparr> in
        if \<not> allowed then
          Some (\<lparr>rd_pass = False, rd_reject_mask = kRejectHalted\<rparr>, packet, halt_state symb (count_reject symb g))
        else if \<not> rc_contains kLedgerCapacity (gw_reconciliation g) original then
          Some (\<lparr>rd_pass = False, rd_reject_mask = kRejectPosition\<rparr>, packet, count_reject symb g)
        else
          case first_slot (\<lambda>x. ao_order_id x = original \<and> ao_state x \<noteq> 0 \<and> ao_state x \<noteq> 3) (se_orders (gw_states g symb)) of
            None \<Rightarrow> Some (\<lparr>rd_pass = False, rd_reject_mask = kRejectPosition\<rparr>, packet, count_reject symb g)
          | Some i \<Rightarrow>
              let side = ao_side (se_orders (gw_states g symb) ! i);
                  decision = evaluate (gw_risk g) (\<lambda>s. se_risk (gw_states g s))
                    \<lparr>oi_symbol_idx = symb, oi_side = side, oi_qty = ri_new_qty intent, oi_price = ri_new_price intent,
                     oi_alpha_timestamp_ns = ri_alpha_timestamp_ns intent, oi_now_ns = ri_now_ns intent,
                     oi_client_order_id = ri_replacement_order_id intent, oi_time_in_force = ri_time_in_force intent\<rparr> in
              if \<not> rd_pass decision then Some (decision, packet, count_reject symb g)
              else
                let (built, packet) = build_replace_order (gw_ouch g) intent packet in
                if \<not> built then Some (refuse kRejectFlatSignal decision, no_packet packet, count_reject symb g)
                else
                  map_option (\<lambda>(audited, g).
                      if audited then (decision, packet, g)
                      else (refuse kRejectHalted decision, no_packet packet,
                            breaker_failure (ri_now_ns intent) (count_reject symb g)))
                    (audit_append env (ri_now_ns intent) (ucast (ri_replacement_order_id intent)) (ri_new_price intent)
                       (ri_new_qty intent) side 0x55 g))"

section \<open>Venue reports\<close>

definition next_utc_fill_timestamp_ns :: "GatewayEnv \<Rightarrow> ExecutionGateway \<Rightarrow> u64 \<times> ExecutionGateway" where
  "next_utc_fill_timestamp_ns env g =
     (let timestamp = ge_utc_now_ns env; l = gw_last_fill_timestamp_ns g;
          timestamp = (if timestamp \<le> l \<and> l \<noteq> - 1 then l + 1 else timestamp)
      in (timestamp, g\<lparr>gw_last_fill_timestamp_ns := timestamp\<rparr>))"

definition notify_fill :: "GatewayEnv \<Rightarrow> ActiveOrder \<Rightarrow> ExecutionGateway \<Rightarrow> ExecutionGateway" where
  "notify_fill env order g =
     (if gw_fill_callback g then
        let (timestamp, g) = next_utc_fill_timestamp_ns env g in
        if \<not> ge_fill_callback env \<lparr>fe_order_id = ao_order_id order, fe_filled_qty = ao_filled_qty order,
             fe_fill_price = ao_price order, fe_timestamp_ns = timestamp\<rparr>
        then g\<lparr>gw_dropped_fill_notifications := gw_dropped_fill_notifications g + 1\<rparr> else g
      else g)"

text \<open>The part of \<open>apply_execution_report\<close> behind the reconciliation of the fill.\<close>

definition settle_fill ::
    "GatewayEnv \<Rightarrow> nat \<Rightarrow> nat \<Rightarrow> ExecutionReport \<Rightarrow> ExecutionGateway \<Rightarrow> ExecutionGateway" where
  "settle_fill env symb i report g =
     (let order = se_orders (gw_states g symb) ! i;
          order = order\<lparr>ao_filled_qty := s64 (ao_filled_qty order + er_filled_quantity report),
                        ao_qty := ao_qty order - er_filled_quantity report\<rparr>;
          g = notify_fill env order (g\<lparr>gw_fill_report_count := gw_fill_report_count g + 1\<rparr>) in
      if er_terminal report \<or> ao_qty order = 0 then
        let g = (if er_terminal report \<and> ao_qty order > 0
                 then upd_state symb (upd_risk (release_reservation (ao_side order) (ao_qty order) (ao_price order))) g
                 else g)
        in release_token (upd_state symb (upd_risk dec_count \<circ> upd_order i (order\<lparr>ao_state := 3\<rparr>)) g)
      else upd_state symb (upd_order i (order\<lparr>ao_state := 2\<rparr>)) g)"

definition apply_execution_report ::
    "GatewayEnv \<Rightarrow> nat \<Rightarrow> ExecutionReport \<Rightarrow> ExecutionGateway \<Rightarrow> (bool \<times> ExecutionGateway) option" where
  "apply_execution_report env symb report g =
     (if \<not> gw_arena g \<or> symb \<ge> kSymbols then Some (False, breaker_trip g)
      else case first_slot (\<lambda>x. ao_order_id x = er_order_id report \<and> ao_state x \<noteq> 0) (se_orders (gw_states g symb)) of
        None \<Rightarrow> Some (halt_and_trip symb g)
      | Some i \<Rightarrow>
          let order = se_orders (gw_states g symb) ! i in
          if er_filled_quantity report \<le> 0 \<or> er_filled_quantity report > ao_qty order \<or>
             \<not> rc_contains kLedgerCapacity (gw_reconciliation g) (er_order_id report)
          then Some (halt_and_trip symb g)
          else
            let remaining_quantity = ao_qty order - er_filled_quantity report;
                recovery_event = (if er_terminal report \<and> remaining_quantity > 0 then kTerminalFill else kFill) in
            case wal_append env \<lparr>re_type = recovery_event, re_order_id = ao_order_id order,
                re_quantity = er_filled_quantity report, re_price = ao_price order, re_side = ao_side order,
                re_timestamp_ns = ge_now_ns env\<rparr> g of
              None \<Rightarrow> None
            | Some (logged, g) \<Rightarrow>
                if \<not> logged then Some (halt_and_trip symb g)
                else
                  let (applied, l) = rc_apply kLedgerCapacity (gw_reconciliation g) report;
                      g = g\<lparr>gw_reconciliation := l\<rparr> in
                  if \<not> applied then Some (halt_and_trip symb g)
                  else Some (True, settle_fill env symb i report g))"

definition apply_cancel_report ::
    "GatewayEnv \<Rightarrow> nat \<Rightarrow> u64 \<Rightarrow> ExecutionGateway \<Rightarrow> (bool \<times> ExecutionGateway) option" where
  "apply_cancel_report env symb order_id g =
     (if \<not> gw_arena g \<or> symb \<ge> kSymbols then Some (False, breaker_trip g)
      else case first_slot (\<lambda>x. ao_order_id x = order_id \<and> ao_state x \<noteq> 0) (se_orders (gw_states g symb)) of
        None \<Rightarrow> Some (halt_and_trip symb g)
      | Some i \<Rightarrow>
          let order = se_orders (gw_states g symb) ! i in
          if ao_state order = 3 then Some (False, g)
          else if \<not> rc_contains kLedgerCapacity (gw_reconciliation g) order_id then Some (halt_and_trip symb g)
          else
            case wal_append env \<lparr>re_type = kCancel, re_order_id = ao_order_id order, re_quantity = ao_qty order,
                re_price = ao_price order, re_side = ao_side order, re_timestamp_ns = ge_now_ns env\<rparr> g of
              None \<Rightarrow> None
            | Some (logged, g) \<Rightarrow>
                if \<not> logged then Some (halt_and_trip symb g)
                else
                  case ledger_cancel order_id g of
                    None \<Rightarrow> None
                  | Some (canceled, g) \<Rightarrow>
                      if \<not> canceled then Some (halt_and_trip symb g)
                      else Some (True, release_token (upd_state symb
                        (upd_risk dec_count \<circ> upd_order i empty_order \<circ>
                         upd_risk (release_reservation (ao_side order) (ao_qty order) (ao_price order))) g)))"

definition replace_risk :: "ActiveOrder \<Rightarrow> int \<Rightarrow> int \<Rightarrow> RiskState \<Rightarrow> RiskState" where
  "replace_risk order new_qty new_price r =
     (let old_signed = signed_qty_delta (ao_side order) (ao_qty order);
          new_signed = signed_qty_delta (ao_side order) new_qty in
      r\<lparr>rs_net_position := s64 (rs_net_position r + s64 (new_signed - old_signed)),
        rs_gross_exposure := s64 (rs_gross_exposure r +
          s64 (s64 (new_price * new_qty) - s64 (ao_price order * ao_qty order)))\<rparr>)"

definition apply_replace_report ::
    "GatewayEnv \<Rightarrow> nat \<Rightarrow> u64 \<Rightarrow> int \<Rightarrow> int \<Rightarrow> ExecutionGateway \<Rightarrow> (bool \<times> ExecutionGateway) option" where
  "apply_replace_report env symb order_id new_qty new_price g =
     (if \<not> gw_arena g \<or> symb \<ge> kSymbols then Some (False, breaker_trip g)
      else case first_slot (\<lambda>x. ao_order_id x = order_id \<and> ao_state x \<noteq> 0 \<and> ao_state x \<noteq> 3) (se_orders (gw_states g symb)) of
        None \<Rightarrow> Some (halt_and_trip symb g)
      | Some i \<Rightarrow>
          let order = se_orders (gw_states g symb) ! i in
          if \<not> rc_contains kLedgerCapacity (gw_reconciliation g) order_id \<or> new_qty \<le> 0 \<or> new_price \<le> 0
          then Some (halt_and_trip symb g)
          else
            case wal_append env \<lparr>re_type = kReplace, re_order_id = ao_order_id order, re_quantity = new_qty,
                re_price = new_price, re_side = ao_side order, re_timestamp_ns = ge_now_ns env\<rparr> g of
              None \<Rightarrow> None
            | Some (logged, g) \<Rightarrow>
                if \<not> logged then Some (halt_and_trip symb g)
                else
                  let (replaced, l) = rc_replace kLedgerCapacity (gw_reconciliation g) order_id new_qty;
                      g = g\<lparr>gw_reconciliation := l\<rparr> in
                  if \<not> replaced then Some (halt_and_trip symb g)
                  else Some (True, upd_state symb (upd_order i (order\<lparr>ao_qty := new_qty, ao_price := new_price\<rparr>) \<circ>
                    upd_risk (replace_risk order new_qty new_price)) g))"

definition halt_symbol :: "nat \<Rightarrow> ExecutionGateway \<Rightarrow> ExecutionGateway" where
  "halt_symbol symb g = (if gw_arena g \<and> symb < kSymbols then halt_state symb g else g)"

definition resume_symbol :: "nat \<Rightarrow> ExecutionGateway \<Rightarrow> ExecutionGateway" where
  "resume_symbol symb g =
     (if gw_arena g \<and> symb < kSymbols then upd_state symb (upd_risk (\<lambda>r. r\<lparr>rs_halted := 0\<rparr>)) g else g)"

definition is_symbol_halted :: "nat \<Rightarrow> ExecutionGateway \<Rightarrow> bool" where
  "is_symbol_halted symb g = (if \<not> gw_arena g \<or> symb \<ge> kSymbols then True else rs_halted (se_risk (gw_states g symb)) \<noteq> 0)"

definition reject_risk :: "ActiveOrder \<Rightarrow> RiskState \<Rightarrow> RiskState" where
  "reject_risk order r =
     dec_count (r\<lparr>rs_net_position := s64 (rs_net_position r - signed_qty_delta (ao_side order) (ao_qty order)),
                  rs_gross_exposure := s64 (rs_gross_exposure r - s64 (ao_price order * ao_qty order))\<rparr>)"

definition count_rejection :: "GatewayEnv \<Rightarrow> nat \<Rightarrow> ExecutionGateway \<Rightarrow> ExecutionGateway" where
  "count_rejection env symb g =
     (let g = count_reject symb g; g = g\<lparr>gw_breaker := record_rejection (ge_now_ns env) (gw_breaker g)\<rparr> in
      if rs_reject_count (se_risk (gw_states g symb)) \<ge> lim_max_consecutive_rejections (risk_limits (gw_risk g) symb)
      then halt_state symb g else g)"

definition apply_reject_report ::
    "GatewayEnv \<Rightarrow> nat \<Rightarrow> u64 \<Rightarrow> ExecutionGateway \<Rightarrow> (bool \<times> ExecutionGateway) option" where
  "apply_reject_report env symb order_id g =
     (if \<not> gw_arena g \<or> symb \<ge> kSymbols then Some (False, breaker_failure (ge_now_ns env) g)
      else case first_slot (\<lambda>x. ao_order_id x = order_id \<and> ao_state x \<noteq> 0) (se_orders (gw_states g symb)) of
        None \<Rightarrow> Some (False, count_rejection env symb g)
      | Some i \<Rightarrow>
          let order = se_orders (gw_states g symb) ! i in
          if ao_state order = 3 then Some (False, g)
          else map_option (\<lambda>(_, g). (True, release_token
              (upd_state symb (upd_order i empty_order \<circ> upd_risk (reject_risk order)) g)))
            (ledger_cancel order_id (count_rejection env symb g)))"

section \<open>Queries\<close>

definition query_order :: "u64 \<Rightarrow> ExecutionGateway \<Rightarrow> ActiveOrder option" where
  "query_order order_id g =
     (if \<not> gw_arena g \<or> order_id = 0 then None
      else find (\<lambda>x. ao_order_id x = order_id \<and> ao_state x \<noteq> 0)
        (concat (map (\<lambda>symb. se_orders (gw_states g symb)) [0..<kSymbols])))"

definition query_position :: "nat \<Rightarrow> ExecutionGateway \<Rightarrow> RiskState option" where
  "query_position symb g = (if \<not> gw_arena g \<or> symb \<ge> kSymbols then None else Some (se_risk (gw_states g symb)))"

definition cancel_order :: "GatewayEnv \<Rightarrow> u64 \<Rightarrow> ExecutionGateway \<Rightarrow> (bool \<times> ExecutionGateway) option" where
  "cancel_order env order_id g =
     (if \<not> gw_arena g \<or> order_id = 0 then Some (False, g)
      else case find (\<lambda>symb. \<exists>x\<in>set (se_orders (gw_states g symb)). ao_order_id x = order_id \<and> ao_state x \<noteq> 0 \<and> ao_state x \<noteq> 3)
          [0..<kSymbols] of
        None \<Rightarrow> Some (False, g)
      | Some symb \<Rightarrow> apply_cancel_report env symb order_id g)"

end
