(* ===== verification/Gateway_Inv.thy ===== *)
theory Gateway_Inv
  imports Gateway
begin

text \<open>
  The contract of the gateway and its simulation relation.  The abstract state is the map of open
  orders with the settled position and notional of each symbol; \<open>spec_step\<close> says how an operation
  may change it.  \<open>gw_inv\<close> relates a gateway to it: order slots, risk totals, ledger and rate limiter.
\<close>

section \<open>Abstract state\<close>

definition live :: "ActiveOrder \<Rightarrow> bool" where
  "live x \<longleftrightarrow> ao_state x \<noteq> 0 \<and> ao_state x \<noteq> 3"

record GatewaySpec =
  sp_open :: "u64 \<rightharpoonup> ActiveOrder"
  sp_position :: "nat \<Rightarrow> int"
  sp_notional :: "nat \<Rightarrow> int"
  sp_limit :: u32

datatype gateway_op =
    Build OrderIntent OutboundPacket | Amend OrderReplaceIntent OutboundPacket
  | Fill nat ExecutionReport | CancelAck nat u64 | ReplaceAck nat u64 int int | RejectAck nat u64
  | CancelOpen u64 | Halt nat | Resume nat

primrec gateway_exec :: "GatewayEnv \<Rightarrow> gateway_op \<Rightarrow> ExecutionGateway \<Rightarrow> (bool \<times> ExecutionGateway) option" where
  "gateway_exec env (Build intent packet) g = map_option (\<lambda>(d, _, g). (rd_pass d, g)) (try_build env intent packet g)"
| "gateway_exec env (Amend intent packet) g = map_option (\<lambda>(d, _, g). (rd_pass d, g)) (try_replace env intent packet g)"
| "gateway_exec env (Fill symb report) g = apply_execution_report env symb report g"
| "gateway_exec env (CancelAck symb k) g = apply_cancel_report env symb k g"
| "gateway_exec env (ReplaceAck symb k q p) g = apply_replace_report env symb k q p g"
| "gateway_exec env (RejectAck symb k) g = apply_reject_report env symb k g"
| "gateway_exec env (CancelOpen k) g = cancel_order env k g"
| "gateway_exec env (Halt symb) g = Some (True, halt_symbol symb g)"
| "gateway_exec env (Resume symb) g = Some (True, resume_symbol symb g)"

text \<open>A fill moves quantity from the open order to the settled position of the symbol.\<close>

definition filled_order :: "ExecutionReport \<Rightarrow> ActiveOrder \<Rightarrow> ActiveOrder" where
  "filled_order r x = x\<lparr>ao_filled_qty := s64 (ao_filled_qty x + er_filled_quantity r), ao_qty := ao_qty x - er_filled_quantity r\<rparr>"

definition spec_fill :: "ExecutionReport \<Rightarrow> ActiveOrder \<Rightarrow> GatewaySpec \<Rightarrow> GatewaySpec" where
  "spec_fill r x S =
     (let s = ao_symbol_idx x; f = er_filled_quantity r in
      S\<lparr>sp_open := (sp_open S)(er_order_id r :=
            if er_terminal r \<or> f = ao_qty x then None else Some ((filled_order r x)\<lparr>ao_state := 2\<rparr>)),
        sp_position := (sp_position S)(s := sp_position S s + signed_qty (ao_side x) f),
        sp_notional := (sp_notional S)(s := sp_notional S s + ao_price x * f)\<rparr>)"

definition spec_close :: "u64 \<Rightarrow> GatewaySpec \<Rightarrow> GatewaySpec" where
  "spec_close k S = S\<lparr>sp_open := (sp_open S)(k := None)\<rparr>"

inductive spec_step :: "gateway_op \<Rightarrow> bool \<Rightarrow> GatewaySpec \<Rightarrow> GatewaySpec \<Rightarrow> bool" where
  spec_refused: "spec_step op False S S"
| spec_build: "sp_open S (ucast (oi_client_order_id intent)) = None \<Longrightarrow> oi_client_order_id intent \<noteq> 0 \<Longrightarrow> 0 < oi_qty intent \<Longrightarrow>
    card (dom (sp_open S)) < unat (sp_limit S) \<Longrightarrow>
    spec_step (Build intent packet) True S
      (S\<lparr>sp_open := (sp_open S)(ucast (oi_client_order_id intent) \<mapsto> order_of intent)\<rparr>)"
| spec_amend: "sp_open S (ucast (ri_original_order_id intent)) = Some x \<Longrightarrow> ao_symbol_idx x = ri_symbol_idx intent \<Longrightarrow>
    spec_step (Amend intent packet) True S S"
| spec_filled: "sp_open S (er_order_id r) = Some x \<Longrightarrow> ao_symbol_idx x = symb \<Longrightarrow>
    0 < er_filled_quantity r \<Longrightarrow> er_filled_quantity r \<le> ao_qty x \<Longrightarrow> spec_step (Fill symb r) True S (spec_fill r x S)"
| spec_canceled: "sp_open S k = Some x \<Longrightarrow> ao_symbol_idx x = symb \<Longrightarrow> spec_step (CancelAck symb k) True S (spec_close k S)"
| spec_replaced: "sp_open S k = Some x \<Longrightarrow> ao_symbol_idx x = symb \<Longrightarrow> 0 < q \<Longrightarrow> 0 < p \<Longrightarrow>
    spec_step (ReplaceAck symb k q p) True S (S\<lparr>sp_open := (sp_open S)(k \<mapsto> x\<lparr>ao_qty := q, ao_price := p\<rparr>)\<rparr>)"
| spec_rejected: "sp_open S k = Some x \<Longrightarrow> ao_symbol_idx x = symb \<Longrightarrow> spec_step (RejectAck symb k) True S (spec_close k S)"
| spec_cancel_open: "sp_open S k \<noteq> None \<Longrightarrow> spec_step (CancelOpen k) True S (spec_close k S)"
| spec_halt: "spec_step (Halt symb) True S S"
| spec_resume: "spec_step (Resume symb) True S S"

section \<open>Simulation relation\<close>

definition osum :: "(ActiveOrder \<Rightarrow> int) \<Rightarrow> ActiveOrder list \<Rightarrow> int" where
  "osum f xs = sum_list (map (\<lambda>x. if live x then f x else 0) xs)"

definition open_qty :: "ActiveOrder \<Rightarrow> int" where
  "open_qty x = signed_qty (ao_side x) (ao_qty x)"

definition open_notional :: "ActiveOrder \<Rightarrow> int" where
  "open_notional x = ao_price x * ao_qty x"

definition slot_ok :: "nat \<Rightarrow> ActiveOrder \<Rightarrow> bool" where
  "slot_ok symb x \<longleftrightarrow> (ao_state x = 0 \<longleftrightarrow> ao_order_id x = 0) \<and>
     (live x \<longrightarrow> ao_symbol_idx x = symb \<and> 0 < ao_qty x \<and> i64 (ao_qty x) \<and> i64 (ao_price x))"

definition slots_ok :: "nat \<Rightarrow> ActiveOrder list \<Rightarrow> bool" where
  "slots_ok symb xs \<longleftrightarrow> length xs = kMaxActiveOrders \<and> (\<forall>x\<in>set xs. slot_ok symb x) \<and>
     (\<forall>i<length xs. \<forall>j<i. live (xs ! i) \<longrightarrow> ao_order_id (xs ! j) \<noteq> ao_order_id (xs ! i))"

text \<open>
  The totals of a symbol: the position and the exposure are what has been filled and what is still
  open, in two's complement; the order count is the number of live slots.
\<close>

definition totals_ok :: "int \<Rightarrow> int \<Rightarrow> SymbolExecState \<Rightarrow> bool" where
  "totals_ok p n st \<longleftrightarrow> rs_net_position (se_risk st) = s64 (p + osum open_qty (se_orders st)) \<and>
     rs_gross_exposure (se_risk st) = s64 (n + osum open_notional (se_orders st)) \<and>
     int (unat (rs_order_count (se_risk st))) = osum (\<lambda>_. 1) (se_orders st)"

definition open_ok :: "(u64 \<rightharpoonup> ActiveOrder) \<Rightarrow> (nat \<Rightarrow> SymbolExecState) \<Rightarrow> bool" where
  "open_ok m states \<longleftrightarrow>
     (\<forall>k x. m k = Some x \<longleftrightarrow> live x \<and> ao_order_id x = k \<and> (\<exists>symb<kSymbols. x \<in> set (se_orders (states symb))))"

definition gw_inv :: "ExecutionGateway \<Rightarrow> GatewaySpec \<Rightarrow> bool" where
  "gw_inv g S \<longleftrightarrow> gw_arena g \<and>
     (\<forall>symb<kSymbols. slots_ok symb (se_orders (gw_states g symb)) \<and>
        totals_ok (sp_position S symb) (sp_notional S symb) (gw_states g symb)) \<and>
     open_ok (sp_open S) (gw_states g) \<and>
     rc_inv kLedgerCapacity (gw_reconciliation g) \<and>
     rc_lookup kLedgerCapacity (gw_reconciliation g) = (\<lambda>k. map_option ao_qty (sp_open S k)) \<and>
     unat (rl_pending (gw_rate_limiter g)) = card (dom (sp_open S)) \<and>
     rl_pending (gw_rate_limiter g) \<le> rl_max_pending (gw_rate_limiter g) \<and>
     rl_max_pending (gw_rate_limiter g) = sp_limit S \<and>
     (case gw_audit_log g of None \<Rightarrow> True | Some l \<Rightarrow> length (al_tail l) = 32)"

section \<open>Slots and sums\<close>

lemma first_slot_Some:
  "first_slot P xs = Some i \<longleftrightarrow> i < length xs \<and> P (xs ! i) \<and> (\<forall>j<i. \<not> P (xs ! j))"
proof (induction xs arbitrary: i)
  case (Cons x xs)
  show ?case
  proof (cases i)
    case (Suc n)
    then show ?thesis using Cons.IH [of n] by (auto simp: less_Suc_eq_0_disj)
  qed auto
qed simp

lemma first_slot_None: "first_slot P xs = None \<longleftrightarrow> (\<forall>x\<in>set xs. \<not> P x)"
  by (induction xs) auto

lemma osum_split: "osum f (xs @ y # ys) = osum f xs + (if live y then f y else 0) + osum f ys"
  by (simp add: osum_def)

lemma osum_update:
  assumes "i < length xs"
  shows "osum f (xs[i := y]) = osum f xs - (if live (xs ! i) then f (xs ! i) else 0) + (if live y then f y else 0)"
  by (subst (2) id_take_nth_drop [OF assms]) (simp only: upd_conv_take_nth_drop [OF assms] osum_split; simp)

lemma osum_count_bounds: "0 \<le> osum (\<lambda>_. 1) xs" "osum (\<lambda>_. 1) xs \<le> int (length xs)"
  by (induction xs) (auto simp: osum_def)

lemma osum_count_full: "osum (\<lambda>_. 1) xs = int (length xs) \<longleftrightarrow> (\<forall>x\<in>set xs. live x)"
proof (induction xs)
  case (Cons x xs)
  then show ?case using osum_count_bounds(2) [of xs] by (auto simp: osum_def)
qed (simp add: osum_def)

lemma osum_count_pos: "x \<in> set xs \<Longrightarrow> live x \<Longrightarrow> 0 < osum (\<lambda>_. 1) xs"
  using osum_count_bounds(1) by (induction xs) (auto simp: osum_def intro: add_pos_nonneg add_nonneg_pos)

section \<open>Wrapped arithmetic\<close>

lemma s64_cong: "x mod 2 ^ 64 = y mod 2 ^ 64 \<Longrightarrow> s64 x = s64 y"
  unfolding s64_def by (metis mod_add_left_eq)

lemma s64_mod: "s64 x mod 2 ^ 64 = x mod 2 ^ 64"
  by (simp add: s64_def mod_simps)

lemma s64_simps [simp]:
  "s64 (s64 x + y) = s64 (x + y)" "s64 (x + s64 y) = s64 (x + y)"
  "s64 (s64 x - y) = s64 (x - y)" "s64 (x - s64 y) = s64 (x - y)" "s64 (s64 x) = s64 x"
  by (rule s64_cong; metis s64_mod mod_add_left_eq mod_add_right_eq mod_diff_left_eq mod_diff_right_eq)+

lemma signed_qty_delta_s64: "signed_qty_delta side qty = s64 (signed_qty side qty)"
proof (cases "side AND 1 = 0")
  case False
  then have "side AND 1 = 1" by (metis and_one_eq of_bool_eq_0_iff of_bool_eq(2) mod2_eq_if)
  then have "signed_qty_delta side qty = s64 ((qty XOR - 1) + 1)" by (simp add: signed_qty_delta_def)
  also have "(qty XOR - 1) + 1 = - qty" by (simp add: not_int_def)
  finally show ?thesis using False by (simp add: signed_qty_def)
qed (simp add: signed_qty_delta_def signed_qty_def)

lemma signed_qty_diff: "signed_qty side (a - b) = signed_qty side a - signed_qty side b"
  by (simp add: signed_qty_def)

lemma signed_qty_bit: "signed_qty (side AND 1) q = signed_qty side q"
  by (simp add: signed_qty_def and.assoc)

lemma release_reservation_eq:
  assumes "i64 (rs_net_position r)" "i64 (rs_gross_exposure r)"
  shows "release_reservation side q p r =
    r\<lparr>rs_net_position := s64 (rs_net_position r - signed_qty side q), rs_gross_exposure := s64 (rs_gross_exposure r - p * q)\<rparr>"
proof -
  have sub: "checked_sub a (s64 b) = (if i64 (a - s64 b) then Some (a - s64 b) else None)" if "i64 a" for a b
    using that s64_i64 by (rule checked_sub_eq)
  have mul: "Option.bind (checked_mul p q) (checked_sub a) =
      (if i64 (p * q) \<and> i64 (a - p * q) then Some (a - p * q) else None)" if "i64 a" for a
    using that by (auto simp: checked_mul_eq checked_sub_eq)
  have wrap: "i64 (a - s64 b) \<Longrightarrow> a - s64 b = s64 (a - b)" "i64 (a - b) \<Longrightarrow> a - b = s64 (a - b)" for a b
    using s64_id [of "a - s64 b"] s64_id [of "a - b"] by simp_all
  show ?thesis
    using assms wrap by (cases r) (auto simp: release_reservation_def Let_def signed_qty_delta_s64 sub mul)
qed

section \<open>Writing a slot\<close>

lemma slots_okD:
  assumes "slots_ok symb xs" "i < kMaxActiveOrders"
  shows "length xs = kMaxActiveOrders" "slot_ok symb (xs ! i)" "xs ! i \<in> set xs"
    "\<And>j. j < i \<Longrightarrow> live (xs ! i) \<Longrightarrow> ao_order_id (xs ! j) \<noteq> ao_order_id (xs ! i)"
  using assms by (auto simp: slots_ok_def)

lemma live_unique:
  assumes ok: "slots_ok symb xs" and i: "i < kMaxActiveOrders" "j < kMaxActiveOrders"
    and l: "live (xs ! i)" "live (xs ! j)" "ao_order_id (xs ! i) = ao_order_id (xs ! j)"
  shows "i = j"
  using slots_okD(4) [OF ok i(1), of j] slots_okD(4) [OF ok i(2), of i] l by (metis nat_neq_iff)

lemma live_id: "slot_ok symb x \<Longrightarrow> live x \<Longrightarrow> ao_order_id x \<noteq> 0"
  by (auto simp: slot_ok_def live_def)

text \<open>
  What makes it sound to write an order for \<open>k\<close> into slot \<open>i\<close>: either the slot holds the live order
  \<open>k\<close>, or nothing with that id is live and the slot is the first that is free.
\<close>

definition writable :: "u64 \<Rightarrow> nat \<Rightarrow> ActiveOrder list \<Rightarrow> bool" where
  "writable k i xs \<longleftrightarrow> i < kMaxActiveOrders \<and> k \<noteq> 0 \<and>
     (if live (xs ! i) then ao_order_id (xs ! i) = k
      else (\<forall>x\<in>set xs. live x \<longrightarrow> ao_order_id x \<noteq> k) \<and> (\<forall>j<i. live (xs ! j)))"

lemma slots_ok_put:
  assumes ok: "slots_ok symb xs" and w: "writable k i xs" and y: "slot_ok symb y" "ao_order_id y \<in> {0, k}"
  shows "slots_ok symb (xs[i := y])"
proof -
  have len: "length xs = kMaxActiveOrders" and i: "i < kMaxActiveOrders" using ok w by (auto simp: slots_ok_def writable_def)
  have "ao_order_id (xs[i := y] ! b) \<noteq> ao_order_id (xs[i := y] ! a)"
    if ab: "a < kMaxActiveOrders" "b < a" "live (xs[i := y] ! a)" for a b
  proof -
    note A = slots_okD [OF ok ab(1)]
    consider "a \<noteq> i" "b \<noteq> i" | "a = i" | "b = i" "a \<noteq> i" by blast
    then show ?thesis
    proof cases
      case 1
      then show ?thesis using ab A(4) [of b] by simp
    next
      case 2
      then have "ao_order_id y = k" using ab y live_id [OF y(1)] len i by auto
      moreover have "ao_order_id (xs ! b) \<noteq> k"
        using w ab 2 A(4) [of b] slots_okD(3) [OF ok, of b] by (auto simp: writable_def split: if_splits)
      ultimately show ?thesis using 2 ab len by simp
    next
      case 3
      then have l: "live (xs ! a)" using ab by simp
      have "ao_order_id (xs ! a) \<noteq> k"
        using w l 3 ab A(3) A(4) [of b] by (auto simp: writable_def split: if_splits)
      then show ?thesis using 3 len i y live_id [OF A(2) l] by auto
    qed
  qed
  moreover have "\<forall>x\<in>set (xs[i := y]). slot_ok symb x"
    using ok y(1) set_update_subset_insert [of xs i y] by (auto simp: slots_ok_def)
  ultimately show ?thesis using len by (simp add: slots_ok_def)
qed

lemma put_live_other:
  assumes len: "length xs = kMaxActiveOrders" and w: "writable k i xs" and y: "live y \<Longrightarrow> ao_order_id y = k"
    and x: "live x" "ao_order_id x \<noteq> k"
  shows "x \<in> set (xs[i := y]) \<longleftrightarrow> x \<in> set xs"
proof -
  have "xs ! i \<noteq> x" "y \<noteq> x" using w y x by (auto simp: writable_def split: if_splits)
  then have "(\<exists>j<length xs. (if j = i then y else xs ! j) = x) \<longleftrightarrow> (\<exists>j<length xs. xs ! j = x)" by metis
  then show ?thesis using len w by (simp add: in_set_conv_nth nth_list_update writable_def eq_commute [of i])
qed

lemma put_live_same:
  assumes ok: "slots_ok symb xs" and w: "writable k i xs" and y: "live y \<Longrightarrow> ao_order_id y = k"
    and x: "live x" "ao_order_id x = k"
  shows "x \<in> set (xs[i := y]) \<longleftrightarrow> x = y"
proof
  assume "x \<in> set (xs[i := y])"
  then obtain j where j: "j < kMaxActiveOrders" "xs[i := y] ! j = x"
    using ok by (auto simp: in_set_conv_nth slots_ok_def)
  show "x = y"
  proof (rule ccontr)
    assume "x \<noteq> y"
    then have "j \<noteq> i" using j ok by (auto simp: slots_ok_def)
    then have "xs ! j = x" using j by simp
    then show False
      using w x live_unique [OF ok _ j(1), of i] slots_okD(3) [OF ok j(1)] \<open>j \<noteq> i\<close> by (auto simp: writable_def split: if_splits)
  qed
next
  assume "x = y"
  then show "x \<in> set (xs[i := y])" using ok w by (auto simp: slots_ok_def writable_def intro: set_update_memI)
qed

lemma open_okD:
  assumes "open_ok m states" "symb < kSymbols" "x \<in> set (se_orders (states symb))" "live x"
  shows "m (ao_order_id x) = Some x"
  using assms by (auto simp: open_ok_def)

lemma open_ok_put:
  assumes m: "open_ok m states" and ok: "\<And>t. t < kSymbols \<Longrightarrow> slots_ok t (se_orders (states t))" and s: "symb < kSymbols"
    and w: "writable k i (se_orders (states symb))" and free: "\<not> live (se_orders (states symb) ! i) \<Longrightarrow> m k = None"
    and y: "live y \<Longrightarrow> ao_order_id y = k" and st: "se_orders st = (se_orders (states symb))[i := y]"
  shows "open_ok (m(k := if live y then Some y else None)) (states(symb := st))"
proof -
  let ?xs = "se_orders (states symb)"
  have len: "length ?xs = kMaxActiveOrders" using ok [OF s] by (simp add: slots_ok_def)
  have other: "x \<notin> set (se_orders (states t))" if t: "t < kSymbols" "t \<noteq> symb" and x: "live x" "ao_order_id x = k" for t x
  proof
    assume mem: "x \<in> set (se_orders (states t))"
    then have mk: "m k = Some x" using open_okD [OF m t(1) mem x(1)] x(2) by simp
    then have l: "live (?xs ! i)" "?xs ! i \<in> set ?xs" using free w len by (auto simp: writable_def)
    then have "m k = Some (?xs ! i)" using open_okD [OF m s l(2,1)] w by (simp add: writable_def)
    then have "x \<in> set ?xs" using mk l by simp
    then show False using ok [OF s] ok [OF t(1)] mem x(1) t(2) by (auto simp: slots_ok_def slot_ok_def)
  qed
  define P where "P x \<longleftrightarrow> (\<exists>t<kSymbols. x \<in> set (se_orders ((states(symb := st)) t)))" for x
  have A: "P x \<longleftrightarrow> x = y" if "live x" "ao_order_id x = k" for x
    using put_live_same [OF ok [OF s] w y that] other [OF _ _ that] s st unfolding P_def by auto
  have B: "P x \<longleftrightarrow> (\<exists>t<kSymbols. x \<in> set (se_orders (states t)))" if "live x" "ao_order_id x \<noteq> k" for x
    using put_live_other [OF len w y that] s st unfolding P_def by (auto split: if_splits)
  show ?thesis
    unfolding open_ok_def P_def [symmetric]
  proof (intro allI)
    fix k' x
    have "m k' = Some x \<longleftrightarrow> live x \<and> ao_order_id x = k' \<and> (\<exists>t<kSymbols. x \<in> set (se_orders (states t)))"
      using m by (auto simp: open_ok_def)
    then show "(m(k := if live y then Some y else None)) k' = Some x \<longleftrightarrow> live x \<and> ao_order_id x = k' \<and> P x"
      using A [of x] B [of x] y by (cases "k' = k") auto
  qed
qed

section \<open>What the relation depends on\<close>

lemma upd_risk_sel [simp]: "se_orders (upd_risk f st) = se_orders st" "se_risk (upd_risk f st) = f (se_risk st)"
  by (simp_all add: upd_risk_def)

lemma upd_order_sel [simp]: "se_orders (upd_order i y st) = (se_orders st)[i := y]" "se_risk (upd_order i y st) = se_risk st"
  by (simp_all add: upd_order_def)

lemma upd_state_sel [simp]:
  "gw_arena (upd_state s f g) = gw_arena g" "gw_risk (upd_state s f g) = gw_risk g" "gw_ouch (upd_state s f g) = gw_ouch g"
  "gw_breaker (upd_state s f g) = gw_breaker g" "gw_reconciliation (upd_state s f g) = gw_reconciliation g"
  "gw_rate_limiter (upd_state s f g) = gw_rate_limiter g" "gw_audit_log (upd_state s f g) = gw_audit_log g"
  "gw_recovery_ledger (upd_state s f g) = gw_recovery_ledger g"
  "gw_states (upd_state s f g) = (gw_states g)(s := f (gw_states g s))"
  by (simp_all add: upd_state_def)

definition same_totals :: "RiskState \<Rightarrow> RiskState \<Rightarrow> bool" where
  "same_totals r r' \<longleftrightarrow> rs_net_position r' = rs_net_position r \<and> rs_gross_exposure r' = rs_gross_exposure r \<and>
     rs_order_count r' = rs_order_count r"

lemma gw_inv_risk:
  assumes "\<And>r. same_totals r (f r)"
  shows "gw_inv (upd_state s (upd_risk f) g) S = gw_inv g S"
proof -
  have o: "se_orders (gw_states (upd_state s (upd_risk f) g) t) = se_orders (gw_states g t)" for t by simp
  have t: "totals_ok p n (gw_states (upd_state s (upd_risk f) g) t) = totals_ok p n (gw_states g t)" for p n t
    using assms by (simp add: totals_ok_def same_totals_def)
  show ?thesis unfolding gw_inv_def open_ok_def o t by simp
qed

lemma gw_inv_simps [simp]:
  "gw_inv (count_reject s g) S = gw_inv g S" "gw_inv (halt_state s g) S = gw_inv g S"
  "gw_inv (g\<lparr>gw_breaker := b\<rparr>) S = gw_inv g S" "gw_inv (breaker_failure t g) S = gw_inv g S"
  "gw_inv (breaker_trip g) S = gw_inv g S" "gw_inv (g\<lparr>gw_recovery_ledger := l\<rparr>) S = gw_inv g S"
  "gw_inv (g\<lparr>gw_fill_report_count := c\<rparr>) S = gw_inv g S" "gw_inv (g\<lparr>gw_last_fill_timestamp_ns := c\<rparr>) S = gw_inv g S"
  "gw_inv (g\<lparr>gw_dropped_fill_notifications := c\<rparr>) S = gw_inv g S"
  by (simp_all add: count_reject_def halt_state_def gw_inv_risk same_totals_def inc_reject_def set_halted_def)
    (simp_all add: gw_inv_def breaker_failure_def breaker_trip_def)

lemma gw_inv_notify [simp]: "gw_inv (notify_fill env x g) S = gw_inv g S"
  by (simp add: notify_fill_def next_utc_fill_timestamp_ns_def Let_def)

section \<open>Effects on the parts\<close>

lemma gw_invD:
  assumes "gw_inv g S"
  shows "gw_arena g" "open_ok (sp_open S) (gw_states g)" "rc_inv kLedgerCapacity (gw_reconciliation g)"
    "rc_lookup kLedgerCapacity (gw_reconciliation g) = (\<lambda>k. map_option ao_qty (sp_open S k))"
    "unat (rl_pending (gw_rate_limiter g)) = card (dom (sp_open S))"
    "rl_pending (gw_rate_limiter g) \<le> rl_max_pending (gw_rate_limiter g)"
    "\<And>symb. symb < kSymbols \<Longrightarrow> slots_ok symb (se_orders (gw_states g symb))"
    "\<And>symb. symb < kSymbols \<Longrightarrow> totals_ok (sp_position S symb) (sp_notional S symb) (gw_states g symb)"
    "rl_max_pending (gw_rate_limiter g) = sp_limit S"
  using assms by (auto simp: gw_inv_def)

lemma gw_inv_put:
  assumes inv: "gw_inv g S" and s: "symb < kSymbols" and w: "writable k i (se_orders (gw_states g symb))"
    and free: "\<not> live (se_orders (gw_states g symb) ! i) \<Longrightarrow> sp_open S k = None"
    and y: "slot_ok symb y" "ao_order_id y \<in> {0, k}"
    and st: "gw_states g' = (gw_states g)(symb := st)" "se_orders st = (se_orders (gw_states g symb))[i := y]"
    and tot: "totals_ok (sp_position S' symb) (sp_notional S' symb) st"
    and S': "sp_open S' = (sp_open S)(k := if live y then Some y else None)"
      "\<And>t. t \<noteq> symb \<Longrightarrow> sp_position S' t = sp_position S t \<and> sp_notional S' t = sp_notional S t"
    and rc: "rc_inv kLedgerCapacity (gw_reconciliation g')"
      "rc_lookup kLedgerCapacity (gw_reconciliation g') =
        (rc_lookup kLedgerCapacity (gw_reconciliation g))(k := if live y then Some (ao_qty y) else None)"
    and lim: "unat (rl_pending (gw_rate_limiter g')) = card (dom (sp_open S'))"
      "rl_pending (gw_rate_limiter g') \<le> rl_max_pending (gw_rate_limiter g')"
      "rl_max_pending (gw_rate_limiter g') = rl_max_pending (gw_rate_limiter g)" "sp_limit S' = sp_limit S"
    and rest: "gw_arena g'" "gw_audit_log g' = gw_audit_log g"
  shows "gw_inv g' S'"
proof -
  note D = gw_invD [OF inv]
  have id: "ao_order_id y = k" if "live y" using that y live_id [OF y(1)] by auto
  have "open_ok (sp_open S') (gw_states g')"
    unfolding S' st(1) using D(2) D(7) s w free id st(2) by (rule open_ok_put)
  moreover have "slots_ok symb (se_orders st)" unfolding st(2) by (rule slots_ok_put [OF D(7) [OF s] w y])
  moreover have "rc_lookup kLedgerCapacity (gw_reconciliation g') = (\<lambda>k. map_option ao_qty (sp_open S' k))"
    unfolding rc(2) D(4) S'(1) by auto
  moreover have "case gw_audit_log g' of None \<Rightarrow> True | Some l \<Rightarrow> length (al_tail l) = 32"
    using inv rest(2) by (simp add: gw_inv_def)
  ultimately show ?thesis using D s st(1) tot S'(2) rc(1) lim rest unfolding gw_inv_def by auto
qed

lemma writable_live: "slots_ok symb xs \<Longrightarrow> i < kMaxActiveOrders \<Longrightarrow> live (xs ! i) \<Longrightarrow> writable (ao_order_id (xs ! i)) i xs"
  using live_id [OF slots_okD(2)] by (simp add: writable_def)

lemma gw_inv_live:
  assumes "gw_inv g S" "symb < kSymbols" "i < kMaxActiveOrders" "live (se_orders (gw_states g symb) ! i)"
  defines "x \<equiv> se_orders (gw_states g symb) ! i"
  shows "sp_open S (ao_order_id x) = Some x" "ao_symbol_idx x = symb" "ao_order_id x \<noteq> 0" "0 < ao_qty x"
    "i64 (ao_qty x)" "i64 (ao_price x)"
    "rc_lookup kLedgerCapacity (gw_reconciliation g) (ao_order_id x) = Some (ao_qty x)"
proof -
  note D = gw_invD [OF assms(1)]
  note ok = slots_okD [OF D(7) [OF assms(2)] assms(3)]
  show *: "sp_open S (ao_order_id x) = Some x"
    unfolding x_def by (rule open_okD [OF D(2) assms(2) ok(3) assms(4)])
  show "ao_order_id x \<noteq> 0" unfolding x_def by (rule live_id [OF ok(2) assms(4)])
  show "ao_symbol_idx x = symb" "0 < ao_qty x" "i64 (ao_qty x)" "i64 (ao_price x)"
    using ok(2) assms(4) by (auto simp: x_def slot_ok_def)
  show "rc_lookup kLedgerCapacity (gw_reconciliation g) (ao_order_id x) = Some (ao_qty x)" unfolding D(4) * by simp
qed

text \<open>The slot a report finds: the live order with that id, if it belongs to the symbol.\<close>

lemma find_live:
  assumes "gw_inv g S" "sp_open S k = Some x" "ao_symbol_idx x = symb"
  obtains i where "symb < kSymbols" "i < kMaxActiveOrders" "se_orders (gw_states g symb) ! i = x" "live x" "ao_order_id x = k"
    "first_slot (\<lambda>x. ao_order_id x = k \<and> ao_state x \<noteq> 0) (se_orders (gw_states g symb)) = Some i"
    "first_slot (\<lambda>x. ao_order_id x = k \<and> ao_state x \<noteq> 0 \<and> ao_state x \<noteq> 3) (se_orders (gw_states g symb)) = Some i"
proof -
  note D = gw_invD [OF assms(1)]
  obtain t where t: "t < kSymbols" "x \<in> set (se_orders (gw_states g t))" and x: "live x" "ao_order_id x = k"
    using D(2) assms(2) by (auto simp: open_ok_def)
  then have s: "symb < kSymbols" "x \<in> set (se_orders (gw_states g symb))"
    using D(7) [OF t(1)] assms(3) by (auto simp: slots_ok_def slot_ok_def)
  then obtain i where i: "i < kMaxActiveOrders" "se_orders (gw_states g symb) ! i = x"
    using D(7) [OF s(1)] by (auto simp: in_set_conv_nth slots_ok_def)
  have "\<forall>j<i. ao_order_id (se_orders (gw_states g symb) ! j) \<noteq> k"
    using slots_okD(4) [OF D(7) [OF s(1)] i(1)] i(2) x by auto
  then have "first_slot (\<lambda>x. ao_order_id x = k \<and> ao_state x \<noteq> 0) (se_orders (gw_states g symb)) = Some i"
    "first_slot (\<lambda>x. ao_order_id x = k \<and> ao_state x \<noteq> 0 \<and> ao_state x \<noteq> 3) (se_orders (gw_states g symb)) = Some i"
    using i x slots_okD(1) [OF D(7) [OF s(1)] i(1)] by (auto simp: first_slot_Some live_def)
  then show thesis using that s i x by blast
qed

lemma rl_release_max [simp]: "rl_max_pending (rl_release l) = rl_max_pending l"
  by (simp add: rl_release_def)

lemma limiter_close:
  fixes m :: "u64 \<rightharpoonup> ActiveOrder"
  assumes "unat (rl_pending l) = card (dom m)" "rl_pending l \<le> rl_max_pending l" "m k = Some x"
  shows "unat (rl_pending (rl_release l)) = card (dom (m(k := None)))" "rl_pending (rl_release l) \<le> rl_max_pending (rl_release l)"
proof -
  have c: "card (dom (m(k := None))) = card (dom m) - 1" using assms(3) by (simp add: card_Diff_singleton domI)
  have "card (dom m) \<noteq> 0" using domI [of m k x] assms(3) by (auto simp: card_eq_0_iff)
  then have n: "rl_pending l \<noteq> 0" using assms(1) by auto
  then show "unat (rl_pending (rl_release l)) = card (dom (m(k := None)))"
    using assms(1) c by (simp add: rl_release_def unat_dec)
  show "rl_pending (rl_release l) \<le> rl_max_pending (rl_release l)"
    using assms(2) n by (simp add: rl_release_def word_le_nat_alt unat_dec)
qed

section \<open>The outside world\<close>

text \<open>The system answers every write, and the hash has 32 bytes.\<close>

definition env_ok :: "GatewayEnv \<Rightarrow> bool" where
  "env_ok env \<longleftrightarrow> sha_sized (ge_sha env) \<and> 112 \<le> length (filter (\<lambda>a. a \<noteq> Interrupted) (ge_audit_writes env)) \<and>
     64 \<le> length (filter (\<lambda>a. a \<noteq> Interrupted) (ge_wal_writes env))"

lemma al_append_returns:
  assumes "env_ok env" "length (al_tail l) = 32"
  obtains ok l' where "al_append (ge_sha env) (ge_audit_writes env) synced l ts k price qty trader side type = Some (ok, l')"
    "length (al_tail l') = 32"
proof -
  have b: "write_all (ge_audit_writes env) (ae_bytes (new_event l ts k price qty trader side type\<lparr>ae_hash := h\<rparr>)) \<noteq> None"
    if "length h = 32" for h
  proof (rule write_all_returns)
    have "length (ae_bytes (new_event l ts k price qty trader side type\<lparr>ae_hash := h\<rparr>)) = 112"
      using that assms(2) by (simp add: ae_bytes_def new_event_def)
    then show "length (ae_bytes (new_event l ts k price qty trader side type\<lparr>ae_hash := h\<rparr>)) \<le>
        length (filter (\<lambda>a. a \<noteq> Interrupted) (ge_audit_writes env))"
      using assms(1) by (simp add: env_ok_def)
  qed
  have h: "length h = 32" if "ge_sha env x = Some h" for x h using assms(1) that by (auto simp: env_ok_def sha_sized_def)
  have "\<exists>ok l'. al_append (ge_sha env) (ge_audit_writes env) synced l ts k price qty trader side type = Some (ok, l') \<and>
      length (al_tail l') = 32"
  proof (cases "ge_sha env (hash_input (new_event l ts k price qty trader side type))")
    case (Some d)
    then obtain ok w where "write_all (ge_audit_writes env) (ae_bytes (new_event l ts k price qty trader side type\<lparr>ae_hash := d\<rparr>)) = Some (ok, w)"
      using b [OF h [OF Some]] by (metis not_None_eq prod.exhaust)
    then show ?thesis using Some h [OF Some] assms(2) by (auto simp: al_append_def al_flush_def Let_def)
  qed (use assms(2) in \<open>auto simp: al_append_def Let_def\<close>)
  then show thesis using that by blast
qed

lemma audit_append_returns:
  assumes "env_ok env" "gw_inv g S"
  obtains ok l where "audit_append env ts k price qty side type g = Some (ok, g\<lparr>gw_audit_log := l\<rparr>)"
    "\<And>S. gw_inv (g\<lparr>gw_audit_log := l\<rparr>) S = gw_inv g S"
proof (cases "gw_audit_log g")
  case None
  then have "g\<lparr>gw_audit_log := None\<rparr> = g" by (cases g) simp
  then show ?thesis using None by (intro that [of True None]) (simp_all add: audit_append_def gw_inv_def)
next
  case (Some l)
  then have "length (al_tail l) = 32" using assms(2) by (simp add: gw_inv_def)
  then obtain ok l' where "al_append (ge_sha env) (ge_audit_writes env) (ge_audit_synced env) l ts k price qty 0 side type = Some (ok, l')"
      "length (al_tail l') = 32"
    using al_append_returns [OF assms(1)] by metis
  then show ?thesis using Some assms(2) that [of ok "Some l'"] by (simp add: audit_append_def gw_inv_def)
qed

lemma ledger_cancel_open:
  assumes "gw_inv g S" "sp_open S k = Some x" "k \<noteq> 0"
  obtains l where "ledger_cancel k g = Some (True, g\<lparr>gw_reconciliation := l\<rparr>)" "rc_inv kLedgerCapacity l"
    "rc_lookup kLedgerCapacity l = (rc_lookup kLedgerCapacity (gw_reconciliation g))(k := None)"
proof -
  note D = gw_invD [OF assms(1)]
  have "rc_lookup kLedgerCapacity (gw_reconciliation g) k \<noteq> None" using D(4) assms(2) by simp
  then show thesis using rc_cancel_spec [OF D(3) assms(3)] that by (auto simp: ledger_cancel_def)
qed

lemma rc_contains_open: "gw_inv g S \<Longrightarrow> rc_contains kLedgerCapacity (gw_reconciliation g) k \<longleftrightarrow> sp_open S k \<noteq> None"
proof -
  assume "gw_inv g S"
  note D = gw_invD [OF this]
  have "rc_contains kLedgerCapacity (gw_reconciliation g) k \<longleftrightarrow> rc_lookup kLedgerCapacity (gw_reconciliation g) k \<noteq> None"
    by (auto simp: rc_contains_def rc_lookup_def)
  then show ?thesis by (simp add: D(4))
qed

end
