(* ===== verification/Gateway_Steps.thy ===== *)
theory Gateway_Steps
  imports Gateway_Inv
begin

text \<open>
  Every operation of the gateway returns and simulates a step of the contract: venue reports first,
  then admission with its roll-back.
\<close>

section \<open>Closing and updating an order\<close>

lemma totals_put:
  assumes "totals_ok p n st" "i < length (se_orders st)" "se_orders st' = (se_orders st)[i := y]"
    and "rs_net_position (se_risk st') = s64 (rs_net_position (se_risk st) + dn)"
      "rs_gross_exposure (se_risk st') = s64 (rs_gross_exposure (se_risk st) + dg)"
      "int (unat (rs_order_count (se_risk st'))) =
        int (unat (rs_order_count (se_risk st))) - (if live (se_orders st ! i) then 1 else 0) + (if live y then 1 else 0)"
    and "p' + (if live y then open_qty y else 0) = p + (if live (se_orders st ! i) then open_qty (se_orders st ! i) else 0) + dn"
      "n' + (if live y then open_notional y else 0) = n + (if live (se_orders st ! i) then open_notional (se_orders st ! i) else 0) + dg"
  shows "totals_ok p' n' st'"
proof -
  let ?x = "se_orders st ! i"
  have "p + osum open_qty (se_orders st) + dn = p' + osum open_qty (se_orders st')"
    unfolding assms(3) osum_update [OF assms(2)] using assms(7) by linarith
  moreover have "n + osum open_notional (se_orders st) + dg = n' + osum open_notional (se_orders st')"
    unfolding assms(3) osum_update [OF assms(2)] using assms(8) by linarith
  moreover have "int (unat (rs_order_count (se_risk st'))) = osum (\<lambda>_. 1) (se_orders st')"
    unfolding assms(3,6) osum_update [OF assms(2)] using assms(1) by (simp add: totals_ok_def)
  ultimately show ?thesis using assms(1,4,5) by (simp add: totals_ok_def)
qed

lemma dec_count_eq:
  assumes "totals_ok p n st" "x \<in> set (se_orders st)" "live x" "rs_order_count r = rs_order_count (se_risk st)"
  shows "int (unat (rs_order_count (dec_count r))) = int (unat (rs_order_count (se_risk st))) - 1"
proof -
  have "0 < int (unat (rs_order_count (se_risk st)))" using assms(1) osum_count_pos [OF assms(2,3)] by (simp add: totals_ok_def)
  then have "0 < unat (rs_order_count (se_risk st))" by (simp only: of_nat_0_less_iff)
  then have "rs_order_count r > 0" using assms(4) by (simp add: word_less_nat_alt)
  then show ?thesis using assms(4) by (simp add: dec_count_def unat_dec word_gt_0 unat_gt_0 of_nat_diff Suc_le_eq)
qed

lemma dec_count_sel [simp]:
  "rs_net_position (dec_count r) = rs_net_position r" "rs_gross_exposure (dec_count r) = rs_gross_exposure r"
  by (simp_all add: dec_count_def)

lemma totals_i64: "totals_ok p n st \<Longrightarrow> i64 (rs_net_position (se_risk st))" "totals_ok p n st \<Longrightarrow> i64 (rs_gross_exposure (se_risk st))"
  by (simp_all add: totals_ok_def s64_i64)

text \<open>
  A live order leaves its slot: \<open>f\<close> of its quantity was filled, the rest of the reservation is
  released.
\<close>

lemma gw_inv_close:
  assumes inv: "gw_inv g S" and s: "symb < kSymbols" and i: "i < kMaxActiveOrders"
    and x: "se_orders (gw_states g symb) ! i = x" "live x"
    and y: "slot_ok symb y" "\<not> live y" "ao_order_id y \<in> {0, ao_order_id x}"
    and st: "gw_states g' = (gw_states g)(symb := st)" "se_orders st = (se_orders (gw_states g symb))[i := y]"
      "se_risk st = dec_count r" "rs_order_count r = rs_order_count (se_risk (gw_states g symb))"
      "rs_net_position r = s64 (rs_net_position (se_risk (gw_states g symb)) - signed_qty (ao_side x) (ao_qty x - f))"
      "rs_gross_exposure r = s64 (rs_gross_exposure (se_risk (gw_states g symb)) - ao_price x * (ao_qty x - f))"
    and S': "S' = S\<lparr>sp_open := (sp_open S)(ao_order_id x := None),
      sp_position := (sp_position S)(symb := sp_position S symb + signed_qty (ao_side x) f),
      sp_notional := (sp_notional S)(symb := sp_notional S symb + ao_price x * f)\<rparr>"
    and rc: "rc_inv kLedgerCapacity (gw_reconciliation g')"
      "rc_lookup kLedgerCapacity (gw_reconciliation g') = (rc_lookup kLedgerCapacity (gw_reconciliation g))(ao_order_id x := None)"
    and rest: "gw_rate_limiter g' = rl_release (gw_rate_limiter g)" "gw_arena g'" "gw_audit_log g' = gw_audit_log g"
  shows "gw_inv g' S'"
proof -
  note D = gw_invD [OF inv] and ok = slots_okD [OF gw_invD(7) [OF inv s] i]
  have l: "live (se_orders (gw_states g symb) ! i)" using x by simp
  note X = gw_inv_live [OF inv s i l, unfolded x(1)]
  have w: "writable (ao_order_id x) i (se_orders (gw_states g symb))"
    using writable_live [OF D(7) [OF s] i l] x(1) by simp
  have "totals_ok (sp_position S' symb) (sp_notional S' symb) st"
    by (rule totals_put [OF D(8) [OF s] _ st(2), where dn = "- signed_qty (ao_side x) (ao_qty x - f)"
          and dg = "- (ao_price x * (ao_qty x - f))"])
      (use st(3-6) x y(2) i ok dec_count_eq [OF D(8) [OF s] ok(3) l st(4)] in
        \<open>simp_all add: S' open_qty_def open_notional_def signed_qty_diff algebra_simps\<close>)
  then show ?thesis
    using limiter_close [OF D(5,6) X(1)] y rc rest l
    by (intro gw_inv_put [OF inv s w _ y(1,3) st(1,2)]) (simp_all add: S')
qed

text \<open>A live order changes quantity and price.\<close>

lemma gw_inv_update:
  assumes inv: "gw_inv g S" and s: "symb < kSymbols" and i: "i < kMaxActiveOrders"
    and x: "se_orders (gw_states g symb) ! i = x" "live x"
    and y: "slot_ok symb y" "live y" "ao_order_id y = ao_order_id x"
    and st: "gw_states g' = (gw_states g)(symb := st)" "se_orders st = (se_orders (gw_states g symb))[i := y]"
      "rs_order_count (se_risk st) = rs_order_count (se_risk (gw_states g symb))"
      "rs_net_position (se_risk st) = s64 (rs_net_position (se_risk (gw_states g symb)) + (p + open_qty y - open_qty x))"
      "rs_gross_exposure (se_risk st) = s64 (rs_gross_exposure (se_risk (gw_states g symb)) + (n + open_notional y - open_notional x))"
    and S': "S' = S\<lparr>sp_open := (sp_open S)(ao_order_id x \<mapsto> y),
      sp_position := (sp_position S)(symb := sp_position S symb + p), sp_notional := (sp_notional S)(symb := sp_notional S symb + n)\<rparr>"
    and rc: "rc_inv kLedgerCapacity (gw_reconciliation g')"
      "rc_lookup kLedgerCapacity (gw_reconciliation g') = (rc_lookup kLedgerCapacity (gw_reconciliation g))(ao_order_id x \<mapsto> ao_qty y)"
    and rest: "gw_rate_limiter g' = gw_rate_limiter g" "gw_arena g'" "gw_audit_log g' = gw_audit_log g"
  shows "gw_inv g' S'"
proof -
  note D = gw_invD [OF inv] and ok = slots_okD [OF gw_invD(7) [OF inv s] i]
  have l: "live (se_orders (gw_states g symb) ! i)" using x by simp
  note X = gw_inv_live [OF inv s i l, unfolded x(1)]
  have w: "writable (ao_order_id x) i (se_orders (gw_states g symb))"
    using writable_live [OF D(7) [OF s] i l] x(1) by simp
  have "totals_ok (sp_position S' symb) (sp_notional S' symb) st"
    by (rule totals_put [OF D(8) [OF s] _ st(2), where dn = "p + open_qty y - open_qty x" and dg = "n + open_notional y - open_notional x"])
      (use st(3-5) x y(2) i ok in \<open>simp_all add: S'\<close>)
  moreover have "dom (sp_open S') = dom (sp_open S)" using X(1) by (auto simp: S')
  ultimately show ?thesis
    using D(5,6) y rc rest l by (intro gw_inv_put [OF inv s w _ y(1) _ st(1,2)]) (simp_all add: S')
qed

section \<open>What an operation logs\<close>

definition wal_write :: "GatewayEnv \<Rightarrow> RecoveryEvent \<Rightarrow> RecoveryLedger option \<Rightarrow> (bool \<times> RecoveryLedger option) option" where
  "wal_write env ev w =
     (case w of
        None \<Rightarrow> Some (True, None)
      | Some l \<Rightarrow> map_option (map_prod id Some) (append_and_flush (ge_wal_writes env) (ge_wal_synced env) l ev))"

lemma wal_append_eq:
  "wal_append env ev g = map_option (\<lambda>(ok, w). (ok, g\<lparr>gw_recovery_ledger := w\<rparr>)) (wal_write env ev (gw_recovery_ledger g))"
proof (cases "gw_recovery_ledger g")
  case None
  then have "g\<lparr>gw_recovery_ledger := None\<rparr> = g" by (cases g) simp
  then show ?thesis using None by (simp add: wal_append_def wal_write_def)
next
  case (Some l)
  then show ?thesis by (simp add: wal_append_def wal_write_def option.map_comp comp_def case_prod_unfold)
qed

definition fill_event :: "GatewayEnv \<Rightarrow> ExecutionReport \<Rightarrow> ActiveOrder \<Rightarrow> RecoveryEvent" where
  "fill_event env r x =
     \<lparr>re_type = (if er_terminal r \<and> ao_qty x - er_filled_quantity r > 0 then kTerminalFill else kFill),
      re_order_id = ao_order_id x, re_quantity = er_filled_quantity r, re_price = ao_price x, re_side = ao_side x,
      re_timestamp_ns = ge_now_ns env\<rparr>"

definition cancel_event :: "GatewayEnv \<Rightarrow> ActiveOrder \<Rightarrow> RecoveryEvent" where
  "cancel_event env x = \<lparr>re_type = kCancel, re_order_id = ao_order_id x, re_quantity = ao_qty x, re_price = ao_price x,
     re_side = ao_side x, re_timestamp_ns = ge_now_ns env\<rparr>"

definition replace_event :: "GatewayEnv \<Rightarrow> int \<Rightarrow> int \<Rightarrow> ActiveOrder \<Rightarrow> RecoveryEvent" where
  "replace_event env q p x = \<lparr>re_type = kReplace, re_order_id = ao_order_id x, re_quantity = q, re_price = p,
     re_side = ao_side x, re_timestamp_ns = ge_now_ns env\<rparr>"

definition add_event :: "OrderIntent \<Rightarrow> RecoveryEvent" where
  "add_event intent = \<lparr>re_type = kAdd, re_order_id = ucast (oi_client_order_id intent), re_quantity = oi_qty intent,
     re_price = oi_price intent, re_side = oi_side intent, re_timestamp_ns = oi_now_ns intent\<rparr>"

text \<open>The event an operation writes ahead; rejections, amendments and halts write none.\<close>

primrec op_event :: "GatewayEnv \<Rightarrow> GatewaySpec \<Rightarrow> gateway_op \<Rightarrow> RecoveryEvent option" where
  "op_event env S (Build intent packet) = Some (add_event intent)"
| "op_event env S (Amend intent packet) = None"
| "op_event env S (Fill symb r) = map_option (fill_event env r) (sp_open S (er_order_id r))"
| "op_event env S (CancelAck symb k) = map_option (cancel_event env) (sp_open S k)"
| "op_event env S (ReplaceAck symb k q p) = map_option (replace_event env q p) (sp_open S k)"
| "op_event env S (RejectAck symb k) = None"
| "op_event env S (CancelOpen k) = map_option (cancel_event env) (sp_open S k)"
| "op_event env S (Halt symb) = None"
| "op_event env S (Resume symb) = None"

definition logs :: "GatewayEnv \<Rightarrow> RecoveryEvent option \<Rightarrow> bool \<Rightarrow> RecoveryLedger option \<Rightarrow> RecoveryLedger option \<Rightarrow> bool" where
  "logs env e ok w w' \<longleftrightarrow>
     (case e of
        None \<Rightarrow> w' = w
      | Some ev \<Rightarrow> if ok then event_ok ev \<and> wal_write env ev w = Some (True, w')
                 else w' = w \<or> event_ok ev \<and> wal_write env ev w = Some (False, w'))"

lemma logs_same [simp]: "logs env e False w w"
  by (simp add: logs_def split: option.split)

definition simulates ::
    "GatewayEnv \<Rightarrow> gateway_op \<Rightarrow> ExecutionGateway \<Rightarrow> GatewaySpec \<Rightarrow> (bool \<times> ExecutionGateway) option \<Rightarrow> bool" where
  "simulates env op g S res \<longleftrightarrow>
     (\<exists>ok g' S'. res = Some (ok, g') \<and> spec_step op ok S S' \<and> gw_inv g' S' \<and>
        logs env (op_event env S op) ok (gw_recovery_ledger g) (gw_recovery_ledger g'))"

lemma simulatesI:
  "spec_step op ok S S' \<Longrightarrow> gw_inv g' S' \<Longrightarrow>
   logs env (op_event env S op) ok (gw_recovery_ledger g) (gw_recovery_ledger g') \<Longrightarrow> simulates env op g S (Some (ok, g'))"
  by (auto simp: simulates_def)

lemma state_updates [simp]:
  "gw_recovery_ledger (count_reject s g) = gw_recovery_ledger g" "gw_recovery_ledger (halt_state s g) = gw_recovery_ledger g"
  "gw_recovery_ledger (breaker_failure t g) = gw_recovery_ledger g" "gw_recovery_ledger (breaker_trip g) = gw_recovery_ledger g"
  "gw_recovery_ledger (release_token g) = gw_recovery_ledger g"
  by (simp_all add: count_reject_def halt_state_def breaker_failure_def breaker_trip_def release_token_def)

lemma notify_fill_sel [simp]:
  "gw_arena (notify_fill env x g) = gw_arena g" "gw_states (notify_fill env x g) = gw_states g"
  "gw_reconciliation (notify_fill env x g) = gw_reconciliation g" "gw_rate_limiter (notify_fill env x g) = gw_rate_limiter g"
  "gw_audit_log (notify_fill env x g) = gw_audit_log g" "gw_recovery_ledger (notify_fill env x g) = gw_recovery_ledger g"
  by (simp_all add: notify_fill_def next_utc_fill_timestamp_ns_def Let_def)

lemma release_token_sel [simp]:
  "gw_arena (release_token g) = gw_arena g" "gw_states (release_token g) = gw_states g"
  "gw_reconciliation (release_token g) = gw_reconciliation g" "gw_audit_log (release_token g) = gw_audit_log g"
  "gw_rate_limiter (release_token g) = rl_release (gw_rate_limiter g)"
  by (simp_all add: release_token_def)

lemma sim_refused:
  "gw_inv g S \<Longrightarrow> gw_inv g' S \<Longrightarrow> gw_recovery_ledger g' = gw_recovery_ledger g \<Longrightarrow> simulates env op g S (Some (False, g'))"
  by (rule simulatesI [OF spec_refused]) simp_all

lemma sim_halt: "gw_inv g S \<Longrightarrow> simulates env op g S (Some (halt_and_trip symb g))"
  unfolding halt_and_trip_def by (rule sim_refused) simp_all

lemma sim_halt_logged:
  assumes "gw_inv g S" "op_event env S op = Some ev" "event_ok ev" "wal_write env ev (gw_recovery_ledger g) = Some (False, w)"
  shows "simulates env op g S (Some (halt_and_trip symb (g\<lparr>gw_recovery_ledger := w\<rparr>)))"
  unfolding halt_and_trip_def by (rule simulatesI [OF spec_refused]) (use assms in \<open>simp_all add: logs_def\<close>)

lemma empty_order_ok [simp]: "slot_ok symb empty_order" "\<not> live empty_order" "ao_order_id empty_order = 0"
  by (simp_all add: slot_ok_def live_def empty_order_def)

lemma wal_write_returns:
  assumes "env_ok env"
  obtains ok w' where "wal_write env ev w = Some (ok, w')"
proof (cases w)
  case (Some l)
  have "length (rr_bytes (record_of n ev)) = 64" for n
    by (simp add: rr_bytes_def rr_head_def record_of_def Let_def word_lengths)
  then have "write_all (ge_wal_writes env) (rr_bytes (record_of n ev)) \<noteq> None" for n
    using assms by (intro write_all_returns) (simp add: env_ok_def)
  then obtain ok b where "write_all (ge_wal_writes env) (rr_bytes (record_of (rv_sequence l) ev)) = Some (ok, b)"
    by (metis not_None_eq prod.exhaust)
  then have "append_and_flush (ge_wal_writes env) (ge_wal_synced env) l ev \<noteq> None"
    by (auto simp: append_and_flush_def append_with_side_def Let_def split: option.split)
  then show ?thesis using Some that by (auto simp: wal_write_def)
qed (use that in \<open>simp add: wal_write_def\<close>)

section \<open>Cancellations\<close>

lemma live_events:
  assumes "gw_inv g S" "symb < kSymbols" "i < kMaxActiveOrders" "se_orders (gw_states g symb) ! i = x" "live x"
  shows "event_ok (cancel_event env x)"
    "0 < er_filled_quantity r \<Longrightarrow> er_filled_quantity r \<le> ao_qty x \<Longrightarrow> event_ok (fill_event env r x)"
    "0 < q \<Longrightarrow> i64 q \<Longrightarrow> i64 p \<Longrightarrow> event_ok (replace_event env q p x)"
  using gw_inv_live [OF assms(1-3)] assms(4,5)
  by (auto simp: event_ok_def cancel_event_def fill_event_def replace_event_def i64_bounds)

text \<open>The slot is cleared and the rest of the reservation released.\<close>

definition cancel_slot :: "nat \<Rightarrow> nat \<Rightarrow> ActiveOrder \<Rightarrow> ExecutionGateway \<Rightarrow> ExecutionGateway" where
  "cancel_slot symb i x = release_token \<circ> upd_state symb (upd_risk dec_count \<circ> upd_order i empty_order \<circ>
     upd_risk (release_reservation (ao_side x) (ao_qty x) (ao_price x)))"

lemma cancel_slot_inv:
  assumes inv: "gw_inv g S" and s: "symb < kSymbols" and i: "i < kMaxActiveOrders"
    and x: "se_orders (gw_states g symb) ! i = x" "live x"
    and l: "rc_inv kLedgerCapacity l" "rc_lookup kLedgerCapacity l = (rc_lookup kLedgerCapacity (gw_reconciliation g))(ao_order_id x := None)"
  shows "gw_inv (cancel_slot symb i x (g\<lparr>gw_recovery_ledger := w, gw_reconciliation := l\<rparr>)) (spec_close (ao_order_id x) S)"
proof -
  note D = gw_invD [OF inv]
  let ?st = "(upd_risk dec_count \<circ> upd_order i empty_order \<circ> upd_risk (release_reservation (ao_side x) (ao_qty x) (ao_price x))) (gw_states g symb)"
  let ?r = "release_reservation (ao_side x) (ao_qty x) (ao_price x) (se_risk (gw_states g symb))"
  show ?thesis
    by (rule gw_inv_close [OF inv s i x, where f = 0 and y = empty_order and st = ?st and r = ?r])
      (use l D(1) totals_i64 [OF D(8) [OF s]] in \<open>simp_all add: cancel_slot_def release_reservation_eq spec_close_def signed_qty_def\<close>)
qed

text \<open>What follows once the report has found a live order.\<close>

lemma cancel_live:
  assumes inv: "gw_inv g S" and env: "env_ok env" and s: "symb < kSymbols" and i: "i < kMaxActiveOrders"
    and x: "se_orders (gw_states g symb) ! i = x" "live x" and op: "op = CancelAck symb (ao_order_id x) \<or> op = CancelOpen (ao_order_id x)"
    and first: "first_slot (\<lambda>y. ao_order_id y = ao_order_id x \<and> ao_state y \<noteq> 0) (se_orders (gw_states g symb)) = Some i"
  shows "simulates env op g S (apply_cancel_report env symb (ao_order_id x) g)"
proof -
  let ?k = "ao_order_id x"
  have l: "live (se_orders (gw_states g symb) ! i)" using x by simp
  note X = gw_inv_live [OF inv s i l, unfolded x(1)] and ok = live_events(1) [OF inv s i x]
  obtain logged w where w: "wal_write env (cancel_event env x) (gw_recovery_ledger g) = Some (logged, w)"
    using wal_write_returns [OF env] by blast
  have ev: "op_event env S op = Some (cancel_event env x)" using op X(1) by auto
  have inv1: "gw_inv (g\<lparr>gw_recovery_ledger := w\<rparr>) S" using inv by simp
  obtain l' where l': "ledger_cancel ?k (g\<lparr>gw_recovery_ledger := w\<rparr>) = Some (True, g\<lparr>gw_recovery_ledger := w, gw_reconciliation := l'\<rparr>)"
      "rc_inv kLedgerCapacity l'" "rc_lookup kLedgerCapacity l' = (rc_lookup kLedgerCapacity (gw_reconciliation g))(?k := None)"
    using ledger_cancel_open [OF inv1 X(1,3)] by auto
  have "apply_cancel_report env symb ?k g =
      Some (if logged then (True, cancel_slot symb i x (g\<lparr>gw_recovery_ledger := w, gw_reconciliation := l'\<rparr>))
            else halt_and_trip symb (g\<lparr>gw_recovery_ledger := w\<rparr>))"
    using gw_invD(1) [OF inv] s first x w l'(1) rc_contains_open [OF inv, of ?k] X(1)
    by (simp add: apply_cancel_report_def wal_append_eq cancel_event_def cancel_slot_def live_def)
  moreover have "simulates env op g S (Some (halt_and_trip symb (g\<lparr>gw_recovery_ledger := w\<rparr>)))" if "\<not> logged"
    using sim_halt_logged [OF inv ev ok] w that by simp
  moreover have "simulates env op g S (Some (True, cancel_slot symb i x (g\<lparr>gw_recovery_ledger := w, gw_reconciliation := l'\<rparr>)))" if logged
  proof (rule simulatesI [OF _ cancel_slot_inv [OF inv s i x l'(2,3)]])
    show "spec_step op True S (spec_close ?k S)" using op X(1,2) by (auto intro: spec_canceled spec_cancel_open)
  qed (use ev w that ok in \<open>simp add: logs_def cancel_slot_def\<close>)
  ultimately show ?thesis by simp
qed

lemma cancel_step:
  assumes inv: "gw_inv g S" and env: "env_ok env" and op: "op = CancelAck symb k \<or> op = CancelOpen k"
  shows "simulates env op g S (apply_cancel_report env symb k g)"
proof (cases "symb < kSymbols")
  case s: True
  let ?xs = "se_orders (gw_states g symb)"
  note D = gw_invD [OF inv]
  show ?thesis
  proof (cases "first_slot (\<lambda>x. ao_order_id x = k \<and> ao_state x \<noteq> 0) ?xs")
    case None
    then show ?thesis using s D(1) by (simp add: apply_cancel_report_def sim_halt [OF inv])
  next
    case (Some i)
    then have i: "i < kMaxActiveOrders" "ao_order_id (?xs ! i) = k" "ao_state (?xs ! i) \<noteq> 0"
      using D(7) [OF s] by (auto simp: first_slot_Some slots_ok_def)
    show ?thesis
    proof (cases "ao_state (?xs ! i) = 3")
      case True
      then show ?thesis using Some inv s D(1) by (simp add: apply_cancel_report_def sim_refused)
    next
      case False
      then show ?thesis using cancel_live [OF inv env s i(1) refl] i op Some by (simp add: live_def)
    qed
  qed
qed (use inv in \<open>simp add: apply_cancel_report_def sim_refused\<close>)

section \<open>Rejections\<close>

lemma count_rejection_inv [simp]: "gw_inv (count_rejection env symb g) S = gw_inv g S"
  by (simp add: count_rejection_def Let_def)

lemma count_rejection_sel [simp]:
  "se_orders (gw_states (count_rejection env symb g) t) = se_orders (gw_states g t)"
  "gw_recovery_ledger (count_rejection env symb g) = gw_recovery_ledger g"
  by (simp_all add: count_rejection_def Let_def count_reject_def halt_state_def)

lemma reject_live:
  assumes inv: "gw_inv g S" and s: "symb < kSymbols" and i: "i < kMaxActiveOrders"
    and x: "se_orders (gw_states g symb) ! i = x" "live x"
    and first: "first_slot (\<lambda>y. ao_order_id y = ao_order_id x \<and> ao_state y \<noteq> 0) (se_orders (gw_states g symb)) = Some i"
  shows "simulates env (RejectAck symb (ao_order_id x)) g S (apply_reject_report env symb (ao_order_id x) g)"
proof -
  let ?k = "ao_order_id x" and ?g = "count_rejection env symb g"
  have l: "live (se_orders (gw_states g symb) ! i)" using x by simp
  note X = gw_inv_live [OF inv s i l, unfolded x(1)]
  have inv1: "gw_inv ?g S" and x1: "se_orders (gw_states ?g symb) ! i = x" using inv x by simp_all
  obtain l' where l': "ledger_cancel ?k ?g = Some (True, ?g\<lparr>gw_reconciliation := l'\<rparr>)"
      "rc_inv kLedgerCapacity l'" "rc_lookup kLedgerCapacity l' = (rc_lookup kLedgerCapacity (gw_reconciliation ?g))(?k := None)"
    using ledger_cancel_open [OF inv1 X(1,3)] by auto
  let ?st = "(upd_order i empty_order \<circ> upd_risk (reject_risk x)) (gw_states ?g symb)" and ?R = "se_risk (gw_states ?g symb)"
  let ?r = "?R\<lparr>rs_net_position := s64 (rs_net_position ?R - signed_qty_delta (ao_side x) (ao_qty x)),
      rs_gross_exposure := s64 (rs_gross_exposure ?R - s64 (ao_price x * ao_qty x))\<rparr>"
  let ?g' = "release_token (upd_state symb (upd_order i empty_order \<circ> upd_risk (reject_risk x)) (?g\<lparr>gw_reconciliation := l'\<rparr>))"
  have c: "gw_inv ?g' (spec_close ?k S)"
    by (rule gw_inv_close [OF inv1 s i x1 x(2), where f = 0 and y = empty_order and st = ?st and r = ?r])
      (use l'(2,3) gw_invD(1) [OF inv1] in \<open>simp_all add: reject_risk_def spec_close_def signed_qty_delta_s64, simp_all add: signed_qty_def\<close>)
  have "simulates env (RejectAck symb ?k) g S (Some (True, ?g'))"
    by (rule simulatesI [OF spec_rejected [OF X(1,2)] c]) (simp add: logs_def)
  then show ?thesis using first x l'(1) s gw_invD(1) [OF inv] by (simp add: apply_reject_report_def live_def)
qed

lemma reject_step:
  assumes inv: "gw_inv g S"
  shows "simulates env (RejectAck symb k) g S (apply_reject_report env symb k g)"
proof (cases "symb < kSymbols")
  case s: True
  let ?xs = "se_orders (gw_states g symb)"
  note D = gw_invD [OF inv]
  show ?thesis
  proof (cases "first_slot (\<lambda>x. ao_order_id x = k \<and> ao_state x \<noteq> 0) ?xs")
    case None
    then show ?thesis using s D(1) inv by (simp add: apply_reject_report_def sim_refused)
  next
    case (Some i)
    then have i: "i < kMaxActiveOrders" "ao_order_id (?xs ! i) = k" "ao_state (?xs ! i) \<noteq> 0"
      using D(7) [OF s] by (auto simp: first_slot_Some slots_ok_def)
    show ?thesis
    proof (cases "ao_state (?xs ! i) = 3")
      case True
      then show ?thesis using Some inv s D(1) by (simp add: apply_reject_report_def sim_refused)
    next
      case False
      then show ?thesis using reject_live [OF inv s i(1) refl] i Some by (simp add: live_def)
    qed
  qed
qed (use inv in \<open>simp add: apply_reject_report_def sim_refused\<close>)

section \<open>Replacements\<close>

lemma replace_risk_sel:
  "rs_net_position (replace_risk x q p r) = s64 (rs_net_position r + (signed_qty (ao_side x) q - signed_qty (ao_side x) (ao_qty x)))"
  "rs_gross_exposure (replace_risk x q p r) = s64 (rs_gross_exposure r + (p * q - ao_price x * ao_qty x))"
  "rs_order_count (replace_risk x q p r) = rs_order_count r"
proof -
  have "s64 (a + (s64 b - s64 c)) = s64 (a + (b - c))" for a b c
    using s64_simps(3) [of b "s64 c - a"] s64_simps(4) [of "a + b" c] by (simp add: algebra_simps)
  then show "rs_net_position (replace_risk x q p r) =
      s64 (rs_net_position r + (signed_qty (ao_side x) q - signed_qty (ao_side x) (ao_qty x)))"
    "rs_gross_exposure (replace_risk x q p r) = s64 (rs_gross_exposure r + (p * q - ao_price x * ao_qty x))"
    "rs_order_count (replace_risk x q p r) = rs_order_count r"
    by (simp_all add: replace_risk_def Let_def signed_qty_delta_s64)
qed

lemma replace_live:
  assumes inv: "gw_inv g S" and env: "env_ok env" and s: "symb < kSymbols" and i: "i < kMaxActiveOrders"
    and x: "se_orders (gw_states g symb) ! i = x" "live x" and q: "0 < q" "0 < p" "i64 q" "i64 p"
    and first: "first_slot (\<lambda>y. ao_order_id y = ao_order_id x \<and> ao_state y \<noteq> 0 \<and> ao_state y \<noteq> 3) (se_orders (gw_states g symb)) = Some i"
  shows "simulates env (ReplaceAck symb (ao_order_id x) q p) g S (apply_replace_report env symb (ao_order_id x) q p g)"
proof -
  let ?k = "ao_order_id x" and ?y = "x\<lparr>ao_qty := q, ao_price := p\<rparr>" and ?l = "gw_reconciliation g"
  let ?op = "ReplaceAck symb ?k q p"
  have l: "live (se_orders (gw_states g symb) ! i)" using x by simp
  note D = gw_invD [OF inv] and X = gw_inv_live [OF inv s i l, unfolded x(1)]
    and ok = live_events(3) [OF inv s i x q(1,3,4), of env]
  obtain logged w where w: "wal_write env (replace_event env q p x) (gw_recovery_ledger g) = Some (logged, w)"
    using wal_write_returns [OF env] by blast
  obtain l' where l': "rc_replace kLedgerCapacity ?l ?k q = (True, l')" "rc_inv kLedgerCapacity l'"
      "rc_lookup kLedgerCapacity l' = (rc_lookup kLedgerCapacity ?l)(?k \<mapsto> q)"
    using rc_replace_spec [OF D(3), of ?k q] X(3,7) q by (cases "rc_replace kLedgerCapacity ?l ?k q") auto
  let ?g1 = "g\<lparr>gw_recovery_ledger := w\<rparr>"
  let ?g' = "upd_state symb (upd_order i ?y \<circ> upd_risk (replace_risk x q p)) (?g1\<lparr>gw_reconciliation := l'\<rparr>)"
  let ?S = "S\<lparr>sp_open := (sp_open S)(?k \<mapsto> ?y)\<rparr>"
  have "apply_replace_report env symb ?k q p g = Some (if logged then (True, ?g') else halt_and_trip symb ?g1)"
    using D(1) s first x w l'(1) rc_contains_open [OF inv, of ?k] X(1) q
    by (simp add: apply_replace_report_def wal_append_eq replace_event_def)
  moreover have "simulates env ?op g S (Some (halt_and_trip symb ?g1))" if "\<not> logged"
    using sim_halt_logged [OF inv _ ok] w that X(1) by simp
  moreover have "gw_inv ?g' ?S"
    by (rule gw_inv_update [OF inv s i x, where p = 0 and n = 0 and y = ?y and
          st = "(upd_order i ?y \<circ> upd_risk (replace_risk x q p)) (gw_states g symb)"])
      (use l'(2,3) X x(2) q D(1) in \<open>simp_all add: slot_ok_def live_def replace_risk_sel open_qty_def open_notional_def\<close>)
  then have "simulates env ?op g S (Some (True, ?g'))" if logged
    by (rule simulatesI [OF spec_replaced [OF X(1,2) q(1,2)]]) (use w that ok X(1) in \<open>simp add: logs_def\<close>)
  ultimately show ?thesis by simp
qed

lemma replace_step:
  assumes inv: "gw_inv g S" and env: "env_ok env" and q: "i64 q" "i64 p"
  shows "simulates env (ReplaceAck symb k q p) g S (apply_replace_report env symb k q p g)"
proof (cases "symb < kSymbols")
  case s: True
  let ?xs = "se_orders (gw_states g symb)"
  note D = gw_invD [OF inv]
  show ?thesis
  proof (cases "first_slot (\<lambda>x. ao_order_id x = k \<and> ao_state x \<noteq> 0 \<and> ao_state x \<noteq> 3) ?xs")
    case None
    then show ?thesis using s D(1) by (simp add: apply_replace_report_def sim_halt [OF inv])
  next
    case (Some i)
    then have i: "i < kMaxActiveOrders" "ao_order_id (?xs ! i) = k" "live (?xs ! i)"
      using D(7) [OF s] by (auto simp: first_slot_Some slots_ok_def live_def)
    then show ?thesis
      using Some s D(1) replace_live [OF inv env s i(1) refl i(3)] q
      by (cases "q \<le> 0 \<or> p \<le> 0") (auto simp: apply_replace_report_def sim_halt [OF inv])
  qed
qed (use inv in \<open>simp add: apply_replace_report_def sim_refused\<close>)

section \<open>Fills\<close>

text \<open>
  The two reports the contract does not hold for: a fill that closes an order and thereby hides another
  open order in the ledger, and a fill that names an open order under a symbol it was not sent for
  while a terminal slot of that symbol still carries the id.
\<close>

definition stale_fill :: "ExecutionGateway \<Rightarrow> GatewaySpec \<Rightarrow> nat \<Rightarrow> ExecutionReport \<Rightarrow> bool" where
  "stale_fill g S symb r \<longleftrightarrow> (\<exists>x. sp_open S (er_order_id r) = Some x \<and> ao_symbol_idx x \<noteq> symb) \<and>
     (\<exists>y\<in>set (se_orders (gw_states g symb)). ao_order_id y = er_order_id r \<and> ao_state y = 3)"

definition fill_safe :: "ExecutionGateway \<Rightarrow> GatewaySpec \<Rightarrow> nat \<Rightarrow> ExecutionReport \<Rightarrow> bool" where
  "fill_safe g S symb r \<longleftrightarrow> fill_hides kLedgerCapacity (gw_reconciliation g) r = {} \<and> \<not> stale_fill g S symb r"

lemma rc_apply_open:
  assumes "gw_inv g S" "fill_hides kLedgerCapacity (gw_reconciliation g) r = {}" "sp_open S (er_order_id r) = Some x"
    "er_order_id r \<noteq> 0" "0 < er_filled_quantity r" "er_filled_quantity r \<le> ao_qty x"
  obtains l where "rc_apply kLedgerCapacity (gw_reconciliation g) r = (True, l)" "rc_inv kLedgerCapacity l"
    "rc_lookup kLedgerCapacity l = (rc_lookup kLedgerCapacity (gw_reconciliation g))(er_order_id r :=
       if er_terminal r \<or> er_filled_quantity r = ao_qty x then None else Some (ao_qty x - er_filled_quantity r))"
proof -
  note D = gw_invD [OF assms(1)]
  have "rc_lookup kLedgerCapacity (gw_reconciliation g) (er_order_id r) = Some (ao_qty x)" using D(4) assms(3) by simp
  then show thesis
    using rc_apply_spec [OF D(3), of r] assms that
    by (cases "rc_apply kLedgerCapacity (gw_reconciliation g) r") (auto split: if_splits)
qed

lemma settle_fill_inv:
  assumes inv: "gw_inv g S" and s: "symb < kSymbols" and i: "i < kMaxActiveOrders"
    and x: "se_orders (gw_states g symb) ! i = x" "live x" and k: "er_order_id r = ao_order_id x"
    and f: "0 < er_filled_quantity r" "er_filled_quantity r \<le> ao_qty x"
    and l: "rc_inv kLedgerCapacity l" "rc_lookup kLedgerCapacity l = (rc_lookup kLedgerCapacity (gw_reconciliation g))(er_order_id r :=
       if er_terminal r \<or> er_filled_quantity r = ao_qty x then None else Some (ao_qty x - er_filled_quantity r))"
  shows "gw_inv (settle_fill env symb i r (g\<lparr>gw_recovery_ledger := w, gw_reconciliation := l\<rparr>)) (spec_fill r x S)"
proof -
  let ?f = "er_filled_quantity r" and ?st = "gw_states g symb" and ?z = "filled_order r x"
  have lv: "live (se_orders (gw_states g symb) ! i)" using x by simp
  note D = gw_invD [OF inv] and X = gw_inv_live [OF inv s i lv, unfolded x(1)] and T = totals_i64 [OF gw_invD(8) [OF inv s]]
  note def = settle_fill_def [of env symb i r "g\<lparr>gw_recovery_ledger := w, gw_reconciliation := l\<rparr>"]
  show ?thesis
  proof (cases "er_terminal r \<or> ?f = ao_qty x")
    case True
    let ?r = "if er_terminal r \<and> ao_qty x - ?f > 0
      then release_reservation (ao_side x) (ao_qty x - ?f) (ao_price x) (se_risk ?st) else se_risk ?st"
    have r: "rs_net_position ?r = s64 (rs_net_position (se_risk ?st) - signed_qty (ao_side x) (ao_qty x - ?f))"
      "rs_gross_exposure ?r = s64 (rs_gross_exposure (se_risk ?st) - ao_price x * (ao_qty x - ?f))"
      "rs_order_count ?r = rs_order_count (se_risk ?st)"
      using True f T by (auto simp: release_reservation_eq signed_qty_def s64_id)
    show ?thesis
      by (rule gw_inv_close [OF inv s i x, where f = ?f and y = "?z\<lparr>ao_state := 3\<rparr>" and r = ?r and
            st = "(?st\<lparr>se_orders := (se_orders ?st)[i := ?z\<lparr>ao_state := 3\<rparr>], se_risk := dec_count ?r\<rparr>)"])
        (use True r l k X D(1) x f in \<open>simp_all add: def Let_def filled_order_def slot_ok_def live_def spec_fill_def upd_risk_def
          upd_order_def, auto\<close>)
  next
    case False
    then have "er_terminal r = False" "ao_qty x - ?f \<noteq> 0" by auto
    then show ?thesis
      by (intro gw_inv_update [OF inv s i x, where p = "signed_qty (ao_side x) ?f" and n = "ao_price x * ?f" and
            y = "?z\<lparr>ao_state := 2\<rparr>" and st = "upd_order i (?z\<lparr>ao_state := 2\<rparr>) ?st"])
        (use False l k X D(1) x f T in \<open>simp_all add: def Let_def filled_order_def slot_ok_def live_def spec_fill_def
          open_qty_def open_notional_def signed_qty_diff right_diff_distrib s64_id, simp_all add: i64_bounds\<close>)
  qed
qed

lemma fill_open:
  assumes inv: "gw_inv g S" and env: "env_ok env" and safe: "fill_hides kLedgerCapacity (gw_reconciliation g) r = {}"
    and op: "sp_open S (er_order_id r) = Some x" and sx: "ao_symbol_idx x = symb"
    and f: "0 < er_filled_quantity r" "er_filled_quantity r \<le> ao_qty x"
  shows "simulates env (Fill symb r) g S (apply_execution_report env symb r g)"
proof -
  obtain i where s: "symb < kSymbols" and i: "i < kMaxActiveOrders" and x: "se_orders (gw_states g symb) ! i = x" "live x"
    and k: "ao_order_id x = er_order_id r"
    and first: "first_slot (\<lambda>x. ao_order_id x = er_order_id r \<and> ao_state x \<noteq> 0) (se_orders (gw_states g symb)) = Some i"
    using find_live [OF inv op sx] by blast
  have lv: "live (se_orders (gw_states g symb) ! i)" using x by simp
  note X = gw_inv_live [OF inv s i lv, unfolded x(1)] and ok = live_events(2) [OF inv s i x f, of env]
  obtain logged w where w: "wal_write env (fill_event env r x) (gw_recovery_ledger g) = Some (logged, w)"
    using wal_write_returns [OF env] by blast
  obtain l where l: "rc_apply kLedgerCapacity (gw_reconciliation g) r = (True, l)" "rc_inv kLedgerCapacity l"
    "rc_lookup kLedgerCapacity l = (rc_lookup kLedgerCapacity (gw_reconciliation g))(er_order_id r :=
       if er_terminal r \<or> er_filled_quantity r = ao_qty x then None else Some (ao_qty x - er_filled_quantity r))"
    using rc_apply_open [OF inv safe op _ f] X(3) k by auto
  let ?g1 = "g\<lparr>gw_recovery_ledger := w\<rparr>"
  let ?g' = "settle_fill env symb i r (?g1\<lparr>gw_reconciliation := l\<rparr>)"
  have "apply_execution_report env symb r g = Some (if logged then (True, ?g') else halt_and_trip symb ?g1)"
    using gw_invD(1) [OF inv] s first x f w l(1) rc_contains_open [OF inv, of "er_order_id r"] op k
    by (simp add: apply_execution_report_def wal_append_eq fill_event_def Let_def)
  moreover have "simulates env (Fill symb r) g S (Some (halt_and_trip symb ?g1))" if "\<not> logged"
    using sim_halt_logged [OF inv _ ok] w that op by simp
  moreover have "simulates env (Fill symb r) g S (Some (True, ?g'))" if logged
    by (rule simulatesI [OF spec_filled [OF op sx f] settle_fill_inv [OF inv s i x k [symmetric] f l(2,3)]])
      (use w that ok op in \<open>simp add: logs_def settle_fill_def Let_def\<close>)
  ultimately show ?thesis by simp
qed

lemma fill_step:
  assumes inv: "gw_inv g S" and env: "env_ok env" and safe: "fill_safe g S symb r"
  shows "simulates env (Fill symb r) g S (apply_execution_report env symb r g)"
proof (cases "symb < kSymbols")
  case s: True
  let ?xs = "se_orders (gw_states g symb)"
  note D = gw_invD [OF inv]
  show ?thesis
  proof (cases "first_slot (\<lambda>x. ao_order_id x = er_order_id r \<and> ao_state x \<noteq> 0) ?xs")
    case None
    then show ?thesis using s D(1) by (simp add: apply_execution_report_def sim_halt [OF inv])
  next
    case first: (Some i)
    show ?thesis
    proof (cases "er_filled_quantity r \<le> 0 \<or> er_filled_quantity r > ao_qty (?xs ! i) \<or> sp_open S (er_order_id r) = None")
      case True
      then show ?thesis
        using first s D(1) rc_contains_open [OF inv] by (auto simp: apply_execution_report_def Let_def sim_halt [OF inv])
    next
      case False
      then obtain x where x: "sp_open S (er_order_id r) = Some x" by blast
      have i: "?xs ! i \<in> set ?xs" "ao_order_id (?xs ! i) = er_order_id r" "ao_state (?xs ! i) \<noteq> 0"
        using first by (auto simp: first_slot_Some)
      have sx: "ao_symbol_idx x = symb"
      proof (rule ccontr)
        assume ne: "ao_symbol_idx x \<noteq> symb"
        then have "live (?xs ! i)" using safe x i by (auto simp: fill_safe_def stale_fill_def live_def)
        then have "sp_open S (er_order_id r) = Some (?xs ! i)" using D(2) s i unfolding open_ok_def by blast
        moreover have "ao_symbol_idx (?xs ! i) = symb" using D(7) [OF s] i(1) \<open>live (?xs ! i)\<close> by (auto simp: slots_ok_def slot_ok_def)
        ultimately show False using x ne by simp
      qed
      then have "?xs ! i = x" using find_live [OF inv x] first by (metis option.inject)
      then show ?thesis using fill_open [OF inv env _ x sx] safe False by (simp add: fill_safe_def)
    qed
  qed
qed (use inv in \<open>simp add: apply_execution_report_def sim_refused\<close>)

section \<open>Admission\<close>

lemma token_back:
  assumes "gw_inv g S" "try_acquire (gw_rate_limiter g) = (True, l)"
  shows "gw_inv (release_token (g\<lparr>gw_rate_limiter := l\<rparr>)) S"
proof -
  let ?p = "rl_pending (gw_rate_limiter g)"
  have l: "l = (gw_rate_limiter g)\<lparr>rl_pending := ?p + 1\<rparr>" "?p < rl_max_pending (gw_rate_limiter g)"
    using assms(2) by (auto simp: try_acquire_def split: if_splits)
  then have "?p + 1 \<noteq> 0" using unat_inc [OF l(2)] by (metis unat_0 nat.distinct(1))
  then have "rl_release l = gw_rate_limiter g" using l(1) by (simp add: rl_release_def)
  then have "release_token (g\<lparr>gw_rate_limiter := l\<rparr>) = g" by (cases g) (simp add: release_token_def)
  then show ?thesis using assms(1) by simp
qed

lemma limiter_open:
  fixes m :: "u64 \<rightharpoonup> ActiveOrder"
  assumes "unat (rl_pending l) = card (dom m)" "m k = None" "try_acquire l = (True, l')"
  shows "unat (rl_pending l') = card (dom (m(k \<mapsto> x)))" "rl_pending l' \<le> rl_max_pending l'"
    "rl_max_pending l' = rl_max_pending l" "card (dom m) < unat (rl_max_pending l)"
proof -
  have l: "l' = l\<lparr>rl_pending := rl_pending l + 1\<rparr>" "rl_pending l < rl_max_pending l"
    using assms(3) by (auto simp: try_acquire_def split: if_splits)
  have "card (dom (m(k \<mapsto> x))) = Suc (card (dom m))" using assms(2) by (simp add: domIff)
  then show "unat (rl_pending l') = card (dom (m(k \<mapsto> x)))" using l assms(1) unat_inc [OF l(2)] by simp
  show "rl_pending l' \<le> rl_max_pending l'" using l unat_inc [OF l(2)] by (simp add: word_le_nat_alt word_less_nat_alt)
  show "rl_max_pending l' = rl_max_pending l" "card (dom m) < unat (rl_max_pending l)"
    using l assms(1) by (simp_all add: word_less_nat_alt)
qed

text \<open>With fewer than 64 live orders there is a free slot.\<close>

lemma free_slot:
  assumes "slots_ok symb (se_orders st)" "totals_ok p n st" "unat (rs_order_count (se_risk st)) < kMaxActiveOrders"
  obtains i where "first_slot (\<lambda>x. ao_state x = 0 \<or> ao_state x = 3) (se_orders st) = Some i" "i < kMaxActiveOrders"
    "\<not> live (se_orders st ! i)" "\<And>j. j < i \<Longrightarrow> live (se_orders st ! j)"
proof (cases "first_slot (\<lambda>x. ao_state x = 0 \<or> ao_state x = 3) (se_orders st)")
  case None
  then have "\<forall>x\<in>set (se_orders st). live x" by (auto simp: first_slot_None live_def)
  then have "osum (\<lambda>_. 1) (se_orders st) = int kMaxActiveOrders"
    using osum_count_full [of "se_orders st"] assms(1) by (simp add: slots_ok_def)
  then have "int (unat (rs_order_count (se_risk st))) = 64" using assms(2) by (simp add: totals_ok_def)
  then show ?thesis using assms(3) by linarith
next
  case (Some i)
  then show ?thesis using that assms(1) by (auto simp: first_slot_Some slots_ok_def live_def)
qed

lemma reserve_inv:
  assumes inv: "gw_inv g S" and s: "oi_symbol_idx intent < kSymbols" and q: "0 < oi_qty intent" "i64 (oi_qty intent)" "i64 (oi_price intent)"
    and k: "k = ucast (oi_client_order_id intent)" "k \<noteq> 0" "sp_open S k = None"
    and a: "try_acquire (gw_rate_limiter g) = (True, t)"
    and c: "unat (rs_order_count (se_risk (gw_states g (oi_symbol_idx intent)))) < kMaxActiveOrders"
    and l: "rc_inv kLedgerCapacity l" "rc_lookup kLedgerCapacity l = (rc_lookup kLedgerCapacity (gw_reconciliation g))(k \<mapsto> oi_qty intent)"
  obtains g' where "reserve_order_slot intent (g\<lparr>gw_rate_limiter := t, gw_reconciliation := l\<rparr>) = (True, g')"
    "gw_inv g' (S\<lparr>sp_open := (sp_open S)(k \<mapsto> order_of intent)\<rparr>)" "gw_recovery_ledger g' = gw_recovery_ledger g"
    "gw_audit_log g' = gw_audit_log g"
proof -
  let ?symb = "oi_symbol_idx intent" and ?g = "g\<lparr>gw_rate_limiter := t, gw_reconciliation := l\<rparr>"
  let ?y = "order_of intent" and ?S = "S\<lparr>sp_open := (sp_open S)(k \<mapsto> order_of intent)\<rparr>"
  note D = gw_invD [OF inv]
  obtain i where i: "first_slot (\<lambda>x. ao_state x = 0 \<or> ao_state x = 3) (se_orders (gw_states g ?symb)) = Some i" "i < kMaxActiveOrders"
    "\<not> live (se_orders (gw_states g ?symb) ! i)" "\<And>j. j < i \<Longrightarrow> live (se_orders (gw_states g ?symb) ! j)"
    using free_slot [OF D(7,8) [OF s] c] by blast
  let ?st = "(upd_risk (reserve_risk intent) \<circ> upd_order i ?y) (gw_states g ?symb)"
  let ?g' = "upd_state ?symb (upd_risk (reserve_risk intent) \<circ> upd_order i ?y) ?g"
  have r: "reserve_order_slot intent ?g = (True, ?g')" using i(1) c by (simp add: reserve_order_slot_def Let_def)
  have y: "live ?y" "slot_ok ?symb ?y" "ao_order_id ?y = k" "ao_qty ?y = oi_qty intent" using q k
    by (simp_all add: live_def slot_ok_def order_of_def)
  have w: "writable k i (se_orders (gw_states g ?symb))"
    using i k open_okD [OF D(2) s] by (auto simp: writable_def) (metis option.distinct(1))
  have inc: "unat (rs_order_count (se_risk (gw_states g ?symb)) + 1) = Suc (unat (rs_order_count (se_risk (gw_states g ?symb))))"
    using c by (intro unat_inc [of _ "64"]) (simp add: word_less_nat_alt)
  have "rs_order_count (se_risk ?st) = rs_order_count (se_risk (gw_states g ?symb)) + 1" by (simp add: reserve_risk_def)
  then have "int (unat (rs_order_count (se_risk ?st))) = int (unat (rs_order_count (se_risk (gw_states g ?symb)))) + 1"
    by (simp only: inc)
  then have "totals_ok (sp_position S ?symb) (sp_notional S ?symb) ?st"
    by (intro totals_put [OF D(8) [OF s], where i = i and y = ?y and dn = "open_qty ?y" and dg = "open_notional ?y"])
      (use i y D(7) [OF s] in \<open>simp_all add: slots_ok_def\<close>,
        simp_all add: reserve_risk_def signed_qty_delta_s64 open_qty_def open_notional_def order_of_def signed_qty_bit)
  then have "gw_inv ?g' ?S"
    using limiter_open(1) [OF D(5) k(3) a, of ?y] limiter_open(2,3) [OF D(5) k(3) a] y l D(1) k i(3)
    by (intro gw_inv_put [OF inv s w _ y(2), where st = ?st]) simp_all
  then show thesis using that r by simp
qed

text \<open>The roll-back finds the slot just reserved and undoes the reservation.\<close>

lemma abort_inv:
  assumes inv: "gw_inv g S" and k: "k = ucast (oi_client_order_id intent)" "sp_open S k = Some (order_of intent)"
  obtains g' where "abort_order intent g = Some g'" "gw_inv g' (spec_close k S)" "gw_recovery_ledger g' = gw_recovery_ledger g"
proof -
  let ?x = "order_of intent" and ?symb = "oi_symbol_idx intent"
  obtain i where s: "?symb < kSymbols" and i: "i < kMaxActiveOrders" and x: "se_orders (gw_states g ?symb) ! i = ?x" "live ?x"
    using find_live [OF inv k(2), of ?symb] by (auto simp: order_of_def)
  note D = gw_invD [OF inv]
  have lv: "live (se_orders (gw_states g ?symb) ! i)" using x by simp
  note X = gw_inv_live [OF inv s i lv, unfolded x(1)]
  have id: "ao_order_id ?x = k" using k(1) by (simp add: order_of_def)
  obtain l where l: "ledger_cancel k g = Some (True, g\<lparr>gw_reconciliation := l\<rparr>)" "rc_inv kLedgerCapacity l"
    "rc_lookup kLedgerCapacity l = (rc_lookup kLedgerCapacity (gw_reconciliation g))(k := None)"
    using ledger_cancel_open [OF inv k(2)] X(3) id by auto
  have first: "first_slot (\<lambda>y. ao_order_id y = k) (se_orders (gw_states g ?symb)) = Some i"
    using slots_okD [OF D(7) [OF s] i] i x id by (auto simp: first_slot_Some)
  let ?r = "(release_reservation (oi_side intent) (oi_qty intent) (oi_price intent) \<circ> dec_count)"
  let ?g' = "release_token (upd_state ?symb (upd_risk ?r \<circ> upd_order i empty_order) (g\<lparr>gw_reconciliation := l\<rparr>))"
  let ?R = "release_reservation (oi_side intent) (oi_qty intent) (oi_price intent) (se_risk (gw_states g ?symb))"
  have r: "?r (se_risk (gw_states g ?symb)) = dec_count ?R"
    using totals_i64 [OF D(8) [OF s]] by (simp add: release_reservation_eq dec_count_def)
  have "gw_inv ?g' (spec_close k S)"
    by (rule gw_inv_close [OF inv s i x, where f = 0 and y = empty_order and r = ?R and
          st = "(upd_risk ?r \<circ> upd_order i empty_order) (gw_states g ?symb)"])
      (use l(2,3) id D(1) r totals_i64 [OF D(8) [OF s]] in \<open>simp_all add: release_reservation_eq spec_close_def\<close>,
        simp_all add: order_of_def signed_qty_def)
  moreover have "abort_order intent g = Some (breaker_failure (oi_now_ns intent) (count_reject ?symb ?g'))"
    using l(1) first k(1) by (simp add: abort_order_def release_order_slot_def Let_def)
  ultimately show thesis using that by simp
qed

definition build_result :: "(RiskDecision \<times> OutboundPacket \<times> ExecutionGateway) option \<Rightarrow> (bool \<times> ExecutionGateway) option" where
  "build_result = map_option (\<lambda>(d, _, g). (rd_pass d, g))"

lemma refuse_sel [simp]: "rd_pass (refuse bits d) = False"
  by (simp add: refuse_def)

lemma register_refused: "register_order cap l k q = (False, l') \<Longrightarrow> l' = l"
  by (auto simp: register_order_def split: if_splits option.splits)

lemma register_accepted:
  assumes "gw_inv g S" "register_order kLedgerCapacity (gw_reconciliation g) k q = (True, l)"
  shows "k \<noteq> 0" "0 < q" "sp_open S k = None" "rc_inv kLedgerCapacity l"
    "rc_lookup kLedgerCapacity l = (rc_lookup kLedgerCapacity (gw_reconciliation g))(k \<mapsto> q)"
  using register_spec [OF gw_invD(3) [OF assms(1)], of k q] assms(2) gw_invD(4) [OF assms(1)] by (auto split: if_splits)

text \<open>The two logs, once the order is reserved.\<close>

lemma logs_step:
  assumes inv: "gw_inv g (S\<lparr>sp_open := (sp_open S)(k \<mapsto> order_of intent)\<rparr>)" (is "gw_inv g ?S") and env: "env_ok env"
    and k: "k = ucast (oi_client_order_id intent)" "k \<noteq> 0" "sp_open S k = None"
    and q: "0 < oi_qty intent" "i64 (oi_qty intent)" "i64 (oi_price intent)" and d: "rd_pass d"
    and room: "card (dom (sp_open S)) < unat (sp_limit S)"
  shows "simulates env (Build intent pk) g S (build_result
    (case audit_append env (oi_now_ns intent) k (oi_price intent) (oi_qty intent) (oi_side intent) 0x41 g of
       None \<Rightarrow> None
     | Some (audited, g) \<Rightarrow>
         if \<not> audited then map_option (\<lambda>g. (refuse kRejectHalted d, no_packet packet, g)) (abort_order intent g)
         else case wal_append env \<lparr>re_type = kAdd, re_order_id = k, re_quantity = oi_qty intent,
             re_price = oi_price intent, re_side = oi_side intent, re_timestamp_ns = oi_now_ns intent\<rparr> g of
           None \<Rightarrow> None
         | Some (logged, g) \<Rightarrow>
             if \<not> logged then map_option (\<lambda>g. (refuse kRejectHalted d, no_packet packet, g)) (abort_order intent g)
             else Some (d, packet, g)))"
proof -
  obtain audited l where a: "audit_append env (oi_now_ns intent) k (oi_price intent) (oi_qty intent) (oi_side intent) 0x41 g =
      Some (audited, g\<lparr>gw_audit_log := l\<rparr>)" "\<And>S. gw_inv (g\<lparr>gw_audit_log := l\<rparr>) S = gw_inv g S"
    using audit_append_returns [OF env inv] by metis
  obtain logged w where w: "wal_write env (add_event intent) (gw_recovery_ledger g) = Some (logged, w)"
    using wal_write_returns [OF env] by blast
  have ev: "\<lparr>re_type = kAdd, re_order_id = k, re_quantity = oi_qty intent, re_price = oi_price intent,
      re_side = oi_side intent, re_timestamp_ns = oi_now_ns intent\<rparr> = add_event intent" by (simp add: add_event_def k)
  have undo: "spec_close k ?S = S" using k(3) by (simp add: spec_close_def fun_upd_idem)
  let ?g1 = "g\<lparr>gw_audit_log := l\<rparr>" and ?g2 = "g\<lparr>gw_audit_log := l, gw_recovery_ledger := w\<rparr>"
  have open_k: "sp_open ?S k = Some (order_of intent)" by simp
  have inv1: "gw_inv ?g1 ?S" and inv2: "gw_inv ?g2 ?S" using a(2) inv by simp_all
  obtain h1 where h1: "abort_order intent ?g1 = Some h1" "gw_inv h1 S" "gw_recovery_ledger h1 = gw_recovery_ledger g"
    using abort_inv [OF inv1 k(1) open_k] undo by auto
  obtain h2 where h2: "abort_order intent ?g2 = Some h2" "gw_inv h2 S" "gw_recovery_ledger h2 = w"
    using abort_inv [OF inv2 k(1) open_k] undo by auto
  have id: "oi_client_order_id intent \<noteq> 0" using k(1,2) by auto
  have ok: "event_ok (add_event intent)"
    using q k by (simp add: event_ok_def add_event_def)
  have "simulates env (Build intent pk) g S (Some (False, h1))"
    by (rule simulatesI [OF spec_refused h1(2)]) (simp add: h1(3))
  moreover have "simulates env (Build intent pk) g S (Some (False, h2))" if "\<not> logged"
    by (rule simulatesI [OF spec_refused h2(2)]) (use that w ok in \<open>simp add: logs_def h2(3)\<close>)
  moreover have "simulates env (Build intent pk) g S (Some (True, ?g2))" if logged
    by (rule simulatesI [OF spec_build [OF _ id q(1) room]]) (use k inv2 that w ok in \<open>simp_all add: logs_def\<close>)
  ultimately show ?thesis
    using a(1) w h1(1) h2(1) d by (simp add: ev wal_append_eq build_result_def)
qed

lemma commit_step:
  assumes inv: "gw_inv g S" and env: "env_ok env" and s: "oi_symbol_idx intent < kSymbols"
    and q: "i64 (oi_qty intent)" "i64 (oi_price intent)" and d: "rd_pass d"
    and a: "try_acquire (gw_rate_limiter g) = (True, t)"
    and c: "unat (rs_order_count (se_risk (gw_states g (oi_symbol_idx intent)))) < kMaxActiveOrders"
  shows "simulates env (Build intent pk) g S (build_result (commit_order env intent d packet (g\<lparr>gw_rate_limiter := t\<rparr>)))"
proof -
  let ?k = "ucast (oi_client_order_id intent) :: u64" and ?g = "g\<lparr>gw_rate_limiter := t\<rparr>"
  obtain registered l where r: "register_order kLedgerCapacity (gw_reconciliation g) ?k (oi_qty intent) = (registered, l)"
    by (cases "register_order kLedgerCapacity (gw_reconciliation g) ?k (oi_qty intent)")
  show ?thesis
  proof (cases registered)
    case False
    then have "?g\<lparr>gw_reconciliation := l\<rparr> = ?g" using r register_refused by (cases g) auto
    then have "build_result (commit_order env intent d packet ?g) = Some (False, breaker_failure (oi_now_ns intent)
        (count_reject (oi_symbol_idx intent) (release_token ?g)))"
      using r False by (simp add: commit_order_def Let_def build_result_def)
    then show ?thesis using token_back [OF inv a] inv by (simp add: sim_refused)
  next
    case True
    then have "register_order kLedgerCapacity (gw_reconciliation g) ?k (oi_qty intent) = (True, l)" using r by simp
    note R = register_accepted [OF inv this]
    obtain g1 where g1: "reserve_order_slot intent (?g\<lparr>gw_reconciliation := l\<rparr>) = (True, g1)"
      "gw_inv g1 (S\<lparr>sp_open := (sp_open S)(?k \<mapsto> order_of intent)\<rparr>)" "gw_recovery_ledger g1 = gw_recovery_ledger g"
      using reserve_inv [OF inv s R(2) q refl R(1,3) a c R(4,5)] by auto
    have "card (dom (sp_open S)) < unat (sp_limit S)"
      using limiter_open(4) [OF gw_invD(5) [OF inv] R(3) a] gw_invD(9) [OF inv] by simp
    note L = logs_step [OF g1(2) env refl R(1,3,2) q d this, of pk packet]
    then show ?thesis
      using r True g1 by (simp add: commit_order_def Let_def simulates_def)
  qed
qed

text \<open>The branches of \<open>try_build\<close> before the order is committed.\<close>

lemma try_build_eq:
  fixes g intent pk
  defines "symb \<equiv> oi_symbol_idx intent" and "d \<equiv> evaluate (gw_risk g) (\<lambda>s. se_risk (gw_states g s)) intent"
  assumes "gw_arena g" "symb < kSymbols" and b: "allow_at (oi_now_ns intent) (gw_breaker g) = (allowed, b)"
    and t: "try_acquire (gw_rate_limiter g) = (acquired, t)"
    and e: "build_enter_order (gw_ouch g) intent (no_packet pk) = (built, packet)"
  shows "build_result (try_build env intent pk g) =
    (let g1 = g\<lparr>gw_breaker := b\<rparr>; g2 = g1\<lparr>gw_rate_limiter := t\<rparr> in
     if \<not> allowed then Some (False, halt_state symb (count_reject symb g1))
     else if \<not> acquired then Some (False, halt_state symb (count_reject symb g2))
     else if \<not> rd_pass d then Some (False, count_reject symb (release_token g2))
     else if \<not> unat (rs_order_count (se_risk (gw_states g symb))) < kMaxActiveOrders
       then Some (False, halt_state symb (count_reject symb (release_token g2)))
     else if \<not> built then Some (False, count_reject symb (release_token g2))
     else build_result (commit_order env intent d (packet\<lparr>pk_len := pk_len packet AND 255\<rparr>) g2))"
  using assms(3-) unfolding symb_def d_def
  by (simp add: try_build_def Let_def build_result_def)

lemma build_step:
  assumes inv: "gw_inv g S" and env: "env_ok env" and q: "i64 (oi_qty intent)" "i64 (oi_price intent)"
  shows "simulates env (Build intent pk) g S (build_result (try_build env intent pk g))"
proof (cases "oi_symbol_idx intent < kSymbols")
  case s: True
  let ?symb = "oi_symbol_idx intent"
  obtain allowed b where b: "allow_at (oi_now_ns intent) (gw_breaker g) = (allowed, b)" by (cases "allow_at (oi_now_ns intent) (gw_breaker g)")
  obtain acquired t where t: "try_acquire (gw_rate_limiter g) = (acquired, t)" by (cases "try_acquire (gw_rate_limiter g)")
  obtain built packet where e: "build_enter_order (gw_ouch g) intent (no_packet pk) = (built, packet)"
    by (cases "build_enter_order (gw_ouch g) intent (no_packet pk)")
  define g1 where "g1 = g\<lparr>gw_breaker := b\<rparr>"
  have inv1: "gw_inv g1 S" and w1: "gw_recovery_ledger g1 = gw_recovery_ledger g" using inv by (simp_all add: g1_def)
  have t1: "try_acquire (gw_rate_limiter g1) = (acquired, t)" using t by (simp add: g1_def)
  have inv2: "gw_inv (g1\<lparr>gw_rate_limiter := t\<rparr>) S" if "\<not> acquired"
  proof -
    have "g1\<lparr>gw_rate_limiter := t\<rparr> = g1" using t1 that by (cases g1) (auto simp: try_acquire_def split: if_splits)
    then show ?thesis using inv1 by simp
  qed
  have undo: "gw_inv (release_token (g1\<lparr>gw_rate_limiter := t\<rparr>)) S" if acquired
    using token_back [OF inv1, of t] t1 that by simp
  note R = try_build_eq [OF gw_invD(1) [OF inv] s b t e, of env, unfolded Let_def, folded g1_def]
  have no: "simulates env (Build intent pk) g S (Some (False, g'))" if "gw_inv g' S" "gw_recovery_ledger g' = gw_recovery_ledger g1" for g'
    using sim_refused [OF inv that(1)] that(2) w1 by simp
  have commit: "simulates env (Build intent pk) g S (build_result (commit_order env intent d p (g1\<lparr>gw_rate_limiter := t\<rparr>)))"
    if "acquired" "rd_pass d" "unat (rs_order_count (se_risk (gw_states g ?symb))) < kMaxActiveOrders" for d p
    using commit_step [OF inv1 env s q that(2), of t pk p] t1 that w1 by (simp add: simulates_def g1_def)
  show ?thesis
    unfolding R using no inv1 inv2 undo commit by (auto split: if_split)
qed (use inv in \<open>simp add: try_build_def build_result_def Let_def sim_refused\<close>)

section \<open>Every operation\<close>

lemma amend_step:
  assumes inv: "gw_inv g S" and env: "env_ok env"
  shows "simulates env (Amend intent pk) g S (build_result (try_replace env intent pk g))"
proof (cases "ri_symbol_idx intent < kSymbols")
  case s: True
  let ?symb = "ri_symbol_idx intent" and ?k = "ucast (ri_original_order_id intent) :: u64"
  note D = gw_invD [OF inv]
  obtain allowed b where b: "allow_at (ri_now_ns intent) (gw_breaker g) = (allowed, b)" by (cases "allow_at (ri_now_ns intent) (gw_breaker g)")
  let ?first = "first_slot (\<lambda>x. ao_order_id x = ?k \<and> ao_state x \<noteq> 0 \<and> ao_state x \<noteq> 3) (se_orders (gw_states g ?symb))"
  show ?thesis
  proof (cases "allowed \<and> sp_open S ?k \<noteq> None \<and> ?first \<noteq> None")
    case False
    then show ?thesis
      using b s D(1) inv rc_contains_open [OF inv, of ?k]
      by (cases allowed; cases "sp_open S ?k"; cases ?first) (simp_all add: try_replace_def Let_def build_result_def sim_refused)
  next
    case True
    then obtain i where first: "?first = Some i" by auto
    then have i: "i < kMaxActiveOrders" "live (se_orders (gw_states g ?symb) ! i)" "ao_order_id (se_orders (gw_states g ?symb) ! i) = ?k"
      using D(7) [OF s] by (auto simp: first_slot_Some slots_ok_def live_def)
    note X = gw_inv_live [OF inv s i(1,2), unfolded i(3)]
    let ?x = "se_orders (gw_states g ?symb) ! i" and ?g = "g\<lparr>gw_breaker := b\<rparr>"
    let ?d = "evaluate (gw_risk g) (\<lambda>s. se_risk (gw_states g s))
      \<lparr>oi_symbol_idx = ?symb, oi_side = ao_side ?x, oi_qty = ri_new_qty intent, oi_price = ri_new_price intent,
       oi_alpha_timestamp_ns = ri_alpha_timestamp_ns intent, oi_now_ns = ri_now_ns intent,
       oi_client_order_id = ri_replacement_order_id intent, oi_time_in_force = ri_time_in_force intent\<rparr>"
    obtain built packet where e: "build_replace_order (gw_ouch g) intent (no_packet pk) = (built, packet)"
      by (cases "build_replace_order (gw_ouch g) intent (no_packet pk)")
    have inv1: "gw_inv ?g S" using inv by simp
    obtain audited l where a: "audit_append env (ri_now_ns intent) (ucast (ri_replacement_order_id intent)) (ri_new_price intent)
        (ri_new_qty intent) (ao_side ?x) 0x55 ?g = Some (audited, ?g\<lparr>gw_audit_log := l\<rparr>)"
      "\<And>S. gw_inv (?g\<lparr>gw_audit_log := l\<rparr>) S = gw_inv ?g S"
      using audit_append_returns [OF env inv1] by metis
    have yes: "simulates env (Amend intent pk) g S (Some (True, ?g\<lparr>gw_audit_log := l\<rparr>))"
      by (rule simulatesI [OF spec_amend [OF X(1,2)]]) (use a(2) inv1 in \<open>simp_all add: logs_def\<close>)
    show ?thesis
      using True b s D(1) rc_contains_open [OF inv, of ?k] first e a inv inv1 yes
      by (cases "rd_pass ?d"; cases built; cases audited) (simp_all add: try_replace_def Let_def build_result_def sim_refused)
  qed
qed (use inv in \<open>simp add: try_replace_def build_result_def Let_def sim_refused\<close>)

lemma cancel_open_step:
  assumes inv: "gw_inv g S" and env: "env_ok env"
  shows "simulates env (CancelOpen k) g S (cancel_order env k g)"
  using cancel_step [OF inv env, of "CancelOpen k"] inv by (auto simp: cancel_order_def sim_refused split: option.split)

lemma resume_inv: "gw_inv (upd_state symb (upd_risk (\<lambda>r. r\<lparr>rs_halted := 0\<rparr>)) g) S = gw_inv g S"
  by (rule gw_inv_risk) (simp add: same_totals_def)

lemma halt_step:
  assumes "gw_inv g S"
  shows "simulates env (Halt symb) g S (Some (True, halt_symbol symb g))"
    "simulates env (Resume symb) g S (Some (True, resume_symbol symb g))"
  by (rule simulatesI [OF spec_halt]; simp add: assms halt_symbol_def logs_def)
    (rule simulatesI [OF spec_resume]; simp add: assms resume_symbol_def resume_inv logs_def)

text \<open>The operations the contract covers: 64-bit arguments, and reports that can be reconciled.\<close>

primrec op_ok :: "ExecutionGateway \<Rightarrow> GatewaySpec \<Rightarrow> gateway_op \<Rightarrow> bool" where
  "op_ok g S (Build intent packet) \<longleftrightarrow> i64 (oi_qty intent) \<and> i64 (oi_price intent)"
| "op_ok g S (Amend intent packet) \<longleftrightarrow> True"
| "op_ok g S (Fill symb r) \<longleftrightarrow> fill_safe g S symb r"
| "op_ok g S (CancelAck symb k) \<longleftrightarrow> True"
| "op_ok g S (ReplaceAck symb k q p) \<longleftrightarrow> i64 q \<and> i64 p"
| "op_ok g S (RejectAck symb k) \<longleftrightarrow> True"
| "op_ok g S (CancelOpen k) \<longleftrightarrow> True"
| "op_ok g S (Halt symb) \<longleftrightarrow> True"
| "op_ok g S (Resume symb) \<longleftrightarrow> True"

lemma gateway_step:
  assumes "gw_inv g S" "env_ok env" "op_ok g S op"
  shows "simulates env op g S (gateway_exec env op g)"
proof (cases op)
  case (Build intent pk)
  then show ?thesis using build_step [OF assms(1,2), of intent pk] assms(3) by (simp add: build_result_def)
next
  case (Amend intent pk)
  then show ?thesis using amend_step [OF assms(1,2), of intent pk] by (simp add: build_result_def)
next
  case (Fill symb r)
  then show ?thesis using fill_step [OF assms(1,2)] assms(3) by simp
next
  case (CancelAck symb k)
  then show ?thesis using cancel_step [OF assms(1,2)] by simp
next
  case (ReplaceAck symb k q p)
  then show ?thesis using replace_step [OF assms(1,2)] assms(3) by simp
next
  case (RejectAck symb k)
  then show ?thesis using reject_step [OF assms(1)] by simp
next
  case (CancelOpen k)
  then show ?thesis using cancel_open_step [OF assms(1,2)] by simp
qed (use halt_step [OF assms(1)] in simp_all)

end
