(* ===== verification/Gateway_Properties.thy ===== *)
theory Gateway_Properties
  imports Gateway_Steps
begin

text \<open>
  The properties of the gateway: the refinement of its contract, the accounting of reachable
  states, exactly when an order is admitted, what the recovery log rebuilds, and the rejection that
  the log does not see.
\<close>

section \<open>Runs\<close>

definition empty_spec :: "u32 \<Rightarrow> GatewaySpec" where
  "empty_spec limit = \<lparr>sp_open = Map.empty, sp_position = (\<lambda>_. 0), sp_notional = (\<lambda>_. 0), sp_limit = limit\<rparr>"

definition start_gateway :: "u32 \<Rightarrow> RecoveryLedger option \<Rightarrow> ExecutionGateway" where
  "start_gateway limit w =
     set_recovery_ledger w (snd (gateway_init True (new_gateway limit (\<lambda>_. zero_exec_state))))"

lemma zero_orders: "\<not> live x" if "x \<in> set (se_orders zero_exec_state)"
  using that by (simp add: zero_exec_state_def)

lemma start_inv: "gw_inv (start_gateway limit w) (empty_spec limit)"
proof -
  have o: "osum f (se_orders zero_exec_state) = 0" for f
    by (simp add: osum_def zero_exec_state_def sum_list_replicate)
  have "slots_ok symb (se_orders zero_exec_state)" for symb
    by (simp add: slots_ok_def zero_exec_state_def)
  moreover have "totals_ok 0 0 zero_exec_state"
    unfolding totals_ok_def o by (simp add: zero_exec_state_def s64_def)
  moreover have "open_ok Map.empty (\<lambda>_. zero_exec_state)" using zero_orders by (auto simp: open_ok_def)
  ultimately show ?thesis
    using new_ledger_inv [OF is_capacity_default]
    by (simp add: gw_inv_def start_gateway_def set_recovery_ledger_def gateway_init_def new_gateway_def risk_init_def
        empty_spec_def new_limiter_def)
qed

text \<open>
  The calls that configure a gateway: another \<open>init\<close>, the limits of a symbol, the audit log (whose last
  hash is an array of 32 bytes), the fill callback, and any operation on the breaker that
  \<open>circuit_breaker()\<close> hands out.
\<close>

inductive config_step :: "ExecutionGateway \<Rightarrow> ExecutionGateway \<Rightarrow> bool" where
  config_init: "gateway_init True g = (ok, g') \<Longrightarrow> config_step g g'"
| config_limits: "set_limits symb lim (gw_risk g) = (ok, r) \<Longrightarrow> config_step g (g\<lparr>gw_risk := r\<rparr>)"
| config_audit: "(\<forall>l. log = Some l \<longrightarrow> length (al_tail l) = 32) \<Longrightarrow> config_step g (set_audit_log log g)"
| config_callback: "config_step g (set_fill_event_callback callback g)"
| config_breaker: "config_step g (g\<lparr>gw_breaker := cb_exec (gw_breaker g) e\<rparr>)"

lemma config_keeps: "config_step g g' \<Longrightarrow> gw_inv g S \<Longrightarrow> gw_inv g' S \<and> gw_recovery_ledger g' = gw_recovery_ledger g"
  by (induction rule: config_step.induct)
    (auto simp: gw_inv_def gateway_init_def risk_init_def set_audit_log_def set_fill_event_callback_def split: prod.splits if_splits option.split)

text \<open>
  The states a gateway reaches, with what the contract says happened so far: from a fresh start, through
  operations, configuration calls and changes of the write-ahead log, in any order and with any
  answers of the system, as long as every fill satisfies \<open>fill_safe\<close>.
\<close>

inductive gateway_reach :: "u32 \<Rightarrow> ExecutionGateway \<Rightarrow> GatewaySpec \<Rightarrow> bool" for limit where
  reach_start: "gateway_reach limit (start_gateway limit w) (empty_spec limit)"
| reach_config: "gateway_reach limit g S \<Longrightarrow> config_step g g' \<Longrightarrow> gateway_reach limit g' S"
| reach_log: "gateway_reach limit g S \<Longrightarrow> gateway_reach limit (set_recovery_ledger w g) S"
| reach_step: "gateway_reach limit g S \<Longrightarrow> env_ok env \<Longrightarrow> op_ok g S op \<Longrightarrow> gateway_exec env op g = Some (ok, g') \<Longrightarrow>
    spec_step op ok S S' \<Longrightarrow> gateway_reach limit g' S'"

inductive_cases spec_stepE: "spec_step op ok S S'"

lemma spec_step_det: "spec_step op ok S S1 \<Longrightarrow> spec_step op ok S S2 \<Longrightarrow> S1 = S2"
  by (elim spec_stepE) simp_all

lemma spec_step_limit: "spec_step op ok S S' \<Longrightarrow> sp_limit S' = sp_limit S"
  by (induction rule: spec_step.induct) (simp_all add: spec_fill_def spec_close_def Let_def)

lemma exec_step:
  assumes "gw_inv g S" "env_ok env" "op_ok g S op" "gateway_exec env op g = Some (ok, g')" "spec_step op ok S S'"
  shows "gw_inv g' S'" "logs env (op_event env S op) ok (gw_recovery_ledger g) (gw_recovery_ledger g')"
  using gateway_step [OF assms(1-3)] assms(4,5) spec_step_det unfolding simulates_def by (metis option.inject prod.inject)+

lemma reach_inv: "gateway_reach limit g S \<Longrightarrow> gw_inv g S \<and> sp_limit S = limit"
proof (induction rule: gateway_reach.induct)
  case (reach_start w)
  then show ?case using start_inv by (simp add: empty_spec_def)
next
  case (reach_config g S g')
  then show ?case using config_keeps by blast
next
  case (reach_log g S w)
  then show ?case by (auto simp: gw_inv_def set_recovery_ledger_def)
next
  case (reach_step g S env op ok g' S')
  then show ?case using exec_step(1) spec_step_limit by metis
qed

section \<open>Refinement and accounting\<close>

text \<open>
  C3: The gateway refines its contract.  In every state related to the contract and for every
  operation (admission, amendment, fill, cancel, replace and reject reports, halts) except the two kinds
  of fill named below, however the system answers the log writes, the call returns and makes a step
  that the contract allows: an accepted order was not open, had a token left and is now open with its
  full quantity; a fill moves quantity of an open order of that symbol to the settled position and
  never more than what is left; a close removes exactly that order; a refusal changes no order.  The
  new state is related again.  Excluded (\<open>fill_safe\<close>) are a fill that closes an order and thereby hides
  another open order in the reconciliation ledger, and a fill that names an open order under a symbol
  it was not sent for while a terminal slot of that symbol still carries its id; the code breaks the
  contract on both.
\<close>

theorem gateway_refines:
  assumes "gw_inv g S" "env_ok env" "op_ok g S op"
  shows "\<exists>ok g' S'. gateway_exec env op g = Some (ok, g') \<and> spec_step op ok S S' \<and> gw_inv g' S'"
  using gateway_step [OF assms] by (auto simp: simulates_def)

definition sample_env :: GatewayEnv where
  "sample_env = \<lparr>ge_sha = (\<lambda>_. Some zero_hash), ge_audit_writes = replicate 112 (Wrote 112), ge_audit_synced = True,
     ge_wal_writes = replicate 64 (Wrote 64), ge_wal_synced = True, ge_now_ns = 3000, ge_utc_now_ns = 5000,
     ge_fill_callback = (\<lambda>_. True)\<rparr>"

lemma sample_env_ok: "env_ok sample_env"
  by (simp add: env_ok_def sample_env_def sha_sized_def zero_hash_def)

text \<open>
  C4: The books balance in every state that a run with safe fills reaches (\<open>gateway_reach\<close>: from a fresh
  start through operations, configuration calls and any answers of the system, where no fill hides
  another open order in the ledger or meets a terminal slot of another symbol with its id): each
  symbol's net position and gross exposure are what was filled plus what is still open, computed in
  64-bit arithmetic; its order count is the number of live slots; the reconciliation ledger holds
  exactly the open orders with their remaining quantities; and the tokens taken from the rate limiter
  are exactly the open orders, at most the limit.
\<close>

theorem gateway_accounting:
  assumes "gateway_reach limit g S"
  shows "(\<forall>symb<kSymbols. let st = gw_states g symb; open_orders = filter live (se_orders st) in
      rs_net_position (se_risk st) = s64 (sp_position S symb + (\<Sum>x\<leftarrow>open_orders. signed_qty (ao_side x) (ao_qty x))) \<and>
      rs_gross_exposure (se_risk st) = s64 (sp_notional S symb + (\<Sum>x\<leftarrow>open_orders. ao_price x * ao_qty x)) \<and>
      unat (rs_order_count (se_risk st)) = length open_orders) \<and>
    (\<forall>k q. rc_lookup kLedgerCapacity (gw_reconciliation g) k = Some q \<longleftrightarrow>
      (\<exists>symb<kSymbols. \<exists>x\<in>set (se_orders (gw_states g symb)). live x \<and> ao_order_id x = k \<and> ao_qty x = q)) \<and>
    unat (rl_pending (gw_rate_limiter g)) = card (dom (rc_lookup kLedgerCapacity (gw_reconciliation g))) \<and>
    rl_pending (gw_rate_limiter g) \<le> limit"
proof -
  have inv: "gw_inv g S" "sp_limit S = limit" using reach_inv [OF assms] by simp_all
  note D = gw_invD [OF inv(1)]
  have f: "osum f xs = (\<Sum>x\<leftarrow>filter live xs. f x)" for f xs
    by (simp add: osum_def sum_list_map_filter' [symmetric])
  have n: "osum (\<lambda>_. 1) xs = int (length (filter live xs))" for xs by (induction xs) (simp_all add: osum_def)
  have "rc_lookup kLedgerCapacity (gw_reconciliation g) k = Some q \<longleftrightarrow>
      (\<exists>symb<kSymbols. \<exists>x\<in>set (se_orders (gw_states g symb)). live x \<and> ao_order_id x = k \<and> ao_qty x = q)" for k q
    unfolding D(4) using D(2) by (auto simp: open_ok_def)
  moreover have "dom (rc_lookup kLedgerCapacity (gw_reconciliation g)) = dom (sp_open S)" unfolding D(4) by (auto simp: dom_def)
  moreover have "unat (rs_order_count (se_risk (gw_states g symb))) = length (filter live (se_orders (gw_states g symb)))"
    if "symb < kSymbols" for symb
    using D(8) [OF that] unfolding totals_ok_def n by (simp only: of_nat_eq_iff)
  ultimately show ?thesis
    using D(5,6,8,9) inv(2) by (simp add: Let_def totals_ok_def f open_qty_def open_notional_def)
qed

section \<open>Admission\<close>

text \<open>Whether a log takes the order does not depend on the rest of the gateway.\<close>

definition audit_accepts :: "GatewayEnv \<Rightarrow> OrderIntent \<Rightarrow> ExecutionGateway \<Rightarrow> bool" where
  "audit_accepts env intent g \<longleftrightarrow> map_option fst (audit_append env (oi_now_ns intent) (ucast (oi_client_order_id intent))
     (oi_price intent) (oi_qty intent) (oi_side intent) 0x41 g) = Some True"

definition wal_accepts :: "GatewayEnv \<Rightarrow> OrderIntent \<Rightarrow> ExecutionGateway \<Rightarrow> bool" where
  "wal_accepts env intent g \<longleftrightarrow> map_option fst (wal_append env (add_event intent) g) = Some True"

lemma audit_accepts_cong: "gw_audit_log g' = gw_audit_log g \<Longrightarrow> audit_accepts env intent g' = audit_accepts env intent g"
  by (auto simp: audit_accepts_def audit_append_def option.map_comp comp_def case_prod_unfold split: option.split)

lemma wal_accepts_cong: "gw_recovery_ledger g' = gw_recovery_ledger g \<Longrightarrow> wal_accepts env intent g' = wal_accepts env intent g"
  by (simp add: wal_accepts_def wal_append_eq option.map_comp comp_def case_prod_unfold)

definition admissible :: "GatewayEnv \<Rightarrow> OrderIntent \<Rightarrow> ExecutionGateway \<Rightarrow> GatewaySpec \<Rightarrow> bool" where
  "admissible env intent g S \<longleftrightarrow>
     (let symb = oi_symbol_idx intent; st = gw_states g symb in
      fst (allow_at (oi_now_ns intent) (gw_breaker g)) \<and> card (dom (sp_open S)) < unat (sp_limit S) \<and>
      within_limits (pr_limits (gw_risk g) symb) (se_risk st) intent \<and> length (filter live (se_orders st)) < kMaxActiveOrders \<and>
      oi_client_order_id intent \<noteq> 0 \<and> sp_open S (ucast (oi_client_order_id intent)) = None \<and>
      audit_accepts env intent g \<and> wal_accepts env intent g)"

definition outcome :: "bool \<Rightarrow> RiskDecision \<Rightarrow> OutboundPacket \<Rightarrow> (RiskDecision \<times> OutboundPacket \<times> ExecutionGateway) option \<Rightarrow> bool" where
  "outcome c d packet res \<longleftrightarrow> (\<exists>d' p' g'. res = Some (d', p', g') \<and> (rd_pass d' \<longleftrightarrow> c) \<and>
     (if c then d' = d \<and> p' = packet else pk_len p' = 0 \<and> rd_reject_mask d' \<noteq> kRejectNone))"

lemma or_nonzero: "b \<noteq> 0 \<Longrightarrow> a OR b \<noteq> 0" for a b :: u8
  by (auto simp: bit_eq_iff bit_simps)

lemma order_id_nonzero: "(ucast (v :: u32) :: u64) \<noteq> 0 \<longleftrightarrow> v \<noteq> 0"
proof -
  have "unat (ucast v :: u64) = unat v"
    using word_ranges(2) [of v] by (simp add: unsigned_ucast_eq take_bit_nat_eq_self_iff)
  then show ?thesis by (metis unat_eq_0 unat_0)
qed

lemma outcome_refused:
  "b \<noteq> 0 \<Longrightarrow> outcome False d packet (Some (refuse b d', no_packet p', g'))"
  by (simp add: outcome_def refuse_def no_packet_def kRejectNone_def or_nonzero)

lemma abort_outcome:
  assumes "abort_order intent g = Some h"
  shows "outcome False d packet (map_option (\<lambda>g. (refuse kRejectHalted d, no_packet packet, g)) (abort_order intent g))"
  using assms outcome_refused [of kRejectHalted] by (simp add: kRejectHalted_def)

lemma logs_outcome:
  assumes inv: "gw_inv g (S\<lparr>sp_open := (sp_open S)(k \<mapsto> order_of intent)\<rparr>)" (is "gw_inv g ?S") and env: "env_ok env"
    and k: "k = ucast (oi_client_order_id intent)" and d: "rd_pass d"
  shows "outcome (audit_accepts env intent g \<and> wal_accepts env intent g) d packet
    (case audit_append env (oi_now_ns intent) k (oi_price intent) (oi_qty intent) (oi_side intent) 0x41 g of
       None \<Rightarrow> None
     | Some (audited, g) \<Rightarrow>
         if \<not> audited then map_option (\<lambda>g. (refuse kRejectHalted d, no_packet packet, g)) (abort_order intent g)
         else case wal_append env \<lparr>re_type = kAdd, re_order_id = k, re_quantity = oi_qty intent,
             re_price = oi_price intent, re_side = oi_side intent, re_timestamp_ns = oi_now_ns intent\<rparr> g of
           None \<Rightarrow> None
         | Some (logged, g) \<Rightarrow>
             if \<not> logged then map_option (\<lambda>g. (refuse kRejectHalted d, no_packet packet, g)) (abort_order intent g)
             else Some (d, packet, g))"
proof -
  obtain audited l where a: "audit_append env (oi_now_ns intent) k (oi_price intent) (oi_qty intent) (oi_side intent) 0x41 g =
      Some (audited, g\<lparr>gw_audit_log := l\<rparr>)" "\<And>S. gw_inv (g\<lparr>gw_audit_log := l\<rparr>) S = gw_inv g S"
    using audit_append_returns [OF env inv] by metis
  obtain logged w where w: "wal_write env (add_event intent) (gw_recovery_ledger g) = Some (logged, w)"
    using wal_write_returns [OF env] by blast
  have ev: "\<lparr>re_type = kAdd, re_order_id = k, re_quantity = oi_qty intent, re_price = oi_price intent,
      re_side = oi_side intent, re_timestamp_ns = oi_now_ns intent\<rparr> = add_event intent" by (simp add: add_event_def k)
  let ?g1 = "g\<lparr>gw_audit_log := l\<rparr>" and ?g2 = "g\<lparr>gw_audit_log := l, gw_recovery_ledger := w\<rparr>"
  have open_k: "sp_open ?S k = Some (order_of intent)" by simp
  have inv1: "gw_inv ?g1 ?S" and inv2: "gw_inv ?g2 ?S" using a(2) inv by simp_all
  obtain h1 h2 where h: "abort_order intent ?g1 = Some h1" "abort_order intent ?g2 = Some h2"
    using abort_inv [OF inv1 k open_k] abort_inv [OF inv2 k open_k] by metis
  have "audit_accepts env intent g = audited" "wal_accepts env intent g = logged"
    using a(1) w k by (simp_all add: audit_accepts_def wal_accepts_def wal_append_eq)
  then show ?thesis
    using a(1) w d abort_outcome [OF h(1), of d packet] abort_outcome [OF h(2), of d packet]
    by (simp add: ev wal_append_eq) (simp add: outcome_def)
qed

lemma open_card: "gw_inv g S \<Longrightarrow> card (dom (sp_open S)) \<le> kSymbols * kMaxActiveOrders"
proof -
  assume "gw_inv g S"
  note D = gw_invD [OF this]
  let ?f = "\<lambda>(s, i). ao_order_id (se_orders (gw_states g s) ! i)"
  have "k \<in> ?f ` ({..<kSymbols} \<times> {..<kMaxActiveOrders})" if k: "k \<in> dom (sp_open S)" for k
  proof -
    obtain x s where x: "s < kSymbols" "x \<in> set (se_orders (gw_states g s))" "ao_order_id x = k"
      using D(2) k by (auto simp: open_ok_def)
    then obtain i where "i < kMaxActiveOrders" "se_orders (gw_states g s) ! i = x"
      using D(7) [OF x(1)] by (auto simp: in_set_conv_nth slots_ok_def)
    then show ?thesis using x by (intro image_eqI [of _ _ "(s, i)"]) auto
  qed
  then have "dom (sp_open S) \<subseteq> ?f ` ({..<kSymbols} \<times> {..<kMaxActiveOrders})" by blast
  then have "card (dom (sp_open S)) \<le> card (?f ` ({..<kSymbols} \<times> {..<kMaxActiveOrders}))" by (intro card_mono) simp_all
  also have "\<dots> \<le> card ({..<kSymbols} \<times> {..<kMaxActiveOrders})" by (intro card_image_le) simp
  finally show ?thesis by (simp add: card_cartesian_product)
qed

lemma register_iff:
  assumes "gw_inv g S" "0 < q"
  shows "fst (register_order kLedgerCapacity (gw_reconciliation g) k q) \<longleftrightarrow> k \<noteq> 0 \<and> sp_open S k = None"
proof -
  note D = gw_invD [OF assms(1)]
  have "dom (rc_lookup kLedgerCapacity (gw_reconciliation g)) = dom (sp_open S)" unfolding D(4) by (auto simp: dom_def)
  then have "card (dom (rc_lookup kLedgerCapacity (gw_reconciliation g))) \<noteq> kLedgerCapacity"
    using open_card [OF assms(1)] by simp
  then show ?thesis
    using register_spec [OF D(3), of k q] assms(2) D(4) by (auto split: if_splits)
qed

lemma commit_outcome:
  assumes inv: "gw_inv g S" and env: "env_ok env" and s: "oi_symbol_idx intent < kSymbols"
    and q: "0 < oi_qty intent" "i64 (oi_qty intent)" "i64 (oi_price intent)" and d: "rd_pass d"
    and a: "try_acquire (gw_rate_limiter g) = (True, t)"
    and c: "unat (rs_order_count (se_risk (gw_states g (oi_symbol_idx intent)))) < kMaxActiveOrders"
  shows "outcome (oi_client_order_id intent \<noteq> 0 \<and> sp_open S (ucast (oi_client_order_id intent)) = None \<and>
      audit_accepts env intent g \<and> wal_accepts env intent g) d packet
    (commit_order env intent d packet (g\<lparr>gw_rate_limiter := t\<rparr>))"
proof -
  let ?k = "ucast (oi_client_order_id intent) :: u64" and ?g = "g\<lparr>gw_rate_limiter := t\<rparr>"
  obtain registered l where r: "register_order kLedgerCapacity (gw_reconciliation g) ?k (oi_qty intent) = (registered, l)"
    by (cases "register_order kLedgerCapacity (gw_reconciliation g) ?k (oi_qty intent)")
  have id: "?k \<noteq> 0 \<longleftrightarrow> oi_client_order_id intent \<noteq> 0" by (rule order_id_nonzero)
  show ?thesis
  proof (cases registered)
    case False
    then have "\<not> (oi_client_order_id intent \<noteq> 0 \<and> sp_open S ?k = None)" using register_iff [OF inv q(1), of ?k] r id by simp
    then show ?thesis
      using r False outcome_refused [of kRejectPosition] by (auto simp: commit_order_def Let_def kRejectPosition_def)
  next
    case True
    then have "register_order kLedgerCapacity (gw_reconciliation g) ?k (oi_qty intent) = (True, l)" using r by simp
    note R = register_accepted [OF inv this]
    obtain g1 where g1: "reserve_order_slot intent (?g\<lparr>gw_reconciliation := l\<rparr>) = (True, g1)"
      "gw_inv g1 (S\<lparr>sp_open := (sp_open S)(?k \<mapsto> order_of intent)\<rparr>)" "gw_recovery_ledger g1 = gw_recovery_ledger g"
      "gw_audit_log g1 = gw_audit_log g"
      using reserve_inv [OF inv s R(2) q(2,3) refl R(1,3) a c R(4,5)] by auto
    have "outcome (audit_accepts env intent g1 \<and> wal_accepts env intent g1) d packet (commit_order env intent d packet ?g)"
      using logs_outcome [OF g1(2) env refl d, of packet] r True g1(1) by (simp add: commit_order_def Let_def)
    then show ?thesis
      using audit_accepts_cong [OF g1(4)] wal_accepts_cong [OF g1(3)] R(1,3) id by simp
  qed
qed

lemma try_build_full:
  fixes g intent pk
  defines "symb \<equiv> oi_symbol_idx intent" and "d \<equiv> evaluate (gw_risk g) (\<lambda>s. se_risk (gw_states g s)) intent"
  assumes "gw_arena g" "symb < kSymbols" and "allow_at (oi_now_ns intent) (gw_breaker g) = (allowed, b)"
    and "try_acquire (gw_rate_limiter g) = (acquired, t)"
    and "build_enter_order (gw_ouch g) intent (no_packet pk) = (True, packet)" "pk_len packet = 48"
    and "unat (rs_order_count (se_risk (gw_states g symb))) < kMaxActiveOrders = c"
  shows "\<exists>g1 g2 g3 g4. try_build env intent pk g =
    (if \<not> allowed then Some (\<lparr>rd_pass = False, rd_reject_mask = kRejectHalted\<rparr>, no_packet pk, g1)
     else if \<not> acquired then Some (\<lparr>rd_pass = False, rd_reject_mask = kRejectHalted\<rparr>, no_packet pk, g2)
     else if \<not> rd_pass d then Some (if c then d else refuse kRejectOrderCapacity d, no_packet pk, g3)
     else if \<not> c then Some (refuse kRejectOrderCapacity d, no_packet pk, g4)
     else commit_order env intent d packet (g\<lparr>gw_breaker := b, gw_rate_limiter := t\<rparr>))"
proof -
  have p: "packet\<lparr>pk_len := 48\<rparr> = packet" using assms(8) by (cases packet) simp
  show ?thesis using assms(3-9) unfolding symb_def d_def by (simp add: try_build_def Let_def p)
qed

text \<open>A packet is always built; within the limits it carries the order.\<close>

lemma enter_packet:
  assumes "templates_ready t" "limits_ok l" "oi_symbol_idx intent < kSymbols" "length (pk_bytes pk) = 64"
    and d: "p \<longleftrightarrow> within_limits l risk intent"
  shows "\<exists>packet. build_enter_order t intent (no_packet pk) = (True, packet) \<and> pk_len packet = 48 \<and>
    (p \<longrightarrow> enter_order_wire intent (pk_bytes packet))"
proof (cases p)
  case True
  then have "0 \<le> oi_qty intent" "oi_qty intent \<le> 0xFFFFFFFF" "0 \<le> oi_price intent" "oi_price intent \<le> 0xFFFFFFFF"
    using d assms(2) by (auto simp: within_limits_def price_ok_def limits_ok_def limits_valid_def numeric_valid)
  then show ?thesis
    using build_enter_order_wire [OF assms(1,3), of "no_packet pk"] assms(4) by (auto simp: no_packet_def)
next
  case False
  then show ?thesis using assms(1,3) by (auto simp: build_enter_order_def templates_ready_def Let_def ouch_offsets)
qed

lemma acquire_iff: "gw_inv g S \<Longrightarrow> fst (try_acquire (gw_rate_limiter g)) \<longleftrightarrow> card (dom (sp_open S)) < unat (sp_limit S)"
  using gw_invD(5,9) [of g S] by (auto simp: try_acquire_def word_less_nat_alt)

lemma count_iff:
  assumes "gw_inv g S" "symb < kSymbols"
  shows "unat (rs_order_count (se_risk (gw_states g symb))) = length (filter live (se_orders (gw_states g symb)))"
proof -
  have n: "osum (\<lambda>_. 1) xs = int (length (filter live xs))" for xs by (induction xs) (simp_all add: osum_def)
  show ?thesis using gw_invD(8) [OF assms] unfolding totals_ok_def n by (simp only: of_nat_eq_iff)
qed

lemma admission_outcome:
  fixes g intent
  defines "d \<equiv> evaluate (gw_risk g) (\<lambda>s. se_risk (gw_states g s)) intent"
  assumes inv: "gw_inv g S" and env: "env_ok env" and s: "oi_symbol_idx intent < kSymbols"
    and i: "i64 (oi_qty intent)" "i64 (oi_price intent)"
    and d: "rd_pass d \<longleftrightarrow> within_limits (pr_limits (gw_risk g) (oi_symbol_idx intent)) (se_risk (gw_states g (oi_symbol_idx intent))) intent"
      "rd_reject_mask d = kRejectNone \<longleftrightarrow> rd_pass d"
    and e: "build_enter_order (gw_ouch g) intent (no_packet pk) = (True, packet)" "pk_len packet = 48"
  shows "outcome (admissible env intent g S) d packet (try_build env intent pk g)"
proof -
  let ?symb = "oi_symbol_idx intent" and ?st = "gw_states g (oi_symbol_idx intent)"
  obtain allowed b where b: "allow_at (oi_now_ns intent) (gw_breaker g) = (allowed, b)" by (cases "allow_at (oi_now_ns intent) (gw_breaker g)")
  obtain acquired t where t: "try_acquire (gw_rate_limiter g) = (acquired, t)" by (cases "try_acquire (gw_rate_limiter g)")
  define c where "c \<longleftrightarrow> length (filter live (se_orders ?st)) < kMaxActiveOrders"
  have c: "unat (rs_order_count (se_risk ?st)) < kMaxActiveOrders = c" using count_iff [OF inv s] by (simp add: c_def)
  note R = try_build_full [OF gw_invD(1) [OF inv] s b t e c, of env, folded d_def]
  have A: "admissible env intent g S \<longleftrightarrow> allowed \<and> acquired \<and> rd_pass d \<and> c \<and>
      (oi_client_order_id intent \<noteq> 0 \<and> sp_open S (ucast (oi_client_order_id intent)) = None \<and>
       audit_accepts env intent g \<and> wal_accepts env intent g)"
    using b t acquire_iff [OF inv] d(1) unfolding admissible_def Let_def c_def by auto
  show ?thesis
  proof (cases "allowed \<and> acquired \<and> rd_pass d \<and> c")
    case True
    let ?g = "g\<lparr>gw_breaker := b\<rparr>"
    have h: "0 < oi_qty intent" "rd_pass d" "gw_inv ?g S" "try_acquire (gw_rate_limiter ?g) = (True, t)"
        "unat (rs_order_count (se_risk (gw_states ?g ?symb))) < kMaxActiveOrders"
      using True d(1) inv t c by (simp_all add: within_limits_def)
    have "audit_accepts env intent ?g = audit_accepts env intent g" "wal_accepts env intent ?g = wal_accepts env intent g"
      by (rule audit_accepts_cong wal_accepts_cong, simp)+
    moreover have "try_build env intent pk g = commit_order env intent d packet (?g\<lparr>gw_rate_limiter := t\<rparr>)" using R True by auto
    ultimately show ?thesis
      using A True commit_outcome [OF h(3) env s h(1) i h(2,4,5), of packet] by simp
  next
    case False
    have "kRejectHalted \<noteq> kRejectNone" "rd_reject_mask (refuse kRejectOrderCapacity d) \<noteq> kRejectNone"
      using or_nonzero by (simp_all add: refuse_def kRejectHalted_def kRejectNone_def kRejectOrderCapacity_def)
    then show ?thesis
      using False R d(2) A by (cases allowed; cases acquired; cases "rd_pass d"; cases c) (auto simp: no_packet_def outcome_def)
  qed
qed

text \<open>
  C5: The gateway admits exactly the admissible orders.  \<open>try_build\<close> returns, and it passes an order
  if and only if the breaker lets it through, fewer orders are open than the rate limiter allows, the
  order is within the risk limits in unbounded arithmetic, the symbol has a free slot, its id is new
  and not zero, and both attached logs took it.  An admitted order comes with a 48-byte packet that
  encodes its token, side, quantity, symbol, price and time in force; a refused one leaves the packet
  empty and names a reason.
\<close>

theorem gateway_admission:
  assumes inv: "gw_inv g S" and env: "env_ok env" and s: "oi_symbol_idx intent < kSymbols"
    and ready: "templates_ready (gw_ouch g)" "pr_arena (gw_risk g)" "limits_ok (pr_limits (gw_risk g) (oi_symbol_idx intent))"
    and i: "i64 (oi_qty intent)" "i64 (oi_price intent)" and pk: "length (pk_bytes pk) = 64"
  shows "\<exists>d p g'. try_build env intent pk g = Some (d, p, g') \<and> (rd_pass d \<longleftrightarrow> admissible env intent g S) \<and>
    (if rd_pass d then rd_reject_mask d = kRejectNone \<and> pk_len p = kEnterOrderLen \<and> enter_order_wire intent (pk_bytes p)
     else pk_len p = 0 \<and> rd_reject_mask d \<noteq> kRejectNone)"
proof -
  let ?symb = "oi_symbol_idx intent" and ?d = "evaluate (gw_risk g) (\<lambda>s. se_risk (gw_states g s)) intent"
  let ?w = "within_limits (pr_limits (gw_risk g) ?symb) (se_risk (gw_states g ?symb)) intent"
  have "risk_ok (se_risk (gw_states g ?symb))" using totals_i64 [OF gw_invD(8) [OF inv s]] by (simp add: risk_ok_def)
  then have d: "rd_pass ?d \<longleftrightarrow> ?w" "rd_reject_mask ?d = kRejectNone \<longleftrightarrow> rd_pass ?d"
    using evaluate_decides [of "gw_risk g" intent "\<lambda>s. se_risk (gw_states g s)"] ready s i by (simp_all add: Let_def)
  obtain packet where e: "build_enter_order (gw_ouch g) intent (no_packet pk) = (True, packet)" "pk_len packet = 48"
    and wire: "?w \<longrightarrow> enter_order_wire intent (pk_bytes packet)"
    using enter_packet [OF ready(1,3) s pk refl] by blast
  have "admissible env intent g S \<longrightarrow> ?w" by (simp add: admissible_def Let_def)
  then show ?thesis
    using admission_outcome [OF inv env s i d e] d wire e(2) unfolding outcome_def kEnterOrderLen_def
    by (cases "admissible env intent g S") auto
qed

section \<open>A concrete run\<close>

text \<open>A write-ahead log whose writes and syncs work.\<close>

definition wal_works :: "GatewayEnv \<Rightarrow> bool" where
  "wal_works env \<longleftrightarrow> ge_wal_synced env \<and> Failed \<notin> set (ge_wal_writes env) \<and> Wrote 0 \<notin> set (ge_wal_writes env) \<and>
     64 \<le> length (filter (\<lambda>a. a \<noteq> Interrupted) (ge_wal_writes env))"

lemma wal_write_works:
  assumes "wal_works env" "wal_of l evs" "event_ok ev"
  obtains l' where "wal_write env ev (Some l) = Some (True, Some l')" "wal_of l' (evs @ [ev])"
proof -
  have "write_all (ge_wal_writes env) (rr_bytes (record_of (rv_sequence l) ev)) = Some (True, rr_bytes (record_of (rv_sequence l) ev))"
    using assms by (intro write_all_completes) (simp_all add: wal_works_def length_rr_bytes record_of_ok)
  then obtain l' where "append_and_flush (ge_wal_writes env) (ge_wal_synced env) l ev = Some (True, l')"
    using assms by (auto simp: append_and_flush_def append_with_side_def wal_of_def event_ok_def wal_works_def Let_def)
  then show thesis using that append_ok [OF assms(2,3)] by (auto simp: wal_write_def)
qed

abbreviation (input) sample_gateway :: ExecutionGateway where
  "sample_gateway \<equiv> start_gateway 10000 (Some sample_ledger)"

lemma sample_env_works: "wal_works sample_env"
  by (simp add: wal_works_def sample_env_def)

lemma sample_admissible: "admissible sample_env sample_intent sample_gateway (empty_spec 10000)"
proof -
  have "event_ok (add_event sample_intent)" by (simp add: event_ok_def add_event_def sample_intent_def i64_bounds)
  then obtain l' where "wal_write sample_env (add_event sample_intent) (Some sample_ledger) = Some (True, Some l')"
    using wal_write_works [OF sample_env_works sample_ledger_wal(1)] by blast
  then have "wal_accepts sample_env sample_intent sample_gateway"
    by (simp add: wal_accepts_def wal_append_eq start_gateway_def set_recovery_ledger_def)
  moreover have "audit_accepts sample_env sample_intent sample_gateway"
    by (simp add: audit_accepts_def audit_append_def start_gateway_def set_recovery_ledger_def gateway_init_def new_gateway_def risk_init_def)
  moreover have "filter live (se_orders zero_exec_state) = []" using zero_orders by (simp add: filter_empty_conv)
  ultimately show ?thesis
    by (simp add: admissible_def Let_def start_gateway_def set_recovery_ledger_def gateway_init_def new_gateway_def risk_init_def
        allow_at_def allow_closed_def cb_reset_def new_breaker_def empty_spec_def sample_intent_def)
      (simp add: within_limits_def position_ok_def price_ok_def fresh_ok_def default_limits_def zero_exec_state_def signed_qty_def
        numeric_limits kSideSell_def INT64_MAX_def)
qed

lemma sample_ready:
  "templates_ready (gw_ouch sample_gateway)" "pr_arena (gw_risk sample_gateway)" "limits_ok (pr_limits (gw_risk sample_gateway) symb)"
  "i64 (oi_qty sample_intent)" "i64 (oi_price sample_intent)" "oi_symbol_idx sample_intent < kSymbols" "length (pk_bytes empty_packet) = 64"
  using ouch_init_ready
  by (simp_all add: start_gateway_def set_recovery_ledger_def gateway_init_def new_gateway_def risk_init_def limits_ok_def
      limits_valid_def default_limits_def numeric_valid i64_bounds sample_intent_def empty_packet_def)

theorem gateway_admission_witness:
  "\<exists>d p g'. try_build sample_env sample_intent empty_packet (start_gateway 10000 (Some sample_ledger)) = Some (d, p, g') \<and>
     rd_pass d \<and> pk_len p = 48 \<and> of_be (field 6 4 (pk_bytes p)) = 100"
proof -
  obtain d p g' where r: "try_build sample_env sample_intent empty_packet sample_gateway = Some (d, p, g')"
      "rd_pass d" "pk_len p = kEnterOrderLen" "enter_order_wire sample_intent (pk_bytes p)"
    using gateway_admission [OF start_inv sample_env_ok sample_ready(6,1-3,4,5,7)] sample_admissible by force
  then have "int (of_be (field 6 4 (pk_bytes p))) = 100" by (simp add: enter_order_wire_def sample_intent_def)
  then show ?thesis using r by (auto simp: kEnterOrderLen_def)
qed

definition sample_spec :: GatewaySpec where
  "sample_spec = (empty_spec 10000)\<lparr>sp_open := [7 \<mapsto> order_of sample_intent]\<rparr>"

lemma sample_opened:
  obtains g' where "gateway_exec sample_env (Build sample_intent empty_packet) sample_gateway = Some (True, g')"
    "spec_step (Build sample_intent empty_packet) True (empty_spec 10000) sample_spec"
proof -
  let ?g = sample_gateway and ?d = "evaluate (gw_risk sample_gateway) (\<lambda>s. se_risk (gw_states sample_gateway s)) sample_intent"
  let ?w = "within_limits (pr_limits (gw_risk ?g) (oi_symbol_idx sample_intent)) (se_risk (gw_states ?g (oi_symbol_idx sample_intent))) sample_intent"
  have "risk_ok (se_risk (gw_states ?g (oi_symbol_idx sample_intent)))"
    using totals_i64 [OF gw_invD(8) [OF start_inv sample_ready(6)]] by (simp add: risk_ok_def)
  then have d: "rd_pass ?d \<longleftrightarrow> ?w" "rd_reject_mask ?d = kRejectNone \<longleftrightarrow> rd_pass ?d"
    using evaluate_decides [of "gw_risk ?g" sample_intent "\<lambda>s. se_risk (gw_states ?g s)"] sample_ready by (simp_all add: Let_def)
  obtain packet where e: "build_enter_order (gw_ouch ?g) sample_intent (no_packet empty_packet) = (True, packet)" "pk_len packet = 48"
    using enter_packet [OF sample_ready(1,3,6,7) refl] by blast
  obtain d' p' g' where "try_build sample_env sample_intent empty_packet ?g = Some (d', p', g')" "rd_pass d'"
    using admission_outcome [OF start_inv sample_env_ok sample_ready(6,4,5) d e] sample_admissible by (auto simp: outcome_def)
  then have "gateway_exec sample_env (Build sample_intent empty_packet) ?g = Some (True, g')" by simp
  moreover have "spec_step (Build sample_intent empty_packet) True (empty_spec 10000)
      ((empty_spec 10000)\<lparr>sp_open := (sp_open (empty_spec 10000))(ucast (oi_client_order_id sample_intent) \<mapsto> order_of sample_intent)\<rparr>)"
    by (rule spec_build) (simp_all add: empty_spec_def sample_intent_def)
  ultimately show thesis using that by (simp add: sample_spec_def empty_spec_def sample_intent_def)
qed

lemma sample_fill_safe:
  assumes "gw_inv g sample_spec"
  shows "fill_safe g sample_spec 5 \<lparr>er_order_id = 7, er_filled_quantity = 100, er_terminal = False\<rparr>"
proof -
  have "dom (rc_lookup kLedgerCapacity (gw_reconciliation g)) = {7}"
    using gw_invD(4) [OF assms] by (auto simp: sample_spec_def empty_spec_def split: if_splits)
  then show ?thesis
    using fill_hides_open [OF gw_invD(3) [OF assms], of "\<lparr>er_order_id = 7, er_filled_quantity = 100, er_terminal = False\<rparr>"]
    by (auto simp: fill_safe_def stale_fill_def sample_spec_def order_of_def sample_intent_def)
qed

theorem gateway_refines_witness:
  "\<exists>g ok g' S'. gw_inv g sample_spec \<and>
     gateway_exec sample_env (Fill 5 \<lparr>er_order_id = 7, er_filled_quantity = 100, er_terminal = False\<rparr>) g = Some (ok, g') \<and>
     spec_step (Fill 5 \<lparr>er_order_id = 7, er_filled_quantity = 100, er_terminal = False\<rparr>) ok sample_spec S' \<and> gw_inv g' S'"
proof -
  obtain g where g: "gateway_exec sample_env (Build sample_intent empty_packet) sample_gateway = Some (True, g)"
    "spec_step (Build sample_intent empty_packet) True (empty_spec 10000) sample_spec" by (rule sample_opened)
  have inv: "gw_inv g sample_spec" by (rule exec_step(1) [OF start_inv sample_env_ok _ g]) (simp add: sample_ready)
  then show ?thesis
    using gateway_refines [OF inv sample_env_ok, of "Fill 5 \<lparr>er_order_id = 7, er_filled_quantity = 100, er_terminal = False\<rparr>"]
      sample_fill_safe [OF inv] by auto
qed

lemma sample_op_ok: "op_ok g S (Build sample_intent empty_packet)"
  by (simp add: sample_ready)

theorem gateway_accounting_witness:
  "\<exists>g. gateway_reach 10000 g sample_spec \<and> rl_pending (gw_rate_limiter g) \<le> 10000 \<and>
     unat (rs_order_count (se_risk (gw_states g 5))) = length (filter live (se_orders (gw_states g 5)))"
proof -
  obtain g where g: "gateway_exec sample_env (Build sample_intent empty_packet) sample_gateway = Some (True, g)"
    "spec_step (Build sample_intent empty_packet) True (empty_spec 10000) sample_spec" by (rule sample_opened)
  have r: "gateway_reach 10000 g sample_spec" by (rule reach_step [OF reach_start sample_env_ok sample_op_ok g])
  show ?thesis using r gateway_accounting [OF r] by (auto simp: Let_def)
qed

section \<open>Recovery\<close>

text \<open>
  Runs of a gateway that started with an empty write-ahead log whose writes work, in which every fill
  satisfies \<open>fill_safe\<close> and no venue rejection closed an order.
\<close>

inductive recover_reach :: "u32 \<Rightarrow> ExecutionGateway \<Rightarrow> GatewaySpec \<Rightarrow> bool" for limit where
  recover_start: "wal_of l [] \<Longrightarrow> recover_reach limit (start_gateway limit (Some l)) (empty_spec limit)"
| recover_config: "recover_reach limit g S \<Longrightarrow> config_step g g' \<Longrightarrow> recover_reach limit g' S"
| recover_step: "recover_reach limit g S \<Longrightarrow> env_ok env \<Longrightarrow> wal_works env \<Longrightarrow> op_ok g S op \<Longrightarrow>
    gateway_exec env op g = Some (ok, g') \<Longrightarrow> spec_step op ok S S' \<Longrightarrow> (\<forall>symb k. op = RejectAck symb k \<longrightarrow> \<not> ok) \<Longrightarrow>
    recover_reach limit g' S'"

definition recovers :: "(u64 \<rightharpoonup> RecoveredOrder) \<Rightarrow> (u64 \<rightharpoonup> ActiveOrder) \<Rightarrow> bool" where
  "recovers m open \<longleftrightarrow> (\<forall>k. map_option (\<lambda>x. (ro_remaining x, ro_price x, ro_side x AND 1)) (m k) =
     map_option (\<lambda>x. (ao_qty x, ao_price x, ao_side x AND 1)) (open k))"

lemma recoversD:
  assumes "recovers m open"
  shows "m k = None \<longleftrightarrow> open k = None" "open k = Some x \<Longrightarrow> \<exists>y. m k = Some y \<and> ro_remaining y = ao_qty x \<and> ro_price y = ao_price x \<and>
    ro_side y AND 1 = ao_side x AND 1" "dom m = dom open"
proof -
  have k: "map_option (\<lambda>x. (ro_remaining x, ro_price x, ro_side x AND 1)) (m k) =
     map_option (\<lambda>x. (ao_qty x, ao_price x, ao_side x AND 1)) (open k)" for k using assms by (simp add: recovers_def)
  have none: "m k = None \<longleftrightarrow> open k = None" for k using k [of k] by (cases "m k"; cases "open k") auto
  show "m k = None \<longleftrightarrow> open k = None" by (rule none)
  show "dom m = dom open" by (simp add: dom_def none)
  show "open k = Some x \<Longrightarrow> \<exists>y. m k = Some y \<and> ro_remaining y = ao_qty x \<and> ro_price y = ao_price x \<and>
    ro_side y AND 1 = ao_side x AND 1" using k [of k] by auto
qed

lemma recovers_upd:
  "recovers m open \<Longrightarrow> ro_remaining y = ao_qty x \<Longrightarrow> ro_price y = ao_price x \<Longrightarrow> ro_side y AND 1 = ao_side x AND 1 \<Longrightarrow>
   recovers (m(k \<mapsto> y)) (open(k \<mapsto> x))"
  "recovers m open \<Longrightarrow> recovers (m(k := None)) (open(k := None))"
  by (simp_all add: recovers_def)

lemma spec_replay_snoc:
  "spec_replay c evs m0 = (True, m) \<Longrightarrow> spec_event c m ev = Some m' \<Longrightarrow> spec_replay c (evs @ [ev]) m0 = (True, m')"
  by (induction evs arbitrary: m0) (auto split: option.splits)

text \<open>An accepted step of the contract is the event the gateway logged.\<close>

lemma event_step:
  assumes rec: "recovers m (sp_open S)" and step: "spec_step op True S S'" and inv: "gw_inv g S"
    and ev: "op_event env S op = Some ev" and cap: "unat (sp_limit S) \<le> capacity"
  shows "\<exists>m'. spec_event capacity m ev = Some m' \<and> recovers m' (sp_open S')"
proof -
  note R = recoversD [OF rec]
  have id: "ao_order_id x = k" if "sp_open S k = Some x" for k x using gw_invD(2) [OF inv] that by (auto simp: open_ok_def)
  from step show ?thesis
  proof (cases rule: spec_step.cases)
    case (spec_build intent packet)
    then have "m (ucast (oi_client_order_id intent)) = None" "card (dom m) < capacity" using R(1,3) cap by simp_all
    then show ?thesis using spec_build ev recovers_upd(1) [OF rec]
      by (auto simp: spec_event_def Let_def add_event_def order_of_def and.assoc)
  next
    case (spec_filled r x symb)
    then obtain y where y: "m (er_order_id r) = Some y" "ro_remaining y = ao_qty x" "ro_price y = ao_price x" "ro_side y AND 1 = ao_side x AND 1"
      using R(2) by blast
    have "ev = fill_event env r x" using ev spec_filled by simp
    then show ?thesis
      using spec_filled y id [OF spec_filled(3)] recovers_upd [OF rec]
      by (auto simp: spec_event_def Let_def fill_event_def spec_fill_def filled_order_def)
  next
    case (spec_replaced k x symb q p)
    then obtain y where y: "m k = Some y" "ro_remaining y = ao_qty x" "ro_price y = ao_price x" "ro_side y AND 1 = ao_side x AND 1"
      using R(2) by blast
    then show ?thesis
      using spec_replaced ev id [OF spec_replaced(3)] recovers_upd(1) [OF rec] by (auto simp: spec_event_def Let_def replace_event_def)
  next
    case (spec_canceled k x symb)
    then obtain y where "m k = Some y" using R(2) by blast
    then show ?thesis using spec_canceled ev id [OF spec_canceled(3)] recovers_upd(2) [OF rec]
      by (auto simp: spec_event_def Let_def cancel_event_def spec_close_def)
  next
    case (spec_cancel_open k)
    then obtain x where x: "sp_open S k = Some x" by blast
    then obtain y where "m k = Some y" using R(2) by blast
    then show ?thesis using spec_cancel_open x ev id [OF x] recovers_upd(2) [OF rec]
      by (auto simp: spec_event_def Let_def cancel_event_def spec_close_def)
  qed (use ev in simp_all)
qed

lemma unlogged_step:
  "spec_step op True S S' \<Longrightarrow> op_event env S op = None \<Longrightarrow> (\<forall>symb k. op \<noteq> RejectAck symb k) \<Longrightarrow> S' = S"
  by (elim spec_stepE) auto

definition recoverable :: "nat \<Rightarrow> ExecutionGateway \<Rightarrow> GatewaySpec \<Rightarrow> bool" where
  "recoverable capacity g S \<longleftrightarrow> gw_inv g S \<and>
     (\<exists>l evs m. gw_recovery_ledger g = Some l \<and> wal_of l evs \<and> spec_replay capacity evs Map.empty = (True, m) \<and> recovers m (sp_open S))"

lemma recoverable_step:
  assumes rc: "recoverable capacity g S" and env: "env_ok env" "wal_works env" and op: "op_ok g S op"
    and ex: "gateway_exec env op g = Some (ok, g')" "spec_step op ok S S'" and nr: "\<forall>symb k. op = RejectAck symb k \<longrightarrow> \<not> ok"
    and cap: "unat (sp_limit S) \<le> capacity"
  shows "recoverable capacity g' S'"
proof -
  obtain l evs m where inv: "gw_inv g S" and w: "gw_recovery_ledger g = Some l" "wal_of l evs"
      "spec_replay capacity evs Map.empty = (True, m)" "recovers m (sp_open S)"
    using rc by (auto simp: recoverable_def)
  note E = exec_step [OF inv env(1) op ex]
  have works: "\<exists>l'. wal_write env ev (Some l) = Some (True, Some l') \<and> wal_of l' (evs @ [ev])" if "event_ok ev" for ev
    using wal_write_works [OF env(2) w(2) that] by blast
  have same: "recoverable capacity g' S'" if "S' = S" "gw_recovery_ledger g' = Some l"
    using that E(1) w by (auto simp: recoverable_def)
  show ?thesis
  proof (cases "op_event env S op")
    case None
    then show ?thesis using same E(2) w(1) ex(2) nr unlogged_step [of op S S' env] by (cases ok) (auto simp: logs_def elim: spec_stepE)
  next
    case (Some ev)
    show ?thesis
    proof (cases ok)
      case False
      then have "gw_recovery_ledger g' = Some l" using E(2) works [of ev] Some w(1) by (auto simp: logs_def)
      then show ?thesis using same ex(2) False by (auto elim: spec_stepE)
    next
      case True
      then obtain l' where "gw_recovery_ledger g' = Some l'" "wal_of l' (evs @ [ev])"
        using E(2) works [of ev] Some w(1) by (auto simp: logs_def)
      moreover obtain m' where "spec_event capacity m ev = Some m'" "recovers m' (sp_open S')"
        using event_step [OF w(4) _ inv Some cap] ex(2) True by auto
      ultimately show ?thesis using E(1) spec_replay_snoc [OF w(3)] unfolding recoverable_def by blast
    qed
  qed
qed

lemma recover_inv: "recover_reach limit g S \<Longrightarrow> unat limit \<le> capacity \<Longrightarrow> recoverable capacity g S \<and> sp_limit S = limit"
proof (induction rule: recover_reach.induct)
  case (recover_start l)
  have "gw_recovery_ledger (start_gateway limit (Some l)) = Some l" by (simp add: start_gateway_def set_recovery_ledger_def)
  then show ?case
    using recover_start start_inv unfolding recoverable_def
    by (auto simp: empty_spec_def recovers_def intro!: exI [of _ "[]"])
next
  case (recover_config g S g')
  then show ?case using config_keeps [OF recover_config(2)] unfolding recoverable_def by metis
next
  case (recover_step g S env op ok g' S')
  then show ?case using recoverable_step [of capacity g S env op ok g' S'] spec_step_limit by simp
qed

text \<open>
  C7: A restart loses no order and invents none.  If a gateway has run on a write-ahead log that was
  empty at the start and whose writes work, through any configuration calls, admissions, fills,
  cancellations, replacements and halts, where every fill is safe (\<open>fill_safe\<close>: it hides no other open
  order in the ledger and meets no terminal slot of another symbol with its id) and no reject report
  closed an order, then replaying the log into a table as large as the rate limit succeeds and
  yields exactly the orders that are live in the gateway, each with its remaining quantity, price and
  side.
\<close>

theorem gateway_recovery:
  assumes "recover_reach limit g S" "unat limit \<le> capacity" "0 < capacity"
  shows "\<exists>l. gw_recovery_ledger g = Some l \<and> fst (replay True capacity l) \<and>
    (\<forall>k q p side.
      (\<exists>y. order_map (snd (replay True capacity l)) k = Some y \<and> ro_remaining y = q \<and> ro_price y = p \<and> ro_side y AND 1 = side) \<longleftrightarrow>
      (\<exists>symb<kSymbols. \<exists>x\<in>set (se_orders (gw_states g symb)). live x \<and> ao_order_id x = k \<and> ao_qty x = q \<and> ao_price x = p \<and>
         ao_side x AND 1 = side))"
proof -
  obtain l evs m where inv: "gw_inv g S" and w: "gw_recovery_ledger g = Some l" "wal_of l evs"
      "spec_replay capacity evs Map.empty = (True, m)" "recovers m (sp_open S)"
    using recover_inv [OF assms(1,2)] by (auto simp: recoverable_def)
  have r: "fst (replay True capacity l)" "order_map (snd (replay True capacity l)) = m"
    using wal_replay [OF w(2) assms(3)] w(3) by simp_all
  have "(\<exists>y. m k = Some y \<and> ro_remaining y = q \<and> ro_price y = p \<and> ro_side y AND 1 = side) \<longleftrightarrow>
      (\<exists>x. sp_open S k = Some x \<and> ao_qty x = q \<and> ao_price x = p \<and> ao_side x AND 1 = side)" for k q p side
    using w(4) [unfolded recovers_def, rule_format, of k] by (cases "m k"; cases "sp_open S k") auto
  moreover have "sp_open S k = Some x \<longleftrightarrow> live x \<and> ao_order_id x = k \<and> (\<exists>symb<kSymbols. x \<in> set (se_orders (gw_states g symb)))" for k x
    using gw_invD(2) [OF inv] by (auto simp: open_ok_def)
  ultimately show ?thesis using w(1) r by auto
qed

lemma sample_recover:
  obtains g where "recover_reach 10000 g sample_spec"
proof -
  obtain g where g: "gateway_exec sample_env (Build sample_intent empty_packet) sample_gateway = Some (True, g)"
    "spec_step (Build sample_intent empty_packet) True (empty_spec 10000) sample_spec" by (rule sample_opened)
  have "recover_reach 10000 sample_gateway (empty_spec 10000)" by (rule recover_start) (rule sample_ledger_wal)
  then have "recover_reach 10000 g sample_spec" by (rule recover_step [OF _ sample_env_ok sample_env_works sample_op_ok g]) simp
  then show thesis by (rule that)
qed

theorem gateway_recovery_witness:
  "\<exists>g l. recover_reach 10000 g sample_spec \<and> gw_recovery_ledger g = Some l \<and> fst (replay True 10000 l)"
proof -
  obtain g where "recover_reach 10000 g sample_spec" by (rule sample_recover)
  then show ?thesis using gateway_recovery [of 10000 g sample_spec 10000] by auto
qed

section \<open>Rejections and the log\<close>

text \<open>
  C35: A rejection is not durable.  When the venue rejects an open order, \<open>apply_reject_report\<close> accepts
  the report and closes the order everywhere in the gateway, but it writes nothing ahead: replaying
  the log afterwards still yields the rejected order with its whole remaining quantity.
\<close>

theorem gateway_reject_unlogged:
  assumes "recover_reach limit g S" "unat limit \<le> capacity" "0 < capacity" "sp_open S k = Some x"
  shows "\<exists>g' l y. apply_reject_report env (ao_symbol_idx x) k g = Some (True, g') \<and>
    (\<forall>symb<kSymbols. \<forall>z\<in>set (se_orders (gw_states g' symb)). live z \<longrightarrow> ao_order_id z \<noteq> k) \<and>
    gw_recovery_ledger g' = Some l \<and> fst (replay True capacity l) \<and>
    order_map (snd (replay True capacity l)) k = Some y \<and> ro_remaining y = ao_qty x"
proof -
  obtain l evs m where inv: "gw_inv g S" and w: "gw_recovery_ledger g = Some l" "wal_of l evs"
      "spec_replay capacity evs Map.empty = (True, m)" "recovers m (sp_open S)"
    using recover_inv [OF assms(1,2)] by (auto simp: recoverable_def)
  have r: "fst (replay True capacity l)" "order_map (snd (replay True capacity l)) = m"
    using wal_replay [OF w(2) assms(3)] w(3) by simp_all
  let ?op = "RejectAck (ao_symbol_idx x) k"
  obtain ok g' S' where e: "apply_reject_report env (ao_symbol_idx x) k g = Some (ok, g')" "spec_step ?op ok S S'" "gw_inv g' S'"
      "gw_recovery_ledger g' = Some l"
    using reject_step [OF inv, of env "ao_symbol_idx x" k] w(1) by (auto simp: simulates_def logs_def)
  obtain i where i: "ao_symbol_idx x < kSymbols" "se_orders (gw_states g (ao_symbol_idx x)) ! i = x" "live x"
      "first_slot (\<lambda>x. ao_order_id x = k \<and> ao_state x \<noteq> 0) (se_orders (gw_states g (ao_symbol_idx x))) = Some i"
    using find_live [OF inv assms(4) refl] by blast
  then have ok using e(1) gw_invD(1) [OF inv] by (auto simp: apply_reject_report_def live_def)
  then have "S' = spec_close k S" using e(2) by (auto elim: spec_stepE)
  then have "sp_open S' k = None" by (simp add: spec_close_def)
  then have "\<forall>symb<kSymbols. \<forall>z\<in>set (se_orders (gw_states g' symb)). live z \<longrightarrow> ao_order_id z \<noteq> k"
    using open_okD [OF gw_invD(2) [OF e(3)]] by fastforce
  then show ?thesis using e \<open>ok\<close> r recoversD(2) [OF w(4) assms(4)] by auto
qed

theorem gateway_reject_unlogged_witness:
  "\<exists>g g' l y. recover_reach 10000 g sample_spec \<and> apply_reject_report sample_env 5 7 g = Some (True, g') \<and>
     gw_recovery_ledger g' = Some l \<and> order_map (snd (replay True 10000 l)) 7 = Some y \<and> ro_remaining y = 100"
proof -
  obtain g where g: "recover_reach 10000 g sample_spec" by (rule sample_recover)
  have x: "sp_open sample_spec 7 = Some (order_of sample_intent)" by (simp add: sample_spec_def)
  show ?thesis
    using g gateway_reject_unlogged [OF g _ _ x, of 10000 sample_env] by (auto simp: order_of_def sample_intent_def)
qed

end
