(* ===== verification/Stop_Orders.thy ===== *)
theory Stop_Orders
  imports Gateway_Properties
begin

text \<open>
  Two clients of the gateway: \<open>OrderFlowAdapter\<close> of \<open>luv_ouch.hpp\<close>, which turns venue bytes into
  reports, and \<open>StopOrderTable\<close> of \<open>luv_execution.hpp\<close>, which routes conditional orders when the best
  bid and offer reach their triggers.
\<close>

section \<open>The order flow adapter\<close>

text \<open>The verdict, \<open>consumed\<close> and the gateway; \<open>None\<close> while a write is outstanding.\<close>

definition consume ::
    "GatewayEnv \<Rightarrow> u8 list option \<Rightarrow> nat \<Rightarrow> ExecutionGateway \<Rightarrow> (bool \<times> nat \<times> ExecutionGateway) option" where
  "consume env data symb g =
     (case parse data of
        None \<Rightarrow> Some (False, 0, g)
      | Some (event, consumed) \<Rightarrow>
          map_option (\<lambda>(ok, g). (ok, consumed, g))
            (case ev_type event of
               kExecuted \<Rightarrow> apply_execution_report env symb
                 \<lparr>er_order_id = ev_order_id event, er_filled_quantity = ev_quantity event, er_terminal = False\<rparr> g
             | kCanceled \<Rightarrow> apply_cancel_report env symb (ev_order_id event) g
             | kReplaced \<Rightarrow> apply_replace_report env symb (ev_order_id event) (ev_quantity event) (ev_price event) g
             | kRejected \<Rightarrow> apply_reject_report env symb (ev_order_id event) g
             | kAccepted \<Rightarrow> Some (True, g)))"

section \<open>Conditional orders\<close>

datatype TriggerType = kStopLoss | kStopLimit | kPeggedBid | kPeggedAsk | kPeggedMid

record ConditionalOrder =
  co_trigger_id :: u32
  co_symbol_idx :: nat
  co_side :: u8
  co_trigger_type :: TriggerType
  co_stop_price :: int
  co_limit_price :: int
  co_peg_offset :: int
  co_qty :: int
  co_client_order_id :: u32
  co_time_in_force :: u8
  co_active :: u8

definition empty_trigger :: ConditionalOrder where
  "empty_trigger = \<lparr>co_trigger_id = 0, co_symbol_idx = 0, co_side = kSideBuy, co_trigger_type = kStopLoss, co_stop_price = 0,
     co_limit_price = 0, co_peg_offset = 0, co_qty = 0, co_client_order_id = 0, co_time_in_force = 0, co_active = 0\<rparr>"

text \<open>The table has \<open>MaxTriggers\<close> entries, the length of its list.\<close>

record StopOrderTable =
  so_triggers :: "ConditionalOrder list"
  so_active_count :: nat

definition new_stop_table :: "nat \<Rightarrow> StopOrderTable" where
  "new_stop_table max_triggers = \<lparr>so_triggers = replicate max_triggers empty_trigger, so_active_count = 0\<rparr>"

definition register_trigger :: "ConditionalOrder \<Rightarrow> StopOrderTable \<Rightarrow> bool \<times> StopOrderTable" where
  "register_trigger order t =
     (if co_client_order_id order = 0 \<or> co_qty order \<le> 0 \<or> co_symbol_idx order \<ge> kSymbols then (False, t)
      else case first_slot (\<lambda>x. co_active x = 0) (so_triggers t) of
        None \<Rightarrow> (False, t)
      | Some i \<Rightarrow> (True, \<lparr>so_triggers = (so_triggers t)[i := order\<lparr>co_active := 1, co_trigger_id := of_nat (i + 1)\<rparr>],
                        so_active_count = so_active_count t + 1\<rparr>))"

definition deactivate :: "nat \<Rightarrow> StopOrderTable \<Rightarrow> StopOrderTable" where
  "deactivate i t = t\<lparr>so_triggers := (so_triggers t)[i := (so_triggers t ! i)\<lparr>co_active := 0\<rparr>],
     so_active_count := (if so_active_count t > 0 then so_active_count t - 1 else so_active_count t)\<rparr>"

definition cancel_trigger :: "u32 \<Rightarrow> StopOrderTable \<Rightarrow> bool \<times> StopOrderTable" where
  "cancel_trigger client_order_id t =
     (if client_order_id = 0 then (False, t)
      else case first_slot (\<lambda>x. co_active x \<noteq> 0 \<and> co_client_order_id x = client_order_id) (so_triggers t) of
        None \<Rightarrow> (False, t)
      | Some i \<Rightarrow> (True, deactivate i t))"

definition so_get :: "nat \<Rightarrow> StopOrderTable \<Rightarrow> ConditionalOrder option" where
  "so_get index t =
     (if index < length (so_triggers t) \<and> co_active (so_triggers t ! index) \<noteq> 0 then Some (so_triggers t ! index) else None)"

text \<open>The \<open>switch\<close> of \<open>evaluate_bbo\<close>: the order price if the trigger fires.  C++ division truncates.\<close>

definition trigger_price :: "ConditionalOrder \<Rightarrow> int \<Rightarrow> int \<Rightarrow> int option" where
  "trigger_price trig best_bid best_ask =
     (case co_trigger_type trig of
        kStopLoss \<Rightarrow>
          if co_side trig = kSideBuy \<and> best_ask > 0 \<and> best_ask \<ge> co_stop_price trig then Some best_ask
          else if co_side trig = kSideSell \<and> best_bid > 0 \<and> best_bid \<le> co_stop_price trig then Some best_bid
          else None
      | kStopLimit \<Rightarrow>
          if co_side trig = kSideBuy \<and> best_ask > 0 \<and> best_ask \<ge> co_stop_price trig
          then Some (if co_limit_price trig > 0 then co_limit_price trig else best_ask)
          else if co_side trig = kSideSell \<and> best_bid > 0 \<and> best_bid \<le> co_stop_price trig
          then Some (if co_limit_price trig > 0 then co_limit_price trig else best_bid)
          else None
      | kPeggedBid \<Rightarrow> if best_bid > 0 then Some (s64 (best_bid + co_peg_offset trig)) else None
      | kPeggedAsk \<Rightarrow> if best_ask > 0 then Some (s64 (best_ask + co_peg_offset trig)) else None
      | kPeggedMid \<Rightarrow>
          if best_bid > 0 \<and> best_ask > 0 then Some (s64 (s64 (best_bid + best_ask) sdiv 2 + co_peg_offset trig)) else None)"

definition trigger_intent :: "ConditionalOrder \<Rightarrow> int \<Rightarrow> u64 \<Rightarrow> OrderIntent" where
  "trigger_intent trig price now_ns =
     \<lparr>oi_symbol_idx = co_symbol_idx trig, oi_side = co_side trig, oi_qty = co_qty trig, oi_price = price,
      oi_alpha_timestamp_ns = now_ns, oi_now_ns = now_ns, oi_client_order_id = co_client_order_id trig,
      oi_time_in_force = co_time_in_force trig\<rparr>"

text \<open>
  One iteration over entry \<open>i\<close>; \<open>out\<close> is the array of \<open>max_packets\<close> packets.  Every call of the gateway
  meets an environment of its own.
\<close>

definition bbo_step ::
    "(nat \<Rightarrow> GatewayEnv) \<Rightarrow> nat \<Rightarrow> int \<Rightarrow> int \<Rightarrow> u64 \<Rightarrow> nat \<Rightarrow> nat \<times> StopOrderTable \<times> ExecutionGateway \<times> OutboundPacket list \<Rightarrow>
     (nat \<times> StopOrderTable \<times> ExecutionGateway \<times> OutboundPacket list) option" where
  "bbo_step env symb best_bid best_ask now_ns i st =
     (case st of (routed, t, g, out) \<Rightarrow>
        let trig = so_triggers t ! i in
        if co_active trig = 0 \<or> co_symbol_idx trig \<noteq> symb then Some st
        else case trigger_price trig best_bid best_ask of
          None \<Rightarrow> Some st
        | Some order_price \<Rightarrow>
            if order_price > 0 then
              map_option (\<lambda>(d, p, g).
                  if rd_pass d then (routed + 1, deactivate i t, g, out[routed := p]) else (routed, t, g, out[routed := p]))
                (try_build (env i) (trigger_intent trig order_price now_ns) (out ! routed) g)
            else Some st)"

fun bbo_loop ::
    "(nat \<Rightarrow> GatewayEnv) \<Rightarrow> nat \<Rightarrow> int \<Rightarrow> int \<Rightarrow> u64 \<Rightarrow> nat list \<Rightarrow> nat \<times> StopOrderTable \<times> ExecutionGateway \<times> OutboundPacket list \<Rightarrow>
     (nat \<times> StopOrderTable \<times> ExecutionGateway \<times> OutboundPacket list) option" where
  "bbo_loop env symb best_bid best_ask now_ns [] st = Some st"
| "bbo_loop env symb best_bid best_ask now_ns (i # is) st =
     (if fst st < length (snd (snd (snd st)))
      then Option.bind (bbo_step env symb best_bid best_ask now_ns i st) (bbo_loop env symb best_bid best_ask now_ns is)
      else Some st)"

definition evaluate_bbo ::
    "(nat \<Rightarrow> GatewayEnv) \<Rightarrow> nat \<Rightarrow> int \<Rightarrow> int \<Rightarrow> u64 \<Rightarrow> OutboundPacket list option \<Rightarrow> StopOrderTable \<Rightarrow> ExecutionGateway \<Rightarrow>
     (nat \<times> StopOrderTable \<times> ExecutionGateway \<times> OutboundPacket list) option" where
  "evaluate_bbo env symb best_bid best_ask now_ns out_packets t g =
     (case out_packets of
        None \<Rightarrow> Some (0, t, g, [])
      | Some out \<Rightarrow>
          if symb \<ge> kSymbols \<or> so_active_count t = 0 \<or> length out = 0 then Some (0, t, g, out)
          else bbo_loop env symb best_bid best_ask now_ns [0..<length (so_triggers t)] (0, t, g, out))"

section \<open>Bytes from the venue\<close>

text \<open>The report a message stands for, if it is one the contract covers.\<close>

definition event_safe :: "ExecutionGateway \<Rightarrow> GatewaySpec \<Rightarrow> nat \<Rightarrow> Event \<Rightarrow> bool" where
  "event_safe g S symb e \<longleftrightarrow> (ev_type e = kExecuted \<longrightarrow> fill_safe g S symb
     \<lparr>er_order_id = ev_order_id e, er_filled_quantity = ev_quantity e, er_terminal = False\<rparr>)"

lemma parse_i64:
  assumes "parse (Some d) = Some (e, n)"
  shows "i64 (ev_quantity e) \<and> i64 (ev_price e) \<and> 0 < n"
  using parse_Some(4,6) [OF assms] by (auto simp: event_wf_def i64_bounds split: if_splits)

lemma consume_keeps:
  assumes inv: "gw_inv g S" and env: "env_ok env" and safe: "\<And>e n. parse data = Some (e, n) \<Longrightarrow> event_safe g S symb e"
  shows "\<exists>ok n g' S'. consume env data symb g = Some (ok, n, g') \<and> gw_inv g' S'"
proof (cases "parse data")
  case None
  then show ?thesis using inv by (auto simp: consume_def)
next
  case (Some en)
  obtain e n where en: "en = (e, n)" by (cases en)
  obtain d where "data = Some d" using Some by (cases data) (auto simp: parse_def)
  then have i: "i64 (ev_quantity e)" "i64 (ev_price e)" using Some en parse_i64 [of d e n] by simp_all
  have sim: "\<exists>ok n' g' S'. map_option (\<lambda>(ok, g). (ok, n, g)) res = Some (ok, n', g') \<and> gw_inv g' S'"
    if "simulates env op g S res" for op res using that by (auto simp: simulates_def)
  have sf: "event_safe g S symb e" using safe Some en by simp
  show ?thesis
  proof (cases "ev_type e")
    case kExecuted
    then show ?thesis using sim [OF fill_step [OF inv env]] sf Some en by (auto simp: consume_def event_safe_def)
  next
    case kCanceled
    then show ?thesis using sim [OF cancel_step [OF inv env, of "CancelAck symb (ev_order_id e)"]] Some en by (auto simp: consume_def)
  next
    case kReplaced
    then show ?thesis using sim [OF replace_step [OF inv env i]] Some en by (auto simp: consume_def)
  next
    case kRejected
    then show ?thesis using sim [OF reject_step [OF inv]] Some en by (auto simp: consume_def)
  next
    case kAccepted
    then show ?thesis using Some en inv by (auto simp: consume_def)
  qed
qed

section \<open>Routing triggered orders\<close>

definition table_ok :: "StopOrderTable \<Rightarrow> bool" where
  "table_ok t \<longleftrightarrow> so_active_count t = length (filter (\<lambda>x. co_active x \<noteq> 0) (so_triggers t)) \<and>
     (\<forall>x\<in>set (so_triggers t). co_active x \<noteq> 0 \<longrightarrow> i64 (co_qty x) \<and> i64 (co_limit_price x))"

lemma count_update:
  assumes "i < length xs"
  shows "length (filter P (xs[i := y])) + (if P (xs ! i) then 1 else 0) = length (filter P xs) + (if P y then 1 else 0)"
proof -
  have "filter P xs = filter P (take i xs) @ filter P [xs ! i] @ filter P (drop (Suc i) xs)"
    by (subst id_take_nth_drop [OF assms]) simp
  then show ?thesis by (simp add: upd_conv_take_nth_drop [OF assms])
qed

lemma table_ok_deactivate:
  assumes "table_ok t" "i < length (so_triggers t)" "co_active (so_triggers t ! i) \<noteq> 0"
  shows "table_ok (deactivate i t)" "so_active_count (deactivate i t) + 1 = so_active_count t"
proof -
  let ?xs = "so_triggers t" and ?y = "(so_triggers t ! i)\<lparr>co_active := 0\<rparr>"
  have c: "length (filter (\<lambda>x. co_active x \<noteq> 0) (?xs[i := ?y])) + 1 = length (filter (\<lambda>x. co_active x \<noteq> 0) ?xs)"
    using count_update [OF assms(2), of "\<lambda>x. co_active x \<noteq> 0" ?y] assms(3) by simp
  then have "0 < so_active_count t" using assms(1) by (simp add: table_ok_def del: length_greater_0_conv)
  then show "so_active_count (deactivate i t) + 1 = so_active_count t" by (simp add: deactivate_def)
  moreover have "\<forall>x\<in>set (?xs[i := ?y]). co_active x \<noteq> 0 \<longrightarrow> i64 (co_qty x) \<and> i64 (co_limit_price x)"
    using assms(1) set_update_subset_insert [of ?xs i ?y] by (auto simp: table_ok_def)
  ultimately show "table_ok (deactivate i t)" using c assms(1) by (simp add: table_ok_def deactivate_def)
qed

lemma table_ok_register:
  assumes "table_ok t" "i64 (co_qty order)" "i64 (co_limit_price order)"
  shows "table_ok (snd (register_trigger order t))"
proof (cases "fst (register_trigger order t)")
  case True
  then obtain i where i: "first_slot (\<lambda>x. co_active x = 0) (so_triggers t) = Some i" "i < length (so_triggers t)"
      "co_active (so_triggers t ! i) = 0"
      "snd (register_trigger order t) = \<lparr>so_triggers = (so_triggers t)[i := order\<lparr>co_active := 1, co_trigger_id := of_nat (i + 1)\<rparr>],
         so_active_count = so_active_count t + 1\<rparr>"
    by (auto simp: register_trigger_def first_slot_Some split: if_splits option.splits)
  let ?y = "order\<lparr>co_active := 1, co_trigger_id := of_nat (i + 1)\<rparr>"
  have "\<forall>x\<in>set ((so_triggers t)[i := ?y]). co_active x \<noteq> 0 \<longrightarrow> i64 (co_qty x) \<and> i64 (co_limit_price x)"
    using assms set_update_subset_insert [of "so_triggers t" i ?y] by (auto simp: table_ok_def)
  then show ?thesis
    using assms(1) i(4) count_update [OF i(2), of "\<lambda>x. co_active x \<noteq> 0" ?y] i(3) by (simp add: table_ok_def)
qed (use assms(1) in \<open>auto simp: register_trigger_def split: if_splits option.splits\<close>)

lemma table_ok_cancel: "table_ok t \<Longrightarrow> table_ok (snd (cancel_trigger k t))"
  by (auto simp: cancel_trigger_def first_slot_Some table_ok_deactivate split: option.split)

lemma trigger_price_i64:
  assumes "trigger_price trig bid ask = Some p" "i64 bid" "i64 ask" "i64 (co_limit_price trig)"
  shows "i64 p"
  using assms s64_i64 by (cases "co_trigger_type trig") (auto simp: trigger_price_def split: if_splits)

text \<open>What a pass over entries \<open>is\<close> may do to the table, the gateway and its contract.\<close>

definition fired :: "nat \<Rightarrow> int \<Rightarrow> int \<Rightarrow> u64 \<Rightarrow> StopOrderTable \<Rightarrow> StopOrderTable \<Rightarrow> nat \<Rightarrow> ActiveOrder \<Rightarrow> bool" where
  "fired symb bid ask now t t' i x \<longleftrightarrow>
     (let trig = so_triggers t ! i in co_active trig \<noteq> 0 \<and> co_symbol_idx trig = symb \<and> co_active (so_triggers t' ! i) = 0 \<and>
      (\<exists>p>0. trigger_price trig bid ask = Some p \<and> x = order_of (trigger_intent trig p now)))"

definition routed_ok ::
    "nat \<Rightarrow> int \<Rightarrow> int \<Rightarrow> u64 \<Rightarrow> nat set \<Rightarrow> StopOrderTable \<Rightarrow> StopOrderTable \<Rightarrow> GatewaySpec \<Rightarrow> GatewaySpec \<Rightarrow> nat \<Rightarrow> bool" where
  "routed_ok symb bid ask now I t t' S S' n \<longleftrightarrow>
     length (so_triggers t') = length (so_triggers t) \<and> (\<forall>j. j \<notin> I \<longrightarrow> so_triggers t' ! j = so_triggers t ! j) \<and>
     so_active_count t' + n = so_active_count t \<and> card (dom (sp_open S')) = card (dom (sp_open S)) + n \<and>
     (\<forall>k x. sp_open S' k = Some x \<longrightarrow> sp_open S k = Some x \<or> (\<exists>i\<in>I. fired symb bid ask now t t' i x))"

lemma routed_ok_refl: "routed_ok symb bid ask now I t t S S 0"
  by (simp add: routed_ok_def)

lemma routed_ok_trans:
  assumes a: "routed_ok symb bid ask now {i} t t1 S S1 m" and b: "routed_ok symb bid ask now I t1 t2 S1 S2 n" and i: "i \<notin> I"
  shows "routed_ok symb bid ask now (insert i I) t t2 S S2 (m + n)"
proof -
  have same: "so_triggers t1 ! j = so_triggers t ! j" if "j \<noteq> i" for j using a that by (simp add: routed_ok_def)
  have keep: "so_triggers t2 ! i = so_triggers t1 ! i" using b i by (simp add: routed_ok_def)
  have "fired symb bid ask now t t2 i x" if "fired symb bid ask now t t1 i x" for x
    using that keep by (auto simp: fired_def Let_def)
  moreover have "fired symb bid ask now t t2 j x" if "fired symb bid ask now t1 t2 j x" "j \<in> I" for j x
  proof -
    have "so_triggers t1 ! j = so_triggers t ! j" using same [of j] that(2) i by (cases "j = i") auto
    then show ?thesis using that(1) by (simp add: fired_def Let_def)
  qed
  moreover have "sp_open S k = Some x \<or> fired symb bid ask now t t1 i x \<or> (\<exists>j\<in>I. fired symb bid ask now t1 t2 j x)"
    if "sp_open S2 k = Some x" for k x
    using that a b unfolding routed_ok_def by blast
  ultimately show ?thesis using a b by (simp add: routed_ok_def) blast
qed

lemma bbo_step_ok:
  assumes t: "table_ok t" "i < length (so_triggers t)" and inv: "gw_inv g S" and env: "env_ok (env i)"
    and q: "i64 bid" "i64 ask"
  shows "\<exists>r' t' g' out' S' n. bbo_step env symb bid ask now i (r, t, g, out) = Some (r', t', g', out') \<and> r' = r + n \<and> n \<le> 1 \<and>
    length out' = length out \<and> table_ok t' \<and> gw_inv g' S' \<and> routed_ok symb bid ask now {i} t t' S S' n"
proof -
  let ?trig = "so_triggers t ! i"
  have stay: ?thesis if "bbo_step env symb bid ask now i (r, t, g, out) = Some (r, t, g, out)"
    using that t(1) inv routed_ok_refl by fastforce
  show ?thesis
  proof (cases "co_active ?trig \<noteq> 0 \<and> co_symbol_idx ?trig = symb \<and> (\<exists>p>0. trigger_price ?trig bid ask = Some p)")
    case False
    then show ?thesis by (intro stay) (auto simp: bbo_step_def Let_def split: option.split)
  next
    case True
    then obtain p where p: "0 < p" "trigger_price ?trig bid ask = Some p" and act: "co_active ?trig \<noteq> 0" "co_symbol_idx ?trig = symb" by blast
    let ?x = "trigger_intent ?trig p now"
    have "i64 (co_qty ?trig)" "i64 (co_limit_price ?trig)" using t act by (auto simp: table_ok_def)
    then have "i64 (oi_qty ?x)" "i64 (oi_price ?x)" using trigger_price_i64 [OF p(2) q] by (simp_all add: trigger_intent_def)
    note B = build_step [OF inv env this, of "out ! r"]
    obtain d pk g' S' where b: "try_build (env i) ?x (out ! r) g = Some (d, pk, g')" "spec_step (Build ?x (out ! r)) (rd_pass d) S S'" "gw_inv g' S'"
      using B by (auto simp: simulates_def build_result_def)
    have st: "bbo_step env symb bid ask now i (r, t, g, out) =
        Some (if rd_pass d then (r + 1, deactivate i t, g', out[r := pk]) else (r, t, g', out[r := pk]))"
      using b(1) p act by (simp add: bbo_step_def Let_def)
    show ?thesis
    proof (cases "rd_pass d")
      case False
      then have "S' = S" using b(2) by (auto elim: spec_step.cases)
      then show ?thesis using st False t(1) b(3) routed_ok_refl by fastforce
    next
      case True
      let ?k = "ucast (oi_client_order_id ?x) :: u64"
      have o: "sp_open S ?k = None" "sp_open S' = (sp_open S)(?k \<mapsto> order_of ?x)" using b(2) True by (auto elim: spec_step.cases)
      have "routed_ok symb bid ask now {i} t (deactivate i t) S S' 1"
        unfolding routed_ok_def o(2) using o(1) table_ok_deactivate(2) [OF t act(1)] p act t(2)
        by (auto simp: domIff deactivate_def fired_def Let_def)
      then show ?thesis using st True table_ok_deactivate(1) [OF t act(1)] b(3) by fastforce
    qed
  qed
qed

lemma bbo_loop_ok:
  assumes "table_ok t" "gw_inv g S" "\<And>i. env_ok (env i)" "i64 bid" "i64 ask" "distinct is" "\<And>i. i \<in> set is \<Longrightarrow> i < length (so_triggers t)"
    "r \<le> length out"
  shows "\<exists>r' t' g' out' S' n. bbo_loop env symb bid ask now is (r, t, g, out) = Some (r', t', g', out') \<and> r' = r + n \<and>
    r' \<le> length out' \<and> length out' = length out \<and> table_ok t' \<and> gw_inv g' S' \<and> routed_ok symb bid ask now (set is) t t' S S' n"
  using assms
proof (induction "is" arbitrary: r t g out S)
  case Nil
  then show ?case using routed_ok_refl by fastforce
next
  case (Cons i js)
  show ?case
  proof (cases "r < length out")
    case False
    then show ?thesis using Cons.prems routed_ok_refl by fastforce
  next
    case True
    have i: "i < length (so_triggers t)" using Cons.prems(7) by simp
    obtain r1 t1 g1 out1 S1 m where a: "bbo_step env symb bid ask now i (r, t, g, out) = Some (r1, t1, g1, out1)" "r1 = r + m" "m \<le> 1"
      "length out1 = length out" "table_ok t1" "gw_inv g1 S1" "routed_ok symb bid ask now {i} t t1 S S1 m"
      using bbo_step_ok [of t i g S env bid ask symb now r out] Cons.prems(1-5) i by blast
    have len: "length (so_triggers t1) = length (so_triggers t)" using a(7) by (simp add: routed_ok_def)
    have d: "distinct js" "i \<notin> set js" and r: "r1 \<le> length out1" using Cons.prems(6) True a by auto
    obtain r' t' g' out' S' n where b: "bbo_loop env symb bid ask now js (r1, t1, g1, out1) = Some (r', t', g', out')" "r' = r1 + n"
      "r' \<le> length out'" "length out' = length out1" "table_ok t'" "gw_inv g' S'" "routed_ok symb bid ask now (set js) t1 t' S1 S' n"
      using Cons.IH [OF a(5,6) Cons.prems(3,4,5) d(1) _ r] Cons.prems(7) len by force
    have "routed_ok symb bid ask now (set (i # js)) t t' S S' (m + n)" using routed_ok_trans [OF a(7) b(7) d(2)] by simp
    moreover have "bbo_loop env symb bid ask now (i # js) (r, t, g, out) = Some (r', t', g', out')" using True a(1) b(1) by simp
    ultimately show ?thesis using a(2,4) b by fastforce
  qed
qed

text \<open>
  C17: A pass of the stop-order table over a quote routes exactly what it deactivates.  Whatever the
  gateway's logs answer, \<open>evaluate_bbo\<close> returns; the number of routed packets is the drop of the
  active count and the growth of the set of open orders and fits the packet array; every order that
  was opened belongs to a trigger of that symbol that was active, whose price rule fired at a positive
  price, and which is inactive afterwards; and the gateway still satisfies its contract.
\<close>

theorem stop_orders_route:
  assumes "table_ok t" "gw_inv g S" "\<And>i. env_ok (env i)" "i64 bid" "i64 ask"
  shows "\<exists>routed t' g' out' S'. evaluate_bbo env symb bid ask now (Some out) t g = Some (routed, t', g', out') \<and>
    routed \<le> length out \<and> gw_inv g' S' \<and> table_ok t' \<and> so_active_count t' + routed = so_active_count t \<and>
    card (dom (sp_open S')) = card (dom (sp_open S)) + routed \<and>
    (\<forall>k x. sp_open S' k = Some x \<longrightarrow> sp_open S k = Some x \<or> (\<exists>i<length (so_triggers t). fired symb bid ask now t t' i x))"
proof (cases "symb \<ge> kSymbols \<or> so_active_count t = 0 \<or> length out = 0")
  case True
  then have "evaluate_bbo env symb bid ask now (Some out) t g = Some (0, t, g, out)" by (auto simp: evaluate_bbo_def)
  then show ?thesis using assms(1,2) by auto
next
  case False
  obtain r' t' g' out' S' n where b: "bbo_loop env symb bid ask now [0..<length (so_triggers t)] (0, t, g, out) = Some (r', t', g', out')"
    "r' = 0 + n" "r' \<le> length out'" "length out' = length out" "table_ok t'" "gw_inv g' S'"
    "routed_ok symb bid ask now (set [0..<length (so_triggers t)]) t t' S S' n"
    using bbo_loop_ok [of t g S env bid ask "[0..<length (so_triggers t)]" 0 out symb now] assms by auto
  then have e: "evaluate_bbo env symb bid ask now (Some out) t g = Some (n, t', g', out')" using False by (auto simp: evaluate_bbo_def)
  have "sp_open S k = Some x \<or> (\<exists>i<length (so_triggers t). fired symb bid ask now t t' i x)" if "sp_open S' k = Some x" for k x
    using b(7) that unfolding routed_ok_def by (metis atLeastLessThan_iff set_upt)
  moreover have "so_active_count t' + n = so_active_count t" "card (dom (sp_open S')) = card (dom (sp_open S)) + n"
    using b(7) by (simp_all add: routed_ok_def)
  ultimately show ?thesis
    by (intro exI [of _ n] exI [of _ t'] exI [of _ g'] exI [of _ out'] exI [of _ S']) (use e b in simp)
qed

definition sample_trigger :: ConditionalOrder where
  "sample_trigger = empty_trigger\<lparr>co_symbol_idx := 5, co_side := kSideSell, co_stop_price := 1500000, co_qty := 100, co_client_order_id := 9\<rparr>"

lemma table_ok_new: "table_ok (new_stop_table n)"
  by (simp add: table_ok_def new_stop_table_def empty_trigger_def)

theorem stop_orders_route_witness:
  "\<exists>routed t' g' out'. evaluate_bbo (\<lambda>_. sample_env) 5 1490000 1510000 2000 (Some [empty_packet])
     (snd (register_trigger sample_trigger (new_stop_table 1024))) (start_gateway 10000 None) = Some (routed, t', g', out') \<and> routed \<le> 1"
proof -
  have "table_ok (snd (register_trigger sample_trigger (new_stop_table 1024)))"
    by (rule table_ok_register [OF table_ok_new]) (simp_all add: sample_trigger_def empty_trigger_def i64_bounds)
  then show ?thesis
    using stop_orders_route [OF _ start_inv [of 10000 None], of _ "\<lambda>_. sample_env" 1490000 1510000 5 2000 "[empty_packet]"] sample_env_ok
    by (fastforce simp: i64_bounds)
qed

end
