(* ===== verification/Mold_Udp64.thy ===== *)
theory Mold_Udp64
  imports Bytes
begin

text \<open>
  The packet framing of \<open>luv_moldudp64.hpp\<close>: the 20-byte header, the validation of a packet's message
  block, the iterator over its messages and the retransmission request.  The theory shows that
  validation recognises exactly the well-formed packets, that the iterator then yields exactly their
  messages, and that a request reads back as written.
\<close>

section \<open>Packets\<close>

definition kHeaderSize :: nat where "kHeaderSize = 20"

record Header =
  hd_sequence :: u64
  hd_message_count :: u16

definition read_be16 :: "nat \<Rightarrow> u8 list \<Rightarrow> u16" where
  "read_be16 off d = push_bit 8 (ucast (d ! off)) OR ucast (d ! (off + 1))"

definition read_be64 :: "nat \<Rightarrow> u8 list \<Rightarrow> u64" where
  "read_be64 off d = foldl shift_in 0 (field off 8 d)"

text \<open>A null pointer is \<open>None\<close>; the size is the length of the buffer.\<close>

definition parse_header :: "u8 list option \<Rightarrow> Header option" where
  "parse_header data =
     (case data of
        None \<Rightarrow> None
      | Some d \<Rightarrow> if length d < kHeaderSize then None
                else Some \<lparr>hd_sequence = read_be64 10 d, hd_message_count = read_be16 18 d\<rparr>)"

fun validate_blocks :: "u8 list \<Rightarrow> nat \<Rightarrow> nat \<Rightarrow> bool" where
  "validate_blocks d 0 offset \<longleftrightarrow> offset = length d"
| "validate_blocks d (Suc n) offset \<longleftrightarrow>
     (if length d - offset < 2 then False
      else let len = unat (read_be16 offset d) in
        if len = 0 \<or> len > length d - (offset + 2) then False else validate_blocks d n (offset + 2 + len))"

definition validate_message_block :: "u8 list option \<Rightarrow> u16 \<Rightarrow> bool" where
  "validate_message_block data message_count =
     (case data of
        None \<Rightarrow> False
      | Some d \<Rightarrow> if length d < kHeaderSize then False else validate_blocks d (unat message_count) kHeaderSize)"

section \<open>The iterator\<close>

record MessageIterator =
  mi_data :: "u8 list option"
  mi_size :: nat
  mi_offset :: nat
  mi_invalid :: bool

definition new_iterator :: "u8 list option \<Rightarrow> MessageIterator" where
  "new_iterator data = \<lparr>mi_data = data, mi_size = (case data of None \<Rightarrow> 0 | Some d \<Rightarrow> length d), mi_offset = kHeaderSize,
     mi_invalid = False\<rparr>"

text \<open>The bytes of the next message, if there is one.\<close>

definition mi_next :: "MessageIterator \<Rightarrow> u8 list option \<times> MessageIterator" where
  "mi_next it =
     (case mi_data it of
        None \<Rightarrow> (None, it)
      | Some d \<Rightarrow>
          if mi_invalid it \<or> mi_offset it = mi_size it then (None, it)
          else if mi_offset it > mi_size it \<or> mi_size it - mi_offset it < 2 then (None, it\<lparr>mi_invalid := True\<rparr>)
          else
            let len = unat (read_be16 (mi_offset it) d); it = it\<lparr>mi_offset := mi_offset it + 2\<rparr> in
            if len = 0 \<or> len > mi_size it - mi_offset it then (None, it\<lparr>mi_invalid := True\<rparr>)
            else (Some (field (mi_offset it) len d), it\<lparr>mi_offset := mi_offset it + len\<rparr>))"

definition mi_valid :: "MessageIterator \<Rightarrow> bool" where
  "mi_valid it \<longleftrightarrow> \<not> mi_invalid it"

text \<open>A client that calls \<open>next\<close> up to \<open>n\<close> times.\<close>

fun mi_collect :: "nat \<Rightarrow> MessageIterator \<Rightarrow> u8 list list \<times> MessageIterator" where
  "mi_collect 0 it = ([], it)"
| "mi_collect (Suc n) it =
     (case mi_next it of
        (None, it') \<Rightarrow> ([], it')
      | (Some m, it') \<Rightarrow> (case mi_collect n it' of (ms, it'') \<Rightarrow> (m # ms, it'')))"

section \<open>Requests\<close>

record RequestPacket =
  rq_session :: "u8 list"
  rq_sequence :: u64
  rq_requested_count :: u16

definition format_request :: "RequestPacket \<Rightarrow> u8 list option \<Rightarrow> u8 list option" where
  "format_request req buffer =
     (case buffer of
        None \<Rightarrow> None
      | Some b \<Rightarrow>
          if length b < 20 then None
          else
            let b = put_bytes 0 (rq_session req) b;
                b = foldl (\<lambda>b i. b[10 + i := ucast (drop_bit ((7 - i) * 8) (rq_sequence req) AND 0xFF)]) b [7, 6, 5, 4, 3, 2, 1, 0];
                b = b[18 := ucast (drop_bit 8 (rq_requested_count req) AND 0xFF)]
            in Some (b[19 := ucast (rq_requested_count req AND 0xFF)]))"

definition parse_request :: "u8 list option \<Rightarrow> RequestPacket option" where
  "parse_request data =
     (case data of
        None \<Rightarrow> None
      | Some d \<Rightarrow> if length d < 20 then None
                else Some \<lparr>rq_session = field 0 10 d, rq_sequence = read_be64 10 d, rq_requested_count = read_be16 18 d\<rparr>)"

section \<open>Well-formed packets\<close>

definition mold_frame :: "u8 list \<Rightarrow> u8 list" where
  "mold_frame m = to_be 2 (length m) @ m"

definition mold_packet :: "u8 list \<Rightarrow> u8 list list \<Rightarrow> bool" where
  "mold_packet d ms \<longleftrightarrow> kHeaderSize \<le> length d \<and> drop kHeaderSize d = concat (map mold_frame ms) \<and>
     (\<forall>m\<in>set ms. 0 < length m \<and> length m < 65536)"

lemma read_be16_eq: "off + 2 \<le> length d \<Longrightarrow> unat (read_be16 off d) = of_be (field off 2 d)"
proof -
  assume off: "off + 2 \<le> length d"
  then have f: "field off 2 d = [d ! off, d ! (off + 1)]"
    by (intro nth_equalityI) (auto simp: field_def less_Suc_eq numeral_eq_Suc)
  have "read_be16 off d = foldl shift_in 0 [d ! off, d ! (off + 1)]" by (simp add: read_be16_def shift_in_def)
  then have "read_be16 off d = of_nat (of_be (field off 2 d))" by (simp only: shift_in_be f)
  moreover have "of_be (field off 2 d) < 65536" using of_be_less [of "field off 2 d"] off by (simp add: length_field)
  ultimately show ?thesis by (simp add: unat_of_nat)
qed

lemma frame_at:
  assumes "drop off d = mold_frame m @ rest" "0 < length m" "length m < 65536" "off \<le> length d"
  shows "off + 2 + length m \<le> length d" "unat (read_be16 off d) = length m" "field (off + 2) (length m) d = m"
    "drop (off + 2 + length m) d = rest"
proof -
  have l: "length d - off = 2 + length m + length rest" using arg_cong [OF assms(1), of length] by (simp add: mold_frame_def)
  then show "off + 2 + length m \<le> length d" using assms(4) by simp
  have "field off 2 d = to_be 2 (length m)" using assms(1) by (simp add: field_def mold_frame_def)
  then show "unat (read_be16 off d) = length m" using l assms(3) by (simp add: read_be16_eq of_be_to_be)
  have "drop (off + 2) d = m @ rest" using arg_cong [OF assms(1), of "drop 2"] by (simp add: mold_frame_def add.commute)
  then show "field (off + 2) (length m) d = m" "drop (off + 2 + length m) d = rest"
    using drop_drop [of "length m" "off + 2" d] by (simp_all add: field_def add.commute)
qed

lemma frame_of:
  assumes "off + 2 \<le> length d" "len = unat (read_be16 off d)" "off + 2 + len \<le> length d"
  shows "drop off d = mold_frame (field (off + 2) len d) @ drop (off + 2 + len) d" "length (field (off + 2) len d) = len" "len < 65536"
proof -
  show l: "length (field (off + 2) len d) = len" using assms(3) by (simp add: length_field)
  show "len < 65536" using assms(2) word_ranges(1) by simp
  have "to_be 2 len = field off 2 d"
    using to_be_of_be [of "field off 2 d"] read_be16_eq [OF assms(1)] assms(1,2) by (simp add: length_field)
  moreover have "drop off d = field off 2 d @ field (off + 2) len d @ drop (off + 2 + len) d"
    using append_take_drop_id [of 2 "drop off d"] append_take_drop_id [of len "drop (off + 2) d"]
    by (simp add: field_def add.commute add.left_commute)
  ultimately show "drop off d = mold_frame (field (off + 2) len d) @ drop (off + 2 + len) d" by (simp only: mold_frame_def l append_assoc)
qed

lemma validate_blocks_iff:
  assumes "off \<le> length d"
  shows "validate_blocks d n off \<longleftrightarrow>
    (\<exists>ms. length ms = n \<and> drop off d = concat (map mold_frame ms) \<and> (\<forall>m\<in>set ms. 0 < length m \<and> length m < 65536))"
  using assms
proof (induction n arbitrary: off)
  case 0
  then show ?case by auto
next
  case (Suc n)
  let ?len = "unat (read_be16 off d)"
  show ?case
  proof
    assume v: "validate_blocks d (Suc n) off"
    then have b: "off + 2 \<le> length d" "0 < ?len" "off + 2 + ?len \<le> length d" "validate_blocks d n (off + 2 + ?len)"
      using Suc.prems by (auto simp: Let_def split: if_splits)
    then obtain ms where ms: "length ms = n" "drop (off + 2 + ?len) d = concat (map mold_frame ms)"
        "\<forall>m\<in>set ms. 0 < length m \<and> length m < 65536"
      using Suc.IH [of "off + 2 + ?len"] by auto
    note F = frame_of [OF b(1) refl b(3)]
    show "\<exists>ms. length ms = Suc n \<and> drop off d = concat (map mold_frame ms) \<and> (\<forall>m\<in>set ms. 0 < length m \<and> length m < 65536)"
    proof (intro exI [of _ "field (off + 2) ?len d # ms"] conjI ballI)
      show "length (field (off + 2) ?len d # ms) = Suc n" using ms(1) by simp
      show "drop off d = concat (map mold_frame (field (off + 2) ?len d # ms))" by (simp only: F(1) ms(2) list.map concat.simps)
    next
      fix m
      assume "m \<in> set (field (off + 2) ?len d # ms)"
      then consider "m = field (off + 2) ?len d" | "m \<in> set ms" by auto
      then show "0 < length m" "length m < 65536" by (cases, use F(2,3) b(2) ms(3) in auto)+
    qed
  next
    assume "\<exists>ms. length ms = Suc n \<and> drop off d = concat (map mold_frame ms) \<and> (\<forall>m\<in>set ms. 0 < length m \<and> length m < 65536)"
    then obtain m ms where ms: "length ms = n" "drop off d = mold_frame m @ concat (map mold_frame ms)"
        "\<forall>x\<in>set (m # ms). 0 < length x \<and> length x < 65536"
      by (auto simp: length_Suc_conv)
    note F = frame_at [OF ms(2) _ _ Suc.prems]
    have "validate_blocks d n (off + 2 + length m)" using Suc.IH [of "off + 2 + length m"] F ms by auto
    then show "validate_blocks d (Suc n) off" using F ms(3) by (auto simp: Let_def)
  qed
qed

lemma collect_messages:
  assumes "drop off d = concat (map mold_frame ms)" "\<forall>m\<in>set ms. 0 < length m \<and> length m < 65536" "off \<le> length d" "length ms < n"
  shows "mi_collect n \<lparr>mi_data = Some d, mi_size = length d, mi_offset = off, mi_invalid = False\<rparr> =
    (ms, \<lparr>mi_data = Some d, mi_size = length d, mi_offset = length d, mi_invalid = False\<rparr>)"
  using assms
proof (induction ms arbitrary: off n)
  case Nil
  then have "off = length d" by simp
  then show ?case using Nil by (cases n) (simp_all add: mi_next_def)
next
  case (Cons m ms)
  have d: "drop off d = mold_frame m @ concat (map mold_frame ms)" using Cons.prems(1) by simp
  note F = frame_at [OF d _ _ Cons.prems(3)]
  obtain n' where n: "n = Suc n'" "length ms < n'" using Cons.prems(4) by (cases n) auto
  have "mi_next \<lparr>mi_data = Some d, mi_size = length d, mi_offset = off, mi_invalid = False\<rparr> =
      (Some m, \<lparr>mi_data = Some d, mi_size = length d, mi_offset = off + 2 + length m, mi_invalid = False\<rparr>)"
  proof -
    have "\<not> length d < off + 2 + length m" "off < length d" "\<not> length d - off < 2" "\<not> length m > length d - (off + 2)" "length m \<noteq> 0"
      using F Cons.prems(2) by auto
    then show ?thesis using F Cons.prems(2) by (simp add: mi_next_def Let_def)
  qed
  then show ?case using Cons.IH [of "off + 2 + length m" n'] F Cons.prems(2) n by simp
qed

lemma ucast_low_byte:
  assumes "8 \<le> LENGTH('a)"
  shows "(ucast (v AND 0xFF :: 'a::len word) :: u8) = ucast v"
proof -
  have "v AND 0xFF = take_bit 8 v" by (simp add: take_bit_eq_mask mask_eq_exp_minus_1)
  then show ?thesis using assms by (auto simp: bit_eq_iff bit_simps)
qed

lemma format_request_wire:
  assumes "length (rq_session req) = 10" "20 \<le> length b"
  shows "format_request req (Some b) = Some (rq_session req @ to_be 8 (unat (rq_sequence req)) @
    to_be 2 (unat (rq_requested_count req)) @ drop 20 b)"
proof -
  have "drop 10 b = b ! 10 # b ! 11 # b ! 12 # b ! 13 # b ! 14 # b ! 15 # b ! 16 # b ! 17 # b ! 18 # b ! 19 # drop 20 b"
    using assms(2) Cons_nth_drop_Suc [of 10 b] Cons_nth_drop_Suc [of 11 b] Cons_nth_drop_Suc [of 12 b]
      Cons_nth_drop_Suc [of 13 b] Cons_nth_drop_Suc [of 14 b] Cons_nth_drop_Suc [of 15 b] Cons_nth_drop_Suc [of 16 b]
      Cons_nth_drop_Suc [of 17 b] Cons_nth_drop_Suc [of 18 b] Cons_nth_drop_Suc [of 19 b]
    by simp
  moreover have "put_bytes 0 (rq_session req) b = rq_session req @ drop 10 b" by (simp add: put_bytes_def assms(1))
  ultimately show ?thesis
    using assms by (simp add: format_request_def Let_def list_update_append to_be_word_bytes ucast_low_byte)
qed

lemma request_roundtrip:
  assumes "length (rq_session req) = 10" "20 \<le> length b"
  shows "\<exists>d. format_request req (Some b) = Some d \<and> parse_request (Some d) = Some req"
proof -
  let ?d = "rq_session req @ to_be 8 (unat (rq_sequence req)) @ to_be 2 (unat (rq_requested_count req)) @ drop 20 b"
  have "field 10 8 ?d = to_be 8 (unat (rq_sequence req))" "field 18 2 ?d = to_be 2 (unat (rq_requested_count req))" "field 0 10 ?d = rq_session req"
    using assms(1) by (simp_all add: field_def)
  then have "read_be64 10 ?d = rq_sequence req" "unat (read_be16 18 ?d) = unat (rq_requested_count req)" "field 0 10 ?d = rq_session req"
    using word_ranges(1) [of "rq_requested_count req"] word_ranges(3) [of "rq_sequence req"] assms(1)
    by (simp_all add: read_be64_def shift_in_be of_be_to_be read_be16_eq)
  moreover from this(2) have "read_be16 18 ?d = rq_requested_count req" by (rule unsigned_word_eqI)
  ultimately have "parse_request (Some ?d) = Some req" using assms(1) by (simp add: parse_request_def)
  then show ?thesis using format_request_wire [OF assms] by blast
qed

section \<open>Property\<close>

text \<open>
  C28: Validation and iteration agree on what a packet is.  \<open>validate_message_block\<close> accepts a buffer
  for a message count if and only if what follows the header is that many non-empty length-prefixed
  messages and nothing else; and then a client that keeps calling \<open>next\<close> obtains exactly these
  messages in order, after which the iterator is exhausted and still valid.
\<close>

theorem mold_block_exact:
  "(validate_message_block (Some d) count \<longleftrightarrow> (\<exists>ms. mold_packet d ms \<and> length ms = unat count)) \<and>
   (mold_packet d ms \<longrightarrow> (let (got, it) = mi_collect (length ms + 1) (new_iterator (Some d)) in
      got = ms \<and> mi_valid it \<and> fst (mi_next it) = None))"
proof
  show "validate_message_block (Some d) count \<longleftrightarrow> (\<exists>ms. mold_packet d ms \<and> length ms = unat count)"
    using validate_blocks_iff [of kHeaderSize d "unat count"] by (auto simp: validate_message_block_def mold_packet_def)
  show "mold_packet d ms \<longrightarrow> (let (got, it) = mi_collect (length ms + 1) (new_iterator (Some d)) in
      got = ms \<and> mi_valid it \<and> fst (mi_next it) = None)"
  proof
    assume p: "mold_packet d ms"
    have "mi_collect (length ms + 1) (new_iterator (Some d)) =
        (ms, \<lparr>mi_data = Some d, mi_size = length d, mi_offset = length d, mi_invalid = False\<rparr>)"
      using collect_messages [of kHeaderSize d ms "length ms + 1"] p by (simp add: mold_packet_def new_iterator_def)
    then show "let (got, it) = mi_collect (length ms + 1) (new_iterator (Some d)) in
      got = ms \<and> mi_valid it \<and> fst (mi_next it) = None" by (simp add: mi_valid_def mi_next_def)
  qed
qed

theorem mold_block_exact_witness:
  "fst (mi_collect 3 (new_iterator (Some (replicate 20 0 @ [0, 1, 65, 0, 2, 66, 67])))) = [[65], [66, 67]]"
proof -
  have p: "mold_packet (replicate 20 0 @ [0, 1, 65, 0, 2, 66, 67]) [[65], [66, 67]]"
    by (simp add: mold_packet_def kHeaderSize_def mold_frame_def to_be_def numeral_2_eq_2)
  then show ?thesis using mold_block_exact [of "replicate 20 0 @ [0, 1, 65, 0, 2, 66, 67]" 2 "[[65], [66, 67]]"]
    by (simp add: case_prod_unfold Let_def numeral_3_eq_3)
qed

end
