(* ===== verification/Spec2Isabelle.thy ===== *)
theory Spec2Isabelle
  imports LOB_Properties Sequence_Tracker Circuit_Breaker Rate_Limiter Reconciliation Recovery Audit_Log
    Feed_Properties Stop_Orders Mold_Udp64
begin

text \<open>
  A verification library for Fort, an in-process limit order book simulator in C++.

  \<^bold>\<open>The program.\<close>  Market data enters through a feed source (\<open>luv_feed_sim.hpp\<close>), which
  decodes NASDAQ ITCH 5.0 messages with \<open>decode_itch\<close> (\<open>luv_decode_itch.hpp\<close>) into ticks of a
  single-producer single-consumer ring in the arena (\<open>luv_arena.hpp\<close>).  The order book engine
  (\<open>luv_lob.hpp\<close>) applies the ticks to price levels that live in the arena and finds orders by
  reference number through an open-addressing map.  Orders leave through the execution gateway
  (\<open>luv_execution.hpp\<close>): it passes an order through a circuit breaker, a limiter of pending orders and
  the pre-trade risk check, reserves a slot and the risk totals, registers the order in the
  reconciliation ledger, writes it to a hash-chained audit log (all of \<open>luv_safety.hpp\<close>) and to a
  write-ahead log (\<open>luv_recovery.hpp\<close>), and builds an OUCH packet.  Reports of the venue
  (\<open>luv_ouch.hpp\<close>) settle, amend or close the orders, and a table of stop and pegged orders submits
  orders when a quote triggers them.  A sequence tracker watches the feed, and
  \<open>luv_moldudp64.hpp\<close> frames its packets.

  \<^bold>\<open>Machine types.\<close>  Unsigned integers are words of their width, so they wrap as in the code;
  \<open>int64_t\<close> values are integers, and every unchecked signed operation goes through \<open>s64\<close>, the
  two's-complement value.  Array indices are natural numbers.  A null pointer, a file that cannot be
  opened and a loop that does not end are \<open>None\<close>.  What the operating system answers (how many bytes
  a \<open>write\<close> took, whether \<open>fsync\<close> or \<open>mmap\<close> succeeded, the clock) and SHA-256 are arguments.

  \<^bold>\<open>Theories.\<close>
  \<^item> \<open>Prelude\<close>: machine types, \<open>s64\<close>, masks and probe sequences, and the interfaces
    \<open>invariant_machine\<close>, \<open>bounded_queue\<close>, \<open>insert_map\<close> and \<open>finite_map\<close> as locales.
  \<^item> \<open>Numeric\<close> (\<open>luv_numeric_limits.hpp\<close>): limits and checked arithmetic; the portable branch of the
    checked product agrees with the builtin.
  \<^item> \<open>Arena\<close> (\<open>luv_arena.hpp\<close>): configuration, slab layout, records, rings, level addressing and
    initialisation.  A ring refines a bounded queue, and producer and consumer never touch the same
    slot under any interleaving (a step relation over the loads and stores of both threads).
  \<^item> \<open>Order_Ref_Map\<close>, \<open>Price_Level\<close>, \<open>Itch_Types\<close>, \<open>LOB\<close>: the order reference map with tombstones, the
    linked slots of a price level and the handlers of the engine (\<open>luv_lob.hpp\<close>).
  \<^item> \<open>LOB_Structure\<close>, \<open>LOB_Spec\<close>, \<open>LOB_Refine\<close>, \<open>LOB_Process\<close>, \<open>LOB_Properties\<close>: the invariant of the
    engine, an abstract book (price levels as queues of orders), and the refinement of every handler,
    of single messages and of whole feeds to it, rejections included.
  \<^item> \<open>Linear_Probing\<close>: tables with linear probing, shared by \<open>Symbol_Table\<close> and \<open>Reconciliation\<close>.
  \<^item> \<open>Bytes\<close>: byte order, fields of records, buffers and descriptor writes.
  \<^item> \<open>Symbol_Table\<close>, \<open>Itch_Decode\<close> (\<open>luv_decode_itch.hpp\<close>): the ticker table is a finite map; whatever the
    decoder accepts is well formed.
  \<^item> \<open>Feed_Encode\<close>, \<open>Feed_Sim\<close>, \<open>Feed_Generate\<close>, \<open>Feed_Window\<close>, \<open>Feed_Properties\<close> (\<open>luv_feed_sim.hpp\<close>): the
    simulator's encoders, random generator, sources and polling.  Encoding and decoding are inverse,
    a poll delivers a well-formed tick unless the rate, the ring or the injection forbids it, and the
    reorder window permutes.
  \<^item> \<open>Sequence_Tracker\<close>, \<open>Circuit_Breaker\<close>, \<open>Rate_Limiter\<close>, \<open>Reconciliation\<close>, \<open>Audit_Log\<close>
    (\<open>luv_safety.hpp\<close>) and \<open>Recovery\<close> (\<open>luv_recovery.hpp\<close>): the safety components, each with its
    invariant and contract, and the states in which the code departs from it.
  \<^item> \<open>Risk\<close> (\<open>luv_execution.hpp\<close>): limits and the pre-trade risk decision, which is exact
    with respect to unbounded arithmetic.
  \<^item> \<open>Ouch\<close> (\<open>OuchPacketTemplates\<close> of \<open>luv_execution.hpp\<close>, \<open>Parser\<close> of \<open>luv_ouch.hpp\<close>): the outbound packets as
    bytes, and the parser of the venue's reports, which accepts exactly the frames of well-formed events.
  \<^item> \<open>Gateway\<close> (\<open>ExecutionGateway\<close> of \<open>luv_execution.hpp\<close>): one definition per member function, on a record
    with the members of the class.  \<open>GatewayEnv\<close> holds what one call finds outside the program: the
    answers to the writes of the logs, the clocks, the hash and the fill callback.
  \<^item> \<open>Gateway_Inv\<close>, \<open>Gateway_Steps\<close>, \<open>Gateway_Properties\<close>: the contract of the gateway (one map of open
    orders, the settled position and notional of each symbol and the token limit, with the step relation
    \<open>spec_step\<close>), the simulation \<open>gw_inv\<close> between slots, totals, ledger and limiter and that contract,
    and the proof that every operation is a step of it.  From this follow the accounting identities in
    every reachable state, the exact condition of admission, and that a replay of the write-ahead log
    restores exactly the open orders; the one operation that breaks the latter, a rejection, is shown
    to do so.
  \<^item> \<open>Stop_Orders\<close> (\<open>OrderFlowAdapter\<close> of \<open>luv_ouch.hpp\<close>, \<open>StopOrderTable\<close> of \<open>luv_execution.hpp\<close>): the two
    clients of the gateway, each proved to keep its contract.
  \<^item> \<open>Mold_Udp64\<close> (\<open>luv_moldudp64.hpp\<close>): validation and iteration agree on the messages of a packet, and a
    retransmission request reads back as written.

  \<^bold>\<open>Loops and bounds.\<close>  Probe loops carry the number of probes the code allows.  The insertion loop of
  the symbol table and the repair loop of the ledger are unbounded in the code; they are a partial
  function and a \<open>while_option\<close>, with proofs that they end in every state that satisfies the
  invariant.  The walk to the tail of a price level has fuel equal to the number of slots and is
  proved to end within it.  \<open>write\<close> loops run over a list of answers of the system; a list as long as the
  buffer (112 bytes of an audit record, 64 of a recovery record) is enough, since every answer that
  makes progress takes at least one byte, and \<open>env_ok\<close> asks for that many.

  \<^bold>\<open>Where the contracts stop.\<close>  A fill that closes an order clears its entry of the ledger without
  repairing the probe sequence, which hides the open orders displaced past it; the contract of the
  ledger says exactly which (\<open>fill_hides\<close> in \<open>Reconciliation\<close>).  The gateway keeps its contract except on
  two kinds of fill, named by \<open>fill_safe\<close> in \<open>Gateway_Steps\<close>: those that hide another open order in the
  ledger, and those that name an open order under another symbol while a terminal slot of that symbol
  still carries the id.  The statements about runs of the gateway (\<open>gateway_reach\<close>, \<open>recover_reach\<close>) are
  about runs without such fills, with any configuration calls in between.  The risk decision is exact
  for reference prices in the range of prices (\<open>limits_ok\<close>), and the limiter for threads that release
  only tokens they hold.

  \<^bold>\<open>Not modelled.\<close>  The consumer loop (\<open>luv_consumer.hpp\<close>) beyond the book engine it drives, since it
  interleaves it with floating-point feature extraction and inference; the AI and feature pipelines;
  the analytics, routing and compliance headers that the engine does not include; the servers and
  text parsers of HTTP, WebSocket, JSON and FIX; DPDK packet input; telemetry export and logging; the
  threads, signals and command line of the main program.  Locks and atomics are one step each, except
  in the ring and the rate limiter, whose interleavings are modelled.  \<open>double\<close> values that the
  modelled code compares are replaced by the comparisons it makes.
\<close>

end
